(* ===== verification/Rust_Prelude.thy ===== *)
theory Rust_Prelude
  imports Main "HOL-Library.Word" "HOL-Library.Sublist"
begin

text \<open>
  What the components share: the collections that carry their proofs, Rust's saturating
  integer arithmetic, \<^verbatim>\<open>Result\<close> with early return, and the methods of \<^verbatim>\<open>str\<close> the code
  calls.

  Conventions of the whole development:
  \<^item> \<^verbatim>\<open>u64\<close> and \<^verbatim>\<open>usize\<close> (a 64-bit target) are \<^typ>\<open>nat\<close> where the code saturates, with the
    bound \<^verbatim>\<open>u64_max\<close> written out; \<^verbatim>\<open>i64\<close> is \<^typ>\<open>int\<close> with \<^verbatim>\<open>i64_min\<close> and \<^verbatim>\<open>i64_max\<close>; bytes and
    the values of variable-length integers are words;
  \<^item> a \<^verbatim>\<open>String\<close> is the list of its UTF-8 bytes, a \<^typ>\<open>char list\<close>, so \<^const>\<open>length\<close> is Rust's
    \<^verbatim>\<open>len()\<close>;
  \<^item> a \<^verbatim>\<open>Result<T, E>\<close> is \<^typ>\<open>'e + 'a\<close>, \<^const>\<open>Inl\<close> the error.
\<close>

named_theorems sat_simps \<open>unfolding of the saturating operations\<close>
named_theorems result_simps \<open>early return of results\<close>
named_theorems str_simps \<open>unfolding of the string methods\<close>

section \<open>Integers\<close>

type_synonym byte = "8 word"

definition u64_max :: nat where
  "u64_max = 18446744073709551615"

definition u32_max :: nat where
  "u32_max = 4294967295"

definition i64_max :: int where
  "i64_max = 9223372036854775807"

definition i64_min :: int where
  "i64_min = - 9223372036854775808"

definition sat_add :: "nat \<Rightarrow> nat \<Rightarrow> nat" where
  "sat_add a b = min (a + b) u64_max"

definition sat_sub :: "nat \<Rightarrow> nat \<Rightarrow> nat" where
  "sat_sub a b = (if a < b then 0 else a - b)"

definition sat_mul :: "nat \<Rightarrow> nat \<Rightarrow> nat" where
  "sat_mul a b = min (a * b) u64_max"

definition clamp_i64 :: "int \<Rightarrow> int" where
  "clamp_i64 x = max i64_min (min i64_max x)"

definition sat_add_i64 :: "int \<Rightarrow> int \<Rightarrow> int" where
  "sat_add_i64 a b = clamp_i64 (a + b)"

definition sat_sub_i64 :: "int \<Rightarrow> int \<Rightarrow> int" where
  "sat_sub_i64 a b = clamp_i64 (a - b)"

definition in_i64 :: "int \<Rightarrow> bool" where
  "in_i64 x \<longleftrightarrow> i64_min \<le> x \<and> x \<le> i64_max"

text \<open>\<^verbatim>\<open>Ord::clamp\<close> panics when the bounds cross; \<^const>\<open>None\<close> is the panic.\<close>

definition clamp_checked :: "nat \<Rightarrow> nat \<Rightarrow> nat \<Rightarrow> nat option" where
  "clamp_checked x lo hi = (if hi < lo then None else Some (max lo (min hi x)))"

lemmas sat_defs [sat_simps] =
  sat_add_def sat_sub_def sat_mul_def sat_add_i64_def sat_sub_i64_def clamp_i64_def
  in_i64_def i64_max_def i64_min_def

lemma sat_sub_eq_minus [simp]: "sat_sub a b = a - b"
  by (simp add: sat_sub_def)

lemma sat_add_le_max [simp]: "sat_add a b \<le> u64_max"
  by (simp add: sat_add_def)

lemma sat_add_exact [simp]: "a + b \<le> u64_max \<Longrightarrow> sat_add a b = a + b"
  by (simp add: sat_add_def)

lemma sat_add_le: "sat_add a b \<le> a + b"
  by (simp add: sat_add_def)

lemma sat_add_below: "sat_add a b < u64_max \<Longrightarrow> sat_add a b = a + b"
  by (simp add: sat_add_def min_def split: if_splits)

lemma sat_add_zero [simp]: "a \<le> u64_max \<Longrightarrow> sat_add a 0 = a"
  by (simp add: sat_add_def)

lemma in_i64_sat_add [simp]: "in_i64 (sat_add_i64 a b)"
  by (simp add: sat_simps)

lemma in_i64_sat_sub [simp]: "in_i64 (sat_sub_i64 a b)"
  by (simp add: sat_simps)

lemma clamp_checked_None_iff: "clamp_checked x lo hi = None \<longleftrightarrow> hi < lo"
  by (simp add: clamp_checked_def)

section \<open>Results\<close>

type_synonym ('a, 'e) result = "'e + 'a"

primrec and_then :: "('a, 'e) result \<Rightarrow> ('a \<Rightarrow> ('b, 'e) result) \<Rightarrow> ('b, 'e) result" where
  "and_then (Inl e) f = Inl e"
| "and_then (Inr x) f = f x"

lemma and_then_Inr_iff [result_simps]:
  "and_then r f = Inr y \<longleftrightarrow> (\<exists>x. r = Inr x \<and> f x = Inr y)"
  by (cases r) auto

lemma and_then_Inl_iff [result_simps]:
  "and_then r f = Inl e \<longleftrightarrow> r = Inl e \<or> (\<exists>x. r = Inr x \<and> f x = Inl e)"
  by (cases r) auto

lemma and_then_assoc: "and_then (and_then r f) g = and_then r (\<lambda>x. and_then (f x) g)"
  by (cases r) auto

definition ok_or :: "'a option \<Rightarrow> 'e \<Rightarrow> ('a, 'e) result" where
  "ok_or x e = (case x of None \<Rightarrow> Inl e | Some y \<Rightarrow> Inr y)"

lemma ok_or_Inr_iff [result_simps]: "ok_or x e = Inr y \<longleftrightarrow> x = Some y"
  by (auto simp: ok_or_def split: option.splits)

lemma ok_or_Inl_iff [result_simps]: "ok_or x e = Inl e' \<longleftrightarrow> x = None \<and> e' = e"
  by (auto simp: ok_or_def split: option.splits)

text \<open>The kinds of \<^verbatim>\<open>std::io::Error\<close> the code distinguishes; every other kind is \<^verbatim>\<open>OtherIo\<close>.\<close>

datatype io_kind = NotFound | AlreadyExists | UnexpectedEof | InvalidData | OtherIo

section \<open>Strings\<close>

definition starts_with :: "string \<Rightarrow> string \<Rightarrow> bool" where
  "starts_with s p = (take (length p) s = p)"

definition ends_with :: "string \<Rightarrow> string \<Rightarrow> bool" where
  "ends_with s p = (length p \<le> length s \<and> drop (length s - length p) s = p)"

definition strip_prefix :: "string \<Rightarrow> string \<Rightarrow> string option" where
  "strip_prefix s p = (if starts_with s p then Some (drop (length p) s) else None)"

fun split_once :: "string \<Rightarrow> char \<Rightarrow> (string \<times> string) option" where
  "split_once [] c = None"
| "split_once (x # xs) c =
     (if x = c then Some ([], xs)
      else (case split_once xs c of None \<Rightarrow> None | Some (a, b) \<Rightarrow> Some (x # a, b)))"

definition ascii_lower :: "char \<Rightarrow> char" where
  "ascii_lower c =
     (let n = of_char c :: nat in if 65 \<le> n \<and> n \<le> 90 then char_of (n + 32) else c)"

definition to_ascii_lowercase :: "string \<Rightarrow> string" where
  "to_ascii_lowercase s = map ascii_lower s"

definition eq_ignore_ascii_case :: "string \<Rightarrow> string \<Rightarrow> bool" where
  "eq_ignore_ascii_case a b = (to_ascii_lowercase a = to_ascii_lowercase b)"

text \<open>\<^verbatim>\<open>str::contains\<close>: some suffix of the text starts with the pattern.\<close>

fun str_contains :: "string \<Rightarrow> string \<Rightarrow> bool" where
  "str_contains [] p = (p = [])"
| "str_contains (x # xs) p = (starts_with (x # xs) p \<or> str_contains xs p)"

text \<open>
  \<^verbatim>\<open>str::is_char_boundary\<close>: a byte position is a boundary unless the byte there is a UTF-8
  continuation byte, \<^verbatim>\<open>0b10xxxxxx\<close>.
\<close>

definition is_continuation :: "char \<Rightarrow> bool" where
  "is_continuation c = (let n = of_char c :: nat in 128 \<le> n \<and> n < 192)"

definition is_char_boundary :: "string \<Rightarrow> nat \<Rightarrow> bool" where
  "is_char_boundary s i =
     (if i = 0 then True
      else if length s \<le> i then i = length s
      else \<not> is_continuation (s ! i))"

text \<open>The loop \<^verbatim>\<open>while !value.is_char_boundary(boundary) { boundary -= 1; }\<close>.\<close>

fun floor_char_boundary :: "string \<Rightarrow> nat \<Rightarrow> nat" where
  "floor_char_boundary s 0 = 0"
| "floor_char_boundary s (Suc i) =
     (if is_char_boundary s (Suc i) then Suc i else floor_char_boundary s i)"

lemma floor_char_boundary_le: "floor_char_boundary s i \<le> i"
  by (induction i) auto

lemma floor_char_boundary_is: "is_char_boundary s (floor_char_boundary s i)"
  by (induction i) (auto simp: is_char_boundary_def)

lemma floor_char_boundary_greatest:
  "is_char_boundary s j \<Longrightarrow> j \<le> i \<Longrightarrow> j \<le> floor_char_boundary s i"
  by (induction i) (auto simp: le_Suc_eq)

text \<open>
  \<^verbatim>\<open>s.trim().is_empty()\<close>: every scalar value of the string has the Unicode property
  \<^verbatim>\<open>White_Space\<close>. The equations list the encodings of those scalar values.
\<close>

fun all_whitespace :: "nat list \<Rightarrow> bool" where
  "all_whitespace [] = True"
| "all_whitespace (b # bs) =
     (if (9 \<le> b \<and> b \<le> 13) \<or> b = 32 then all_whitespace bs
      else (case bs of
          c # cs \<Rightarrow>
            (if b = 194 \<and> (c = 133 \<or> c = 160) then all_whitespace cs
             else (case cs of
                 d # ds \<Rightarrow>
                   (if (b = 225 \<and> c = 154 \<and> d = 128) \<or>
                       (b = 226 \<and> c = 128 \<and> ((128 \<le> d \<and> d \<le> 138) \<or> d = 168 \<or> d = 169 \<or> d = 175)) \<or>
                       (b = 226 \<and> c = 129 \<and> d = 159) \<or>
                       (b = 227 \<and> c = 128 \<and> d = 128)
                    then all_whitespace ds else False)
               | [] \<Rightarrow> False))
        | [] \<Rightarrow> False))"

definition trim_is_empty :: "string \<Rightarrow> bool" where
  "trim_is_empty s = all_whitespace (map of_char s)"

lemmas str_defs [str_simps] = starts_with_def ends_with_def strip_prefix_def

lemma starts_with_iff_prefix: "starts_with s p \<longleftrightarrow> prefix p s"
  by (metis append_eq_conv_conj prefix_def starts_with_def)

lemma starts_with_Nil [simp]: "starts_with s []"
  by (simp add: starts_with_def)

lemma starts_with_append [simp]: "starts_with (p @ s) p"
  by (simp add: starts_with_def)

lemma strip_prefix_Some_iff: "strip_prefix s p = Some r \<longleftrightarrow> s = p @ r"
  by (auto simp: strip_prefix_def starts_with_iff_prefix prefix_def)

lemma strip_prefix_None_iff: "strip_prefix s p = None \<longleftrightarrow> \<not> starts_with s p"
  by (simp add: strip_prefix_def)

lemma split_once_append: "c \<notin> set a \<Longrightarrow> split_once (a @ c # b) c = Some (a, b)"
  by (induction a) auto

lemma split_once_SomeD: "split_once s c = Some (a, b) \<Longrightarrow> s = a @ c # b \<and> c \<notin> set a"
  by (induction s arbitrary: a) (auto split: if_splits option.splits)

lemma split_once_Some_iff:
  "split_once s c = Some (a, b) \<longleftrightarrow> s = a @ c # b \<and> c \<notin> set a"
  by (blast intro: split_once_append dest: split_once_SomeD)

lemma split_once_None_iff: "split_once s c = None \<longleftrightarrow> c \<notin> set s"
  by (induction s) (auto split: option.splits)

lemma str_contains_iff_sublist: "str_contains s p \<longleftrightarrow> sublist p s"
  by (induction s) (auto simp: starts_with_iff_prefix sublist_Cons_right)

lemma length_to_ascii_lowercase [simp]: "length (to_ascii_lowercase s) = length s"
  by (simp add: to_ascii_lowercase_def)

section \<open>Lists and maps\<close>

lemma take_add_append: "take (n + m) xs = take n xs @ take m (drop n xs)"
  by (rule take_add)

lemma set_take_drop_disjoint:
  "distinct xs \<Longrightarrow> set (take n xs) \<inter> set (drop n xs) = {}"
  by (simp add: set_take_disj_set_drop_if_distinct)

lemma filter_take_append_drop: "filter P (take n xs) @ filter P (drop n xs) = filter P xs"
  by (metis append_take_drop_id filter_append)

end
