(* ===== verification/Bep_Framing.thy ===== *)
theory Bep_Framing
  imports Rust_Prelude
begin

text \<open>
  The framing layer of the Build Event Protocol, \<^verbatim>\<open>bazel-mcp-bep/src/framing.rs\<close>: a stream of
  events, each a protobuf message preceded by its length as a variable-length integer. The
  theory models the prefix inspection, the incremental decoder that is fed arbitrary chunks,
  the reader path, and the encoder, and shows that chunk boundaries never matter, that the
  decoder's limits hold, and that decoding inverts encoding.

  Decoding of a message from its bytes is generated code; it is the parameter \<^verbatim>\<open>decode\<close>.
  Visitors are stateful closures, so they take and return a state of any type.
\<close>

unbundle bit_operations_syntax

section \<open>Limits and errors\<close>

definition DEFAULT_MAX_FRAME_BYTES :: nat where
  "DEFAULT_MAX_FRAME_BYTES = 64 * 1024 * 1024"

definition DEFAULT_MAX_STREAM_BYTES :: nat where
  "DEFAULT_MAX_STREAM_BYTES = 128 * 1024 * 1024"

definition DEFAULT_MAX_STREAM_EVENTS :: nat where
  "DEFAULT_MAX_STREAM_EVENTS = 1000000"

datatype 'e frame_error =
    Truncated
  | InvalidVarint
  | TooLarge nat nat
  | StreamTooLarge nat nat
  | TooManyEvents nat nat
  | FrameIo io_kind
  | FrameDecode 'e

record 'e stream_outcome =
  out_event_count :: nat
  out_decoded_bytes :: nat
  out_terminal_error :: "'e frame_error option"

datatype stream_control = Continue | ResetAfterFrame

record 'e stream_decoder =
  pending :: "byte list"
  decoded_bytes :: nat
  event_count :: nat
  max_frame_bytes :: nat
  max_stream_bytes :: nat
  max_events :: nat
  terminal_error :: "'e frame_error option"

definition decoder_new :: "nat \<Rightarrow> nat \<Rightarrow> nat \<Rightarrow> 'e stream_decoder" where
  "decoder_new max_frame max_stream max_ev =
     \<lparr>pending = [], decoded_bytes = 0, event_count = 0, max_frame_bytes = max_frame,
      max_stream_bytes = max_stream, max_events = max_ev, terminal_error = None\<rparr>"

section \<open>Inspection of a length prefix\<close>

datatype frame_state = NeedPrefix | NeedPayload nat | Complete nat nat

text \<open>
  The loop of \<^verbatim>\<open>inspect_frame\<close> over the first ten bytes. \<^const>\<open>None\<close> is falling out of the loop.
\<close>

fun inspect_loop ::
  "nat \<Rightarrow> nat \<Rightarrow> nat \<Rightarrow> 64 word \<Rightarrow> byte list \<Rightarrow> (frame_state, 'e frame_error) result option"
where
  "inspect_loop max_bytes input_len index value [] = None"
| "inspect_loop max_bytes input_len index value (byte # rest) =
     (let shift = index * 7;
          payload = (ucast (byte AND 0x7F) :: 64 word)
      in if shift = 63 \<and> payload > 1 then Some (Inl InvalidVarint)
         else let value' = value OR push_bit shift payload
              in if byte AND 0x80 = 0
                 then let frame_bytes = unat value'
                      in if max_bytes < frame_bytes
                         then Some (Inl (TooLarge frame_bytes max_bytes))
                         else let prefix_bytes = index + 1;
                                  total_bytes = sat_add prefix_bytes frame_bytes
                              in Some (Inr (if total_bytes \<le> input_len
                                            then Complete prefix_bytes frame_bytes
                                            else NeedPayload total_bytes))
                 else inspect_loop max_bytes input_len (index + 1) value' rest)"

definition inspect_frame :: "byte list \<Rightarrow> nat \<Rightarrow> (frame_state, 'e frame_error) result" where
  "inspect_frame input max_bytes =
     (case inspect_loop max_bytes (length input) 0 0 (take 10 input) of
        Some r \<Rightarrow> r
      | None \<Rightarrow> if 10 \<le> length input then Inl InvalidVarint else Inr NeedPrefix)"

section \<open>The incremental decoder\<close>

definition visit_decoded_frame ::
  "'e stream_decoder \<Rightarrow> nat \<Rightarrow> ('s \<Rightarrow> (stream_control, 'e) result \<times> 's) \<Rightarrow> 's
     \<Rightarrow> 'e stream_decoder \<times> 's"
where
  "visit_decoded_frame d frame_bytes decode s =
     (let next_bytes = sat_add (decoded_bytes d) frame_bytes
      in if max_stream_bytes d < next_bytes
         then (d\<lparr>terminal_error := Some (StreamTooLarge next_bytes (max_stream_bytes d))\<rparr>, s)
         else if max_events d \<le> event_count d
         then (d\<lparr>terminal_error :=
                   Some (TooManyEvents (sat_add (event_count d) 1) (max_events d))\<rparr>, s)
         else let d1 = d\<lparr>decoded_bytes := next_bytes\<rparr>
              in (case decode s of
                    (Inr Continue, s') \<Rightarrow> (d1\<lparr>event_count := sat_add (event_count d1) 1\<rparr>, s')
                  | (Inr ResetAfterFrame, s') \<Rightarrow>
                      (d1\<lparr>decoded_bytes := 0, event_count := 0\<rparr>, s')
                  | (Inl e, s') \<Rightarrow> (d1\<lparr>terminal_error := Some (FrameDecode e)\<rparr>, s')))"

definition decode_owned_frame ::
  "(byte list \<Rightarrow> ('ev, 'e) result) \<Rightarrow> ('ev \<Rightarrow> byte list \<Rightarrow> 's \<Rightarrow> stream_control \<times> 's)
     \<Rightarrow> 'e stream_decoder \<Rightarrow> byte list \<Rightarrow> byte list \<Rightarrow> 's \<Rightarrow> 'e stream_decoder \<times> 's"
where
  "decode_owned_frame decode visitor d frame framed s =
     visit_decoded_frame d (length frame)
       (\<lambda>s. case decode frame of
              Inl e \<Rightarrow> (Inl e, s)
            | Inr ev \<Rightarrow> (let (control, s') = visitor ev framed s in (Inr control, s'))) s"

record 'ev borrowed_event =
  event_view :: 'ev
  frame_bytes_of :: "byte list"

definition decode_borrowed_frame ::
  "(byte list \<Rightarrow> ('ev, 'e) result)
     \<Rightarrow> ('ev borrowed_event \<Rightarrow> byte list \<Rightarrow> 's \<Rightarrow> stream_control \<times> 's)
     \<Rightarrow> 'e stream_decoder \<Rightarrow> byte list \<Rightarrow> byte list \<Rightarrow> 's \<Rightarrow> 'e stream_decoder \<times> 's"
where
  "decode_borrowed_frame decode_view visitor d frame framed s =
     visit_decoded_frame d (length frame)
       (\<lambda>s. case decode_view frame of
              Inl e \<Rightarrow> (Inl e, s)
            | Inr ev \<Rightarrow>
                (let (control, s') =
                       visitor \<lparr>event_view = ev, frame_bytes_of = frame\<rparr> framed s
                 in (Inr control, s'))) s"

text \<open>
  \<^verbatim>\<open>recycle_pending\<close> keeps the cleared allocation of a small frame and drops that of a large
  one; in both cases the pending buffer, emptied by \<^verbatim>\<open>std::mem::take\<close>, is empty afterwards.
\<close>

definition recycle_pending :: "'e stream_decoder \<Rightarrow> 'e stream_decoder" where
  "recycle_pending d = d\<lparr>pending := []\<rparr>"

text \<open>
  The code after the loop of \<^verbatim>\<open>push_frames\<close>: a chunk may have brought exactly the missing bytes
  of the retained frame.
\<close>

definition push_tail ::
  "('e stream_decoder \<Rightarrow> byte list \<Rightarrow> byte list \<Rightarrow> 's \<Rightarrow> 'e stream_decoder \<times> 's)
     \<Rightarrow> 'e stream_decoder \<Rightarrow> 's \<Rightarrow> 'e stream_decoder \<times> 's"
where
  "push_tail dec d s =
     (if pending d = [] then (d, s)
      else case inspect_frame (pending d) (max_frame_bytes d) of
             Inr (Complete prefix_bytes frame_bytes) \<Rightarrow>
               (let consumed = sat_add prefix_bytes frame_bytes;
                    framed = pending d;
                    (d', s') = dec (d\<lparr>pending := []\<rparr>)
                                 (drop prefix_bytes (take consumed framed)) (take consumed framed) s
                in (recycle_pending d', s'))
           | Inr NeedPrefix \<Rightarrow> (d, s)
           | Inr (NeedPayload _) \<Rightarrow> (d, s)
           | Inl e \<Rightarrow> (d\<lparr>terminal_error := Some e\<rparr>, s))"

lemma inspect_loop_NeedPayload:
  "inspect_loop m n i v xs = Some (Inr (NeedPayload t)) \<Longrightarrow> n < t"
  by (induction m n i v xs rule: inspect_loop.induct) (auto simp: Let_def split: if_splits)

lemma inspect_frame_NeedPayload:
  "inspect_frame xs m = Inr (NeedPayload t) \<Longrightarrow> length xs < t"
  by (auto simp: inspect_frame_def split: option.splits if_splits dest: inspect_loop_NeedPayload)

lemma inspect_loop_Complete:
  "inspect_loop m n i v xs = Some (Inr (Complete p f)) \<Longrightarrow> 0 < p \<and> sat_add p f \<le> n"
  by (induction m n i v xs rule: inspect_loop.induct) (auto simp: Let_def split: if_splits)

lemma inspect_frame_Complete:
  "inspect_frame xs m = Inr (Complete p f) \<Longrightarrow> 0 < p \<and> sat_add p f \<le> length xs"
  by (auto simp: inspect_frame_def split: option.splits if_splits dest: inspect_loop_Complete)

lemma sat_add_pos: "0 < p \<Longrightarrow> 0 < sat_add p f"
  by (simp add: sat_add_def u64_max_def)

lemma inspect_frame_consumes:
  "inspect_frame xs m = Inr (Complete p f) \<Longrightarrow> 0 < sat_add p f"
  by (auto dest: inspect_frame_Complete intro: sat_add_pos)

text \<open>
  The loop of \<^verbatim>\<open>push_frames\<close>. It terminates: every iteration consumes input or empties the
  pending buffer.
\<close>

function push_loop ::
  "('e stream_decoder \<Rightarrow> byte list \<Rightarrow> byte list \<Rightarrow> 's \<Rightarrow> 'e stream_decoder \<times> 's)
     \<Rightarrow> 'e stream_decoder \<Rightarrow> byte list \<Rightarrow> 's \<Rightarrow> 'e stream_decoder \<times> 's"
where
  "push_loop dec d [] s = push_tail dec d s"
| "push_loop dec d (b # bs) s =
     (let input = b # bs in
      if pending d = [] then
        (case inspect_frame input (max_frame_bytes d) of
           Inr (Complete prefix_bytes frame_bytes) \<Rightarrow>
             (let consumed = sat_add prefix_bytes frame_bytes;
                  r = dec d (drop prefix_bytes (take consumed input)) (take consumed input) s
              in if terminal_error (fst r) \<noteq> None then r
                 else push_loop dec (fst r) (drop consumed input) (snd r))
         | Inr NeedPrefix \<Rightarrow> (d\<lparr>pending := pending d @ input\<rparr>, s)
         | Inr (NeedPayload _) \<Rightarrow> (d\<lparr>pending := pending d @ input\<rparr>, s)
         | Inl e \<Rightarrow> (d\<lparr>terminal_error := Some e\<rparr>, s))
      else
        (case inspect_frame (pending d) (max_frame_bytes d) of
           Inr NeedPrefix \<Rightarrow> push_loop dec (d\<lparr>pending := pending d @ [b]\<rparr>) bs s
         | Inr (NeedPayload total_bytes) \<Rightarrow>
             (let tk = min (length input) (sat_sub total_bytes (length (pending d)))
              in push_loop dec (d\<lparr>pending := pending d @ take tk input\<rparr>) (drop tk input) s)
         | Inr (Complete prefix_bytes frame_bytes) \<Rightarrow>
             (let consumed = sat_add prefix_bytes frame_bytes;
                  framed = pending d;
                  r = dec (d\<lparr>pending := []\<rparr>)
                        (drop prefix_bytes (take consumed framed)) (take consumed framed) s;
                  d' = recycle_pending (fst r)
              in if terminal_error d' \<noteq> None then (d', snd r)
                 else push_loop dec d' input (snd r))
         | Inl e \<Rightarrow> (d\<lparr>terminal_error := Some e\<rparr>, s)))"
  by pat_completeness auto
termination
  by (relation "measure (\<lambda>(dec, d, input, s). 2 * length input + (if pending d = [] then 0 else 1))")
    (auto simp: recycle_pending_def dest: inspect_frame_consumes inspect_frame_NeedPayload)

definition push_frames ::
  "('e stream_decoder \<Rightarrow> byte list \<Rightarrow> byte list \<Rightarrow> 's \<Rightarrow> 'e stream_decoder \<times> 's)
     \<Rightarrow> 'e stream_decoder \<Rightarrow> byte list \<Rightarrow> 's \<Rightarrow> 'e stream_decoder \<times> 's"
where
  "push_frames dec d input s =
     (if terminal_error d \<noteq> None then (d, s) else push_loop dec d input s)"

definition push_framed ::
  "(byte list \<Rightarrow> ('ev, 'e) result) \<Rightarrow> ('ev \<Rightarrow> byte list \<Rightarrow> 's \<Rightarrow> stream_control \<times> 's)
     \<Rightarrow> 'e stream_decoder \<Rightarrow> byte list \<Rightarrow> 's \<Rightarrow> 'e stream_decoder \<times> 's"
where
  "push_framed decode visitor d input s = push_frames (decode_owned_frame decode visitor) d input s"

definition push ::
  "(byte list \<Rightarrow> ('ev, 'e) result) \<Rightarrow> ('ev \<Rightarrow> 's \<Rightarrow> 's)
     \<Rightarrow> 'e stream_decoder \<Rightarrow> byte list \<Rightarrow> 's \<Rightarrow> 'e stream_decoder \<times> 's"
where
  "push decode visitor d input s =
     push_framed decode (\<lambda>ev framed s. (Continue, visitor ev s)) d input s"

definition push_framed_borrowed ::
  "(byte list \<Rightarrow> ('ev, 'e) result)
     \<Rightarrow> ('ev borrowed_event \<Rightarrow> byte list \<Rightarrow> 's \<Rightarrow> stream_control \<times> 's)
     \<Rightarrow> 'e stream_decoder \<Rightarrow> byte list \<Rightarrow> 's \<Rightarrow> 'e stream_decoder \<times> 's"
where
  "push_framed_borrowed decode_view visitor d input s =
     push_frames (decode_borrowed_frame decode_view visitor) d input s"

definition push_borrowed ::
  "(byte list \<Rightarrow> ('ev, 'e) result) \<Rightarrow> ('ev borrowed_event \<Rightarrow> 's \<Rightarrow> 's)
     \<Rightarrow> 'e stream_decoder \<Rightarrow> byte list \<Rightarrow> 's \<Rightarrow> 'e stream_decoder \<times> 's"
where
  "push_borrowed decode_view visitor d input s =
     push_framed_borrowed decode_view (\<lambda>ev framed s. (Continue, visitor ev s)) d input s"

definition is_terminal_decoder :: "'e stream_decoder \<Rightarrow> bool" where
  "is_terminal_decoder d = (terminal_error d \<noteq> None)"

definition decoder_finish :: "'e stream_decoder \<Rightarrow> 'e stream_outcome" where
  "decoder_finish d =
     (let err = (if terminal_error d = None \<and> pending d \<noteq> [] then Some Truncated
                 else terminal_error d)
      in \<lparr>out_event_count = event_count d, out_decoded_bytes = decoded_bytes d,
          out_terminal_error = err\<rparr>)"

definition decoder_fail :: "'e stream_decoder \<Rightarrow> 'e frame_error \<Rightarrow> 'e stream_decoder" where
  "decoder_fail d e = (if terminal_error d = None then d\<lparr>terminal_error := Some e\<rparr> else d)"

section \<open>Reading a stream\<close>

text \<open>
  A \<^verbatim>\<open>Read\<close> source: the bytes it still delivers, and what follows them, the end of the file or
  an error. \<^verbatim>\<open>read_exact\<close> fails with \<^verbatim>\<open>UnexpectedEof\<close> when the file ends first.
\<close>

record reader =
  rd_bytes :: "byte list"
  rd_fail :: "io_kind option"

definition read_exact :: "nat \<Rightarrow> reader \<Rightarrow> (byte list, io_kind) result \<times> reader" where
  "read_exact n r =
     (if n \<le> length (rd_bytes r)
      then (Inr (take n (rd_bytes r)), r\<lparr>rd_bytes := drop n (rd_bytes r)\<rparr>)
      else (Inl (case rd_fail r of None \<Rightarrow> UnexpectedEof | Some k \<Rightarrow> k), r\<lparr>rd_bytes := []\<rparr>))"

text \<open>
  The loop of \<^verbatim>\<open>read_varint\<close> over the shifts 0, 7, up to 63.
\<close>

fun read_varint_loop ::
  "nat list \<Rightarrow> 64 word \<Rightarrow> reader \<Rightarrow> (64 word option, 'e frame_error) result \<times> reader"
where
  "read_varint_loop [] value r = (Inl InvalidVarint, r)"
| "read_varint_loop (shift # shifts) value r =
     (case read_exact 1 r of
        (Inl k, r') \<Rightarrow>
          (if k = UnexpectedEof \<and> shift = 0 then (Inr None, r')
           else if k = UnexpectedEof then (Inl Truncated, r')
           else (Inl (FrameIo k), r'))
      | (Inr bytes, r') \<Rightarrow>
          (let byte = hd bytes;
               payload = (ucast (byte AND 0x7F) :: 64 word)
           in if shift = 63 \<and> payload > 1 then (Inl InvalidVarint, r')
              else let value' = value OR push_bit shift payload
                   in if byte AND 0x80 = 0 then (Inr (Some value'), r')
                      else read_varint_loop shifts value' r'))"

definition varint_shifts :: "nat list" where
  "varint_shifts = [0, 7, 14, 21, 28, 35, 42, 49, 56, 63]"

definition read_varint :: "reader \<Rightarrow> (64 word option, 'e frame_error) result \<times> reader" where
  "read_varint r = read_varint_loop varint_shifts 0 r"

definition read_frame ::
  "reader \<Rightarrow> nat \<Rightarrow> (byte list option, 'e frame_error) result \<times> reader"
where
  "read_frame r max_bytes =
     (case read_varint r of
        (Inl e, r1) \<Rightarrow> (Inl e, r1)
      | (Inr None, r1) \<Rightarrow> (Inr None, r1)
      | (Inr (Some v), r1) \<Rightarrow>
          (let len = unat v
           in if max_bytes < len then (Inl (TooLarge len max_bytes), r1)
              else (case read_exact len r1 of
                      (Inl k, r2) \<Rightarrow>
                        (Inl (if k = UnexpectedEof then Truncated else FrameIo k), r2)
                    | (Inr frame, r2) \<Rightarrow> (Inr (Some frame), r2))))"

text \<open>
  The results of successive \<^verbatim>\<open>read\<close> calls on one source; a source that runs out of results
  behaves like one at the end of its file, \<^verbatim>\<open>Ok(0)\<close>.
\<close>

datatype read_result = ReadOk "byte list" | ReadErr io_kind

fun visit_stream_loop ::
  "('e stream_decoder \<Rightarrow> byte list \<Rightarrow> 's \<Rightarrow> 'e stream_decoder \<times> 's)
     \<Rightarrow> 'e stream_decoder \<Rightarrow> read_result list \<Rightarrow> 's \<Rightarrow> 'e stream_decoder \<times> 's"
where
  "visit_stream_loop pushf d [] s = (d, s)"
| "visit_stream_loop pushf d (ReadErr k # rs) s = (decoder_fail d (FrameIo k), s)"
| "visit_stream_loop pushf d (ReadOk chunk # rs) s =
     (if chunk = [] then (d, s)
      else let r = pushf d chunk s
           in if is_terminal_decoder (fst r) then r
              else visit_stream_loop pushf (fst r) rs (snd r))"

definition visit_stream_partial_bounded ::
  "(byte list \<Rightarrow> ('ev, 'e) result) \<Rightarrow> read_result list \<Rightarrow> nat \<Rightarrow> nat \<Rightarrow> nat
     \<Rightarrow> ('ev \<Rightarrow> 's \<Rightarrow> 's) \<Rightarrow> 's \<Rightarrow> 'e stream_outcome \<times> 's"
where
  "visit_stream_partial_bounded decode reads max_frame max_stream max_ev visitor s =
     (let r = visit_stream_loop (push decode visitor)
                (decoder_new max_frame max_stream max_ev) reads s
      in (decoder_finish (fst r), snd r))"

definition visit_stream_partial_borrowed_bounded ::
  "(byte list \<Rightarrow> ('ev, 'e) result) \<Rightarrow> read_result list \<Rightarrow> nat \<Rightarrow> nat \<Rightarrow> nat
     \<Rightarrow> ('ev borrowed_event \<Rightarrow> 's \<Rightarrow> 's) \<Rightarrow> 's \<Rightarrow> 'e stream_outcome \<times> 's"
where
  "visit_stream_partial_borrowed_bounded decode_view reads max_frame max_stream max_ev visitor s =
     (let r = visit_stream_loop (push_borrowed decode_view visitor)
                (decoder_new max_frame max_stream max_ev) reads s
      in (decoder_finish (fst r), snd r))"

record ('ev, 'e) partial_stream =
  ps_events :: "'ev list"
  ps_terminal_error :: "'e frame_error option"

definition decode_stream_partial_bounded ::
  "(byte list \<Rightarrow> ('ev, 'e) result) \<Rightarrow> read_result list \<Rightarrow> nat \<Rightarrow> nat \<Rightarrow> nat
     \<Rightarrow> ('ev, 'e) partial_stream"
where
  "decode_stream_partial_bounded decode reads max_frame max_stream max_ev =
     (let (outcome, events) =
            visit_stream_partial_bounded decode reads max_frame max_stream max_ev
              (\<lambda>ev events. events @ [ev]) []
      in \<lparr>ps_events = events, ps_terminal_error = out_terminal_error outcome\<rparr>)"

definition decode_stream_partial ::
  "(byte list \<Rightarrow> ('ev, 'e) result) \<Rightarrow> read_result list \<Rightarrow> nat \<Rightarrow> ('ev, 'e) partial_stream"
where
  "decode_stream_partial decode reads max_bytes =
     decode_stream_partial_bounded decode reads max_bytes
       DEFAULT_MAX_STREAM_BYTES DEFAULT_MAX_STREAM_EVENTS"

definition decode_stream ::
  "(byte list \<Rightarrow> ('ev, 'e) result) \<Rightarrow> read_result list \<Rightarrow> nat \<Rightarrow> ('ev list, 'e frame_error) result"
where
  "decode_stream decode reads max_bytes =
     (let partial = decode_stream_partial_bounded decode reads max_bytes
                      DEFAULT_MAX_STREAM_BYTES DEFAULT_MAX_STREAM_EVENTS
      in case ps_terminal_error partial of
           Some e \<Rightarrow> Inl e
         | None \<Rightarrow> Inr (ps_events partial))"

section \<open>Encoding\<close>

lemma unat_drop_bit_less:
  assumes "0x80 \<le> (v :: 64 word)"
  shows "unat (drop_bit 7 v) < unat v"
proof -
  have "128 \<le> unat v" using assms by (simp add: word_le_nat_alt)
  then show ?thesis by (simp add: drop_bit_eq_div unat_div)
qed

text \<open>\<^verbatim>\<open>value as u8\<close> keeps the low eight bits, \<^const>\<open>ucast\<close>.\<close>

function write_varint :: "64 word \<Rightarrow> byte list \<Rightarrow> byte list" where
  "write_varint value output =
     (if 0x80 \<le> value
      then write_varint (drop_bit 7 value) (output @ [(ucast value AND 0x7F) OR 0x80])
      else output @ [ucast value])"
  by pat_completeness auto
termination
  by (relation "measure (\<lambda>(v, out). unat v)") (simp_all add: unat_drop_bit_less)

declare write_varint.simps [simp del]

text \<open>\<^verbatim>\<open>encode_frame\<close>, given the encoded body of the message.\<close>

definition encode_frame :: "byte list \<Rightarrow> byte list" where
  "encode_frame body = write_varint (of_nat (length body)) [] @ body"

section \<open>Inspection is stable under more input\<close>

text \<open>
  The part of the inspection that does not depend on how much input is there: the length of
  the prefix and of the frame it announces.
\<close>

datatype scan = ScanMore | ScanBad | ScanLarge nat | ScanFrame nat nat

fun scan_loop :: "nat \<Rightarrow> nat \<Rightarrow> 64 word \<Rightarrow> byte list \<Rightarrow> scan" where
  "scan_loop m i v [] = ScanMore"
| "scan_loop m i v (b # bs) =
     (let payload = (ucast (b AND 0x7F) :: 64 word); v' = v OR push_bit (i * 7) payload
      in if i * 7 = 63 \<and> payload > 1 then ScanBad
         else if b AND 0x80 = 0
         then (if m < unat v' then ScanLarge (unat v') else ScanFrame (i + 1) (unat v'))
         else scan_loop m (i + 1) v' bs)"

definition scan_frame :: "nat \<Rightarrow> byte list \<Rightarrow> scan" where
  "scan_frame m xs = scan_loop m 0 0 (take 10 xs)"

lemma inspect_loop_scan:
  "inspect_loop m n i v xs =
     (case scan_loop m i v xs of
        ScanMore \<Rightarrow> None
      | ScanBad \<Rightarrow> Some (Inl InvalidVarint)
      | ScanLarge f \<Rightarrow> Some (Inl (TooLarge f m))
      | ScanFrame p f \<Rightarrow>
          Some (Inr (if sat_add p f \<le> n then Complete p f else NeedPayload (sat_add p f))))"
  by (induction m n i v xs rule: inspect_loop.induct) (simp add: Let_def)+

lemma inspect_frame_scan:
  "inspect_frame xs m =
     (case scan_frame m xs of
        ScanMore \<Rightarrow> if 10 \<le> length xs then Inl InvalidVarint else Inr NeedPrefix
      | ScanBad \<Rightarrow> Inl InvalidVarint
      | ScanLarge f \<Rightarrow> Inl (TooLarge f m)
      | ScanFrame p f \<Rightarrow>
          Inr (if sat_add p f \<le> length xs then Complete p f else NeedPayload (sat_add p f)))"
  by (simp add: inspect_frame_def scan_frame_def inspect_loop_scan split: scan.splits)

lemma scan_loop_append:
  "scan_loop m i v xs \<noteq> ScanMore \<Longrightarrow> scan_loop m i v (xs @ ys) = scan_loop m i v xs"
  by (induction m i v xs rule: scan_loop.induct) (auto simp: Let_def split: if_splits)

lemma scan_frame_append [simp]:
  "scan_frame m xs \<noteq> ScanMore \<or> 10 \<le> length xs \<Longrightarrow> scan_frame m (xs @ ys) = scan_frame m xs"
  by (auto simp: scan_frame_def scan_loop_append)

lemma scan_loop_bounds:
  "scan_loop m i v xs = ScanFrame p f \<Longrightarrow> i < p \<and> p \<le> i + length xs \<and> f \<le> m"
  by (induction m i v xs rule: scan_loop.induct) (fastforce simp: Let_def split: if_splits)+

lemma scan_frame_bounds:
  assumes "scan_frame m xs = ScanFrame p f"
  shows "0 < p" and "p \<le> 10" and "p \<le> length xs" and "f \<le> m"
  using scan_loop_bounds [OF assms [unfolded scan_frame_def]] by auto

lemma scan_loop_last:
  "scan_loop m i v xs = ScanMore \<Longrightarrow> scan_loop m i v (xs @ [b]) = ScanFrame p f
     \<Longrightarrow> p = i + length xs + 1"
  by (induction m i v xs rule: scan_loop.induct) (auto simp: Let_def split: if_splits)

lemma inspect_frame_Inl_append:
  "inspect_frame xs m = Inl e \<Longrightarrow> inspect_frame (xs @ ys) m = Inl e"
  by (auto simp: inspect_frame_scan split: scan.splits if_splits)

lemma inspect_frame_Complete_append:
  "inspect_frame xs m = (Inr (Complete p f) :: (frame_state, 'e frame_error) result)
     \<Longrightarrow> inspect_frame (xs @ ys) m = (Inr (Complete p f) :: (frame_state, 'e frame_error) result)"
  by (auto simp: inspect_frame_scan split: scan.splits if_splits)

lemma inspect_frame_NeedPayload_append:
  assumes "inspect_frame xs m = (Inr (NeedPayload t) :: (_, 'e frame_error) result)"
  obtains p f where "t = sat_add p f"
    and "\<And>ys. inspect_frame (xs @ ys) m =
           (Inr (if t \<le> length xs + length ys then Complete p f else NeedPayload t)
             :: (_, 'e frame_error) result)"
  using assms by (auto simp: inspect_frame_scan split: scan.splits if_splits)

lemma inspect_frame_prefix_byte:
  assumes "inspect_frame xs m = (Inr NeedPrefix :: (_, 'e frame_error) result)"
    and "inspect_frame (xs @ [b]) m = (Inr (Complete p f) :: (_, 'e frame_error) result)"
  shows "sat_add p f = length xs + 1"
proof -
  have len: "length xs < 10" and more: "scan_frame m xs = ScanMore"
    using assms(1) by (auto simp: inspect_frame_scan split: scan.splits if_splits)
  have frame: "scan_frame m (xs @ [b]) = ScanFrame p f" and le: "sat_add p f \<le> length xs + 1"
    using assms(2) by (auto simp: inspect_frame_scan split: scan.splits if_splits)
  have "p = length xs + 1"
    using scan_loop_last [of m 0 0 xs b p f] more frame len by (simp add: scan_frame_def)
  then show ?thesis
    using len le by (auto simp: sat_add_def u64_max_def min_def split: if_splits)
qed

section \<open>Chunk boundaries do not matter\<close>

text \<open>
  The decoder as a function of the whole stream that it has not yet decoded, with no chunks:
  the abstract specification of \<^const>\<open>push_frames\<close>.
\<close>

function stream_run ::
  "('e stream_decoder \<Rightarrow> byte list \<Rightarrow> byte list \<Rightarrow> 's \<Rightarrow> 'e stream_decoder \<times> 's)
     \<Rightarrow> 'e stream_decoder \<Rightarrow> byte list \<Rightarrow> 's \<Rightarrow> 'e stream_decoder \<times> 's"
where
  "stream_run dec d xs s =
     (if xs = [] then (d\<lparr>pending := []\<rparr>, s)
      else case inspect_frame xs (max_frame_bytes d) of
             Inl e \<Rightarrow> (d\<lparr>pending := [], terminal_error := Some e\<rparr>, s)
           | Inr (Complete p f) \<Rightarrow>
               (let c = sat_add p f;
                    r = dec (d\<lparr>pending := []\<rparr>) (drop p (take c xs)) (take c xs) s
                in if terminal_error (fst r) \<noteq> None then r
                   else stream_run dec (fst r) (drop c xs) (snd r))
           | Inr _ \<Rightarrow> (d\<lparr>pending := xs\<rparr>, s))"
  by pat_completeness auto
termination
  by (relation "measure (\<lambda>(dec, d, xs, s). length xs)") (auto dest: inspect_frame_consumes)

declare stream_run.simps [simp del] push_loop.simps [simp del]

text \<open>What can be observed of a decoder: after a terminal error its buffer no longer counts.\<close>

definition settle :: "'e stream_decoder \<Rightarrow> 'e stream_decoder" where
  "settle d = (if terminal_error d = None then d else d\<lparr>pending := []\<rparr>)"

definition feed ::
  "('e stream_decoder \<Rightarrow> byte list \<Rightarrow> byte list \<Rightarrow> 's \<Rightarrow> 'e stream_decoder \<times> 's)
     \<Rightarrow> byte list list \<Rightarrow> 'e stream_decoder \<times> 's \<Rightarrow> 'e stream_decoder \<times> 's"
where
  "feed dec chunks = fold (\<lambda>chunk r. push_frames dec (fst r) chunk (snd r)) chunks"

definition incomplete :: "'e stream_decoder \<Rightarrow> bool" where
  "incomplete d =
     (pending d = [] \<or>
      (case inspect_frame (pending d) (max_frame_bytes d) :: (frame_state, 'e frame_error) result of
         Inr NeedPrefix \<Rightarrow> True | Inr (NeedPayload _) \<Rightarrow> True | _ \<Rightarrow> False))"

definition quiescent :: "'e stream_decoder \<Rightarrow> bool" where
  "quiescent d = (terminal_error d \<noteq> None \<or> incomplete d)"

definition one_frame :: "'e stream_decoder \<Rightarrow> bool" where
  "one_frame d =
     (case inspect_frame (pending d) (max_frame_bytes d) :: (frame_state, 'e frame_error) result of
        Inr (Complete p f) \<Rightarrow> length (pending d) = sat_add p f | _ \<Rightarrow> True)"

lemma quiescent_error: "terminal_error d \<noteq> None \<Longrightarrow> quiescent d"
  by (simp add: quiescent_def)

lemma quiescent_incomplete: "incomplete d \<Longrightarrow> quiescent d"
  by (simp add: quiescent_def)

lemma decoder_finish_settle [simp]: "decoder_finish (settle d) = decoder_finish d"
  by (simp add: decoder_finish_def settle_def)

lemma settle_idem [simp]: "settle (settle d) = settle d"
  by (simp add: settle_def)

lemma terminal_error_settle [simp]: "terminal_error (settle d) = terminal_error d"
  by (simp add: settle_def)

lemma settle_None: "terminal_error d = None \<Longrightarrow> settle d = d"
  by (simp add: settle_def)

lemma inspect_frame_Nil [simp]: "inspect_frame [] m = Inr NeedPrefix"
  by (simp add: inspect_frame_def)

lemma incomplete_one_frame: "incomplete d \<Longrightarrow> one_frame d"
  unfolding incomplete_def one_frame_def by (auto split: sum.split frame_state.split)

lemma stream_run_pending_irrelevant: "stream_run dec (d\<lparr>pending := x\<rparr>) xs s = stream_run dec d xs s"
  by (simp add: stream_run.simps [of dec "d\<lparr>pending := x\<rparr>"] stream_run.simps [of dec d]
      split: sum.split frame_state.split)

lemma feed_terminal: "terminal_error d \<noteq> None \<Longrightarrow> feed dec chunks (d, s) = (d, s)"
  by (induction chunks) (auto simp: feed_def push_frames_def)

text \<open>
  What the loop relies on from the closure that decodes one frame: it neither reads nor
  writes the pending buffer, and it keeps the frame limit.
\<close>

locale frame_visitor =
  fixes dec :: "'e stream_decoder \<Rightarrow> byte list \<Rightarrow> byte list \<Rightarrow> 's \<Rightarrow> 'e stream_decoder \<times> 's"
  assumes dec_pending:
    "dec (d\<lparr>pending := x\<rparr>) frame framed s =
       ((fst (dec d frame framed s))\<lparr>pending := x\<rparr>, snd (dec d frame framed s))"
    and dec_max_frame: "max_frame_bytes (fst (dec d frame framed s)) = max_frame_bytes d"
begin

lemma pending_dec [simp]: "pending (fst (dec d frame framed s)) = pending d"
proof -
  have "dec d frame framed s = dec (d\<lparr>pending := pending d\<rparr>) frame framed s" by simp
  then have "fst (dec d frame framed s) = (fst (dec d frame framed s))\<lparr>pending := pending d\<rparr>"
    by (metis dec_pending fst_conv)
  then show ?thesis
    by (metis stream_decoder.select_convs(1) stream_decoder.surjective stream_decoder.update_convs(1))
qed

lemma stream_run_append:
  "terminal_error d = None \<Longrightarrow>
   stream_run dec d (xs @ ys) s =
     (let r = stream_run dec d xs s
      in if terminal_error (fst r) \<noteq> None then r
         else stream_run dec (fst r) (pending (fst r) @ ys) (snd r))"
proof (induction "length xs" arbitrary: d xs s rule: less_induct)
  case less
  let ?i = "\<lambda>zs. inspect_frame zs (max_frame_bytes d) :: (frame_state, 'e frame_error) result"
  show ?case
  proof (cases "xs = []")
    case True
    then show ?thesis
      using less.prems by (simp add: stream_run.simps [of dec d "[]"] stream_run_pending_irrelevant)
  next
    case False
    consider (err) e where "?i xs = Inl e" | (frame) p f where "?i xs = Inr (Complete p f)"
      | (need) "?i xs = Inr NeedPrefix" | (more) t where "?i xs = Inr (NeedPayload t)"
      by (metis frame_state.exhaust sumE)
    then show ?thesis
    proof cases
      case err
      then show ?thesis
        using False inspect_frame_Inl_append [OF err, of ys]
        by (simp add: stream_run.simps [of dec d])
    next
      case frame
      let ?c = "sat_add p f"
      let ?r = "dec (d\<lparr>pending := []\<rparr>) (drop p (take ?c xs)) (take ?c xs) s"
      have c: "0 < ?c" "?c \<le> length xs"
        using inspect_frame_consumes [OF frame] inspect_frame_Complete [OF frame] by auto
      have ih: "terminal_error (fst ?r) = None \<Longrightarrow>
          stream_run dec (fst ?r) (drop ?c xs @ ys) (snd ?r) =
            (let r = stream_run dec (fst ?r) (drop ?c xs) (snd ?r)
             in if terminal_error (fst r) \<noteq> None then r
                else stream_run dec (fst r) (pending (fst r) @ ys) (snd r))"
        using c by (intro less.hyps) auto
      have "stream_run dec d (xs @ zs) s =
          (if terminal_error (fst ?r) \<noteq> None then ?r
           else stream_run dec (fst ?r) (drop ?c xs @ zs) (snd ?r))" for zs
        using False c inspect_frame_Complete_append [OF frame, of zs]
        by (simp add: stream_run.simps [of dec d] Let_def)
      from this [of ys] this [of "[]"] ih show ?thesis by simp
    next
      case need
      then show ?thesis
        using False less.prems by (simp add: stream_run.simps [of dec d xs] stream_run_pending_irrelevant)
    next
      case more
      then show ?thesis
        using False less.prems by (simp add: stream_run.simps [of dec d xs] stream_run_pending_irrelevant)
    qed
  qed
qed

lemma dec_no_pending: "pending d = [] \<Longrightarrow> (fst (dec d frame framed s))\<lparr>pending := []\<rparr> = fst (dec d frame framed s)"
  by (metis dec_pending fst_conv stream_decoder.surjective stream_decoder.update_convs(1)
      stream_decoder.select_convs(1))

lemma settle_no_pending: "pending d = [] \<Longrightarrow> settle d = d"
  by (simp add: settle_def)

lemma no_pending: "pending d = [] \<Longrightarrow> d\<lparr>pending := []\<rparr> = d"
  by (metis stream_decoder.surjective stream_decoder.update_convs(1))

lemma settle_dec:
  "pending d = [] \<Longrightarrow> map_prod settle id (dec d frame framed s) = dec d frame framed s"
  by (simp add: settle_no_pending map_prod_def case_prod_beta)

lemma push_tail_refines:
  assumes "terminal_error d = None" and "one_frame d"
  shows "map_prod settle id (push_tail dec d s) = stream_run dec d (pending d) s"
  using assms
  by (auto simp: push_tail_def one_frame_def dec_no_pending settle_dec recycle_pending_def settle_def
      stream_run.simps [of dec d] stream_run.simps [of dec _ "[]"] Let_def case_prod_beta
      split: sum.split frame_state.split)

lemma push_loop_refines:
  "terminal_error d = None \<Longrightarrow> one_frame d \<Longrightarrow>
   map_prod settle id (push_loop dec d input s) = stream_run dec d (pending d @ input) s"
proof (induction "2 * length input + (if pending d = [] then 0 else 1)" arbitrary: d input s
    rule: less_induct)
  case less
  let ?i = "\<lambda>zs. inspect_frame zs (max_frame_bytes d) :: (frame_state, 'e frame_error) result"
  let ?zs = "if pending d = [] then input else pending d"
  show ?case
  proof (cases input)
    case Nil
    then show ?thesis using less.prems by (simp add: push_loop.simps push_tail_refines)
  next
    case (Cons b bs)
    then have ne: "?zs \<noteq> []" by simp
    consider (err) e where "?i ?zs = Inl e" | (frame) p f where "?i ?zs = Inr (Complete p f)"
      | (need) "?i ?zs = Inr NeedPrefix" | (more) t where "?i ?zs = Inr (NeedPayload t)"
      by (metis frame_state.exhaust sumE)
    then show ?thesis
    proof cases
      case err
      then show ?thesis
        using Cons ne inspect_frame_Inl_append [OF err, of input]
        by (auto simp: push_loop.simps stream_run.simps [of dec d] settle_def split: if_splits)
    next
      case frame
      let ?c = "sat_add p f"
      let ?r = "dec (d\<lparr>pending := []\<rparr>) (drop p (take ?c ?zs)) (take ?c ?zs) s"
      let ?rest = "if pending d = [] then drop ?c input else input"
      have c: "0 < ?c" "?c \<le> length ?zs" and full: "pending d \<noteq> [] \<Longrightarrow> length (pending d) = ?c"
        using inspect_frame_consumes [OF frame] inspect_frame_Complete [OF frame] less.prems(2) frame
        by (auto simp: one_frame_def split: if_splits)
      have r: "pending (fst ?r) = []" by simp
      have ih: "map_prod settle id (push_loop dec (fst ?r) ?rest (snd ?r))
          = stream_run dec (fst ?r) (pending (fst ?r) @ ?rest) (snd ?r)" if "terminal_error (fst ?r) = None"
        using that c Cons r by (intro less.hyps) (auto simp: one_frame_def split: if_splits)
      have run: "stream_run dec d (pending d @ input) s =
          (if terminal_error (fst ?r) \<noteq> None then ?r else stream_run dec (fst ?r) ?rest (snd ?r))"
        using Cons c full inspect_frame_Complete_append [OF frame, of input] frame
        by (auto simp: stream_run.simps [of dec d] Let_def)
      have "push_loop dec d input s =
          (if terminal_error (fst ?r) \<noteq> None then ?r else push_loop dec (fst ?r) ?rest (snd ?r))"
        using Cons c full frame
        by (auto simp: push_loop.simps dec_no_pending no_pending recycle_pending_def Let_def)
      then show ?thesis using ih run r by (simp add: settle_dec)
    next
      case need
      show ?thesis
      proof (cases "pending d = []")
        case True
        then show ?thesis
          using Cons need less.prems by (simp add: push_loop.simps stream_run.simps [of dec d] settle_def)
      next
        case False
        let ?d = "d\<lparr>pending := pending d @ [b]\<rparr>"
        have "one_frame ?d"
          using need False
          by (auto simp: one_frame_def dest: inspect_frame_prefix_byte split: sum.split frame_state.split)
        then have "map_prod settle id (push_loop dec ?d bs s) = stream_run dec ?d (pending ?d @ bs) s"
          using Cons False less.prems by (intro less.hyps) auto
        then show ?thesis
          using Cons need False by (simp add: push_loop.simps stream_run_pending_irrelevant)
      qed
    next
      case more
      show ?thesis 
      proof (cases "pending d = []")
        case True
        then show ?thesis
          using Cons more less.prems by (simp add: push_loop.simps stream_run.simps [of dec d] settle_def)
      next
        case False
        let ?k = "min (length input) (sat_sub t (length (pending d)))"
        let ?d = "d\<lparr>pending := pending d @ take ?k input\<rparr>"
        have lt: "length (pending d) < t" using inspect_frame_NeedPayload more False by auto
        then have k: "0 < ?k" using Cons by auto
        have "one_frame ?d"
          using more False lt
          by (auto simp: one_frame_def elim!: inspect_frame_NeedPayload_append
              split: sum.split frame_state.split if_splits)
        then have "map_prod settle id (push_loop dec ?d (drop ?k input) s)
            = stream_run dec ?d (pending ?d @ drop ?k input) s"
          using Cons False less.prems k by (intro less.hyps) auto
        then show ?thesis
          using Cons more False by (simp add: push_loop.simps stream_run_pending_irrelevant Let_def)
      qed
    qed
  qed
qed

lemma stream_run_max_frame [simp]: "max_frame_bytes (fst (stream_run dec d xs s)) = max_frame_bytes d"
proof (induction "length xs" arbitrary: d xs s rule: less_induct)
  case less
  then show ?case
    by (subst stream_run.simps)
      (auto simp: Let_def dec_max_frame dest: inspect_frame_consumes split: sum.split frame_state.split)
qed

lemma stream_run_quiescent: "quiescent (fst (stream_run dec d xs s))"
proof (induction "length xs" arbitrary: d xs s rule: less_induct)
  case less
  let ?i = "inspect_frame xs (max_frame_bytes d) :: (frame_state, 'e frame_error) result"
  have rest: "?i = Inr (Complete p f) \<Longrightarrow> xs \<noteq> [] \<Longrightarrow>
      quiescent (fst (stream_run dec d' (drop (sat_add p f) xs) s'))" for p f d' s'
    by (rule less.hyps) (auto dest: inspect_frame_consumes)
  show ?case
    by (subst stream_run.simps)
      (auto simp: Let_def rest quiescent_error quiescent_incomplete incomplete_def
        split: sum.split frame_state.split)
qed

lemma push_frames_refines:
  assumes "terminal_error d = None" and "incomplete d"
  shows "map_prod settle id (push_frames dec d input s) = stream_run dec d (pending d @ input) s"
  using assms by (simp add: push_frames_def push_loop_refines incomplete_one_frame)

lemma feed_refines:
  "terminal_error d = None \<Longrightarrow> incomplete d \<Longrightarrow>
   map_prod settle id (feed dec chunks (d, s)) = stream_run dec d (pending d @ concat chunks) s"
proof (induction chunks arbitrary: d s)
  case Nil
  then show ?case
    by (auto simp: feed_def settle_def incomplete_def stream_run.simps [of dec d] no_pending
        split: sum.split frame_state.split)
next
  case (Cons c cs)
  obtain d' s' where push: "push_frames dec d c s = (d', s')" by fastforce
  then have feed: "feed dec (c # cs) (d, s) = feed dec cs (d', s')" by (simp add: feed_def)
  have run: "stream_run dec d (pending d @ c) s = (settle d', s')"
    using push_frames_refines [OF Cons.prems, of c s] push by simp
  have split: "stream_run dec d (pending d @ concat (c # cs)) s =
     (if terminal_error d' \<noteq> None then (settle d', s')
      else stream_run dec (settle d') (pending (settle d') @ concat cs) s')"
    using stream_run_append [OF Cons.prems(1), of "pending d @ c" "concat cs" s] run by simp
  show ?case
  proof (cases "terminal_error d' = None")
    case True
    then have "incomplete d'" using stream_run_quiescent [of d "pending d @ c" s] run
      by (simp add: settle_None quiescent_def)
    then show ?thesis using True split feed Cons.IH by (simp add: settle_None)
  next
    case False
    then show ?thesis using split feed by (simp add: feed_terminal)
  qed
qed

lemma chunking:
  assumes "terminal_error d = None" and "incomplete d" and "concat chunks = concat chunks'"
  shows "map_prod decoder_finish id (feed dec chunks (d, s)) = map_prod decoder_finish id (feed dec chunks' (d, s))"
proof -
  have "map_prod decoder_finish id r = map_prod decoder_finish id (map_prod settle id r)"
    for r :: "'e stream_decoder \<times> 's"
    by (cases r) simp
  then show ?thesis using feed_refines assms by metis
qed

end

section \<open>Variable-length integers\<close>
lemma and_0x7F: "x AND 0x7F = take_bit 7 (x :: 8 word)" "v AND 0x7F = take_bit 7 (v :: 64 word)"
  by (simp_all add: take_bit_eq_mask mask_eq_exp_minus_1)

lemma or_and_absorb: "(x OR y) AND y = (y :: 'a::len word)"
  by (rule bit_word_eqI) (auto simp: bit_simps)

lemma ucast_take7: "ucast (take_bit 7 (ucast v :: 8 word)) = take_bit 7 (v :: 64 word)"
  by (rule bit_word_eqI) (auto simp: bit_simps)

lemma continuation_byte:
  fixes v :: "64 word"
  shows "ucast (((ucast v AND 0x7F) OR 0x80 :: 8 word) AND 0x7F) = v AND 0x7F"
    and "((ucast v AND 0x7F) OR 0x80 :: 8 word) AND 0x80 \<noteq> 0"
  by (simp_all add: and_0x7F take_bit_or ucast_take7 or_and_absorb)

lemma last_byte:
  assumes "v < (0x80 :: 64 word)"
  shows "ucast ((ucast v :: 8 word) AND 0x7F) = v" and "(ucast v :: 8 word) AND 0x80 = 0"
proof -
  have "unat v < 2 ^ 7" using assms by (simp add: word_less_nat_alt)
  then have v: "take_bit 7 v = v"
    by (simp add: word_unat_eq_iff unsigned_take_bit_eq take_bit_nat_eq_self_iff)
  then show "ucast ((ucast v :: 8 word) AND 0x7F) = v" by (simp add: and_0x7F ucast_take7)
  have "(ucast v :: 8 word) = take_bit 7 (ucast v)"
    by (subst v [symmetric]) (rule bit_word_eqI, auto simp: bit_simps)
  then have "(ucast v :: 8 word) AND 0x80 = (ucast v AND 0x7F) AND 0x80" by (simp only: and_0x7F)
  also have "\<dots> = 0" by (simp add: and.assoc)
  finally show "(ucast v :: 8 word) AND 0x80 = 0" .
qed

lemma split_low7: "(v AND 0x7F) OR push_bit 7 (drop_bit 7 v) = (v :: 64 word)"
  unfolding and_0x7F
proof (rule bit_word_eqI)
  fix n
  show "bit (take_bit 7 v OR push_bit 7 (drop_bit 7 v)) n = bit v n"
    by (cases "n < 7") (auto simp: bit_simps dest: bit_imp_le_length)
qed

lemma unat_drop7: "unat (drop_bit 7 v) = unat (v :: 64 word) div 128"
  unfolding unat_drop_bit_eq by (simp add: drop_bit_eq_div)

lemma write_varint_append: "write_varint v out = out @ write_varint v []"
proof (induction "unat v" arbitrary: v out rule: less_induct)
  case less
  show ?case
  proof (cases "0x80 \<le> v")
    case True
    let ?b = "(ucast v AND 0x7F) OR 0x80"
    have step: "write_varint v out = (out @ [?b]) @ write_varint (drop_bit 7 v) []" for out
    proof -
      have "write_varint v out = write_varint (drop_bit 7 v) (out @ [?b])"
        using True by (simp only: write_varint.simps [of v] if_True)
      also have "\<dots> = (out @ [?b]) @ write_varint (drop_bit 7 v) []"
        by (rule less [OF unat_drop_bit_less [OF True]])
      finally show ?thesis .
    qed
    show ?thesis by (simp only: step append_assoc append_Nil)
  next
    case False
    then show ?thesis by (simp add: write_varint.simps [of v])
  qed
qed

lemma write_varint_Cons:
  "0x80 \<le> v \<Longrightarrow>
   write_varint v [] = ((ucast v AND 0x7F) OR 0x80) # write_varint (drop_bit 7 v) []"
  by (subst write_varint.simps) (simp add: write_varint_append [of _ "[_]"])

lemma write_varint_single: "v < 0x80 \<Longrightarrow> write_varint v [] = [ucast v]"
  by (subst write_varint.simps) (simp add: not_le [symmetric])

lemma length_write_varint: "unat v < 2 ^ (7 * k) \<Longrightarrow> 0 < k \<Longrightarrow> length (write_varint v []) \<le> k"
proof (induction k arbitrary: v)
  case (Suc k)
  show ?case
  proof (cases "0x80 \<le> v")
    case True
    then have "128 \<le> unat v" by (simp add: word_le_nat_alt)
    then have "0 < k" using Suc.prems by (cases k) auto
    moreover have "unat (drop_bit 7 v) < 2 ^ (7 * k)"
      using Suc.prems(1) by (simp add: unat_drop7 less_mult_imp_div_less power_add mult.commute)
    ultimately show ?thesis using Suc.IH True by (simp add: write_varint_Cons)
  next
    case False
    then show ?thesis by (simp add: write_varint_single)
  qed
qed simp

lemma scan_loop_write_varint:
  "i < 10 \<Longrightarrow> unat v < 2 ^ (64 - i * 7) \<Longrightarrow>
   scan_loop m i acc (write_varint v [] @ rest) =
     (let w = acc OR push_bit (i * 7) v
      in if m < unat w then ScanLarge (unat w)
         else ScanFrame (i + length (write_varint v [])) (unat w))"
proof (induction "unat v" arbitrary: i v acc rule: less_induct)
  case less
  show ?case
  proof (cases "0x80 \<le> v")
    case True
    then have big: "128 \<le> unat v" by (simp add: word_le_nat_alt)
    have i: "i < 9"
    proof (rule ccontr)
      assume "\<not> i < 9"
      then have "i = 9" using less.prems(1) by simp
      then show False using less.prems(2) big by simp
    qed
    have small: "unat (drop_bit 7 v) < 2 ^ (64 - (i + 1) * 7)"
    proof -
      have "(2::nat) ^ (64 - i * 7) = 2 ^ (64 - (i + 1) * 7) * 2 ^ 7"
        using i by (subst power_add [symmetric]) (rule arg_cong [of _ _ "(^) 2"], simp)
      then show ?thesis
        using less.prems(2) by (simp add: unat_drop7 less_mult_imp_div_less)
    qed
    have merge: "(acc OR push_bit (i * 7) (v AND 0x7F)) OR push_bit ((i + 1) * 7) (drop_bit 7 v)
        = acc OR push_bit (i * 7) v"
    proof -
      have "push_bit ((i + 1) * 7) (drop_bit 7 v) = push_bit (i * 7) (push_bit 7 (drop_bit 7 v))"
        by (simp add: algebra_simps)
      then show ?thesis by (simp only: or.assoc push_bit_or [symmetric] split_low7)
    qed
    have ih: "scan_loop m (i + 1) (acc OR push_bit (i * 7) (v AND 0x7F))
          (write_varint (drop_bit 7 v) [] @ rest) =
        (let w = acc OR push_bit (i * 7) v
         in if m < unat w then ScanLarge (unat w)
            else ScanFrame (i + 1 + length (write_varint (drop_bit 7 v) [])) (unat w))"
      using i less.hyps [OF unat_drop_bit_less [OF True] _ small,
          of "acc OR push_bit (i * 7) (v AND 0x7F)"]
      unfolding merge by simp
    show ?thesis
      using i ih
      by (simp only: write_varint_Cons [OF True] continuation_byte Let_def append_Cons scan_loop.simps)
        simp
  next
    case False
    then have v: "v < 0x80" by simp
    have "i = 9 \<Longrightarrow> \<not> 1 < v" using less.prems(2) by (auto simp: word_less_nat_alt)
    then show ?thesis
      using less.prems(1) v by (auto simp: write_varint_single last_byte Let_def)
  qed
qed

lemma scan_frame_write_varint:
  assumes "n \<le> m" and "n \<le> u64_max"
  shows "scan_frame m (write_varint (of_nat n) [] @ rest) = ScanFrame (length (write_varint (of_nat n) [])) n"
proof -
  let ?p = "write_varint (of_nat n) []"
  have n: "unat (of_nat n :: 64 word) = n"
    using assms(2) by (simp add: unat_of_nat take_bit_nat_eq_self_iff u64_max_def)
  have "length ?p \<le> 10"
    by (rule length_write_varint) (use assms(2) n in \<open>simp_all add: u64_max_def\<close>)
  then have "take 10 (?p @ rest) = ?p @ take (10 - length ?p) rest" by simp
  then show ?thesis
    using scan_loop_write_varint [of 0 "of_nat n" m 0] n assms
    by (simp add: scan_frame_def Let_def u64_max_def)
qed

section \<open>Limits\<close>

definition within_limits :: "'e stream_decoder \<Rightarrow> bool" where
  "within_limits d \<longleftrightarrow> decoded_bytes d \<le> max_stream_bytes d \<and> event_count d \<le> max_events d"

definition decoder_inv :: "'e stream_decoder \<Rightarrow> bool" where
  "decoder_inv d \<longleftrightarrow>
     quiescent d \<and> within_limits d \<and>
     (terminal_error d = None \<longrightarrow> length (pending d) < 10 + max_frame_bytes d)"

lemma incomplete_length: "incomplete d \<Longrightarrow> length (pending d) < 10 + max_frame_bytes d"
  using scan_frame_bounds [of "max_frame_bytes d" "pending d"]
  by (fastforce simp: incomplete_def inspect_frame_scan sat_add_def split: scan.splits if_splits)

locale bounded_visitor = frame_visitor +
  assumes dec_limits: "within_limits d \<Longrightarrow> within_limits (fst (dec d frame framed s))"
begin

lemma stream_run_limits: "within_limits d \<Longrightarrow> within_limits (fst (stream_run dec d xs s))"
proof (induction "length xs" arbitrary: d xs s rule: less_induct)
  case less
  have keep: "within_limits (d\<lparr>pending := x\<rparr>)" "within_limits (d\<lparr>pending := x, terminal_error := e\<rparr>)"
    for x e using less.prems by (simp_all add: within_limits_def)
  have rest: "inspect_frame xs (max_frame_bytes d) = (Inr (Complete p f) :: (_, 'a frame_error) result)
      \<Longrightarrow> xs \<noteq> [] \<Longrightarrow> within_limits d' \<Longrightarrow>
      within_limits (fst (stream_run dec d' (drop (sat_add p f) xs) s'))" for p f d' s'
    by (rule less.hyps) (auto dest: inspect_frame_consumes)
  show ?case
    by (subst stream_run.simps)
      (auto simp: Let_def rest keep dec_limits split: sum.split frame_state.split)
qed

lemma push_frames_inv:
  assumes "decoder_inv d"
  shows "decoder_inv (fst (push_frames dec d input s))"
proof (cases "terminal_error d = None")
  case True
  let ?r = "fst (push_frames dec d input s)"
  have "settle ?r = fst (stream_run dec d (pending d @ input) s)"
    using arg_cong [where f = fst, OF push_frames_refines [of d input s]] True assms
    by (simp add: decoder_inv_def quiescent_def)
  then have "quiescent (settle ?r)" "within_limits (settle ?r)"
    using assms stream_run_quiescent stream_run_limits by (auto simp: decoder_inv_def)
  then show ?thesis
    by (auto simp: decoder_inv_def quiescent_def within_limits_def settle_def incomplete_length
        split: if_splits)
next
  case False
  then show ?thesis using assms by (simp add: push_frames_def)
qed

end

lemma visit_decoded_frame_pending:
  "visit_decoded_frame (d\<lparr>pending := x\<rparr>) n decode s =
     ((fst (visit_decoded_frame d n decode s))\<lparr>pending := x\<rparr>, snd (visit_decoded_frame d n decode s))"
  by (simp add: visit_decoded_frame_def Let_def split: prod.split sum.split stream_control.split)

lemma visit_decoded_frame_max_frame:
  "max_frame_bytes (fst (visit_decoded_frame d n decode s)) = max_frame_bytes d"
  by (simp add: visit_decoded_frame_def Let_def split: prod.split sum.split stream_control.split)

lemma visit_decoded_frame_limits:
  "within_limits d \<Longrightarrow> within_limits (fst (visit_decoded_frame d n decode s))"
  by (auto simp: visit_decoded_frame_def within_limits_def Let_def sat_add_def
      split: prod.split sum.split stream_control.split)

lemmas visitor_laws =
  visit_decoded_frame_pending visit_decoded_frame_max_frame visit_decoded_frame_limits

interpretation owned: bounded_visitor "decode_owned_frame decode visitor" for decode visitor
  by unfold_locales (simp_all add: decode_owned_frame_def visitor_laws)

interpretation borrowed: bounded_visitor "decode_borrowed_frame decode visitor" for decode visitor
  by unfold_locales (simp_all add: decode_borrowed_frame_def visitor_laws)
section \<open>Encoded streams\<close>

lemma decoder_new_inv: "decoder_inv (decoder_new a b c)"
  by (simp add: decoder_inv_def decoder_new_def quiescent_def incomplete_def within_limits_def)

lemma inspect_encoded:
  assumes "length body \<le> m" and "10 + length body \<le> u64_max"
  shows "inspect_frame (encode_frame body @ rest) m =
           Inr (Complete (length (write_varint (of_nat (length body)) [])) (length body))"
    and "sat_add (length (write_varint (of_nat (length body)) [])) (length body)
           = length (encode_frame body)"
proof -
  let ?p = "write_varint (of_nat (length body)) []"
  have frame: "scan_frame m (encode_frame body @ rest) = ScanFrame (length ?p) (length body)"
    using scan_frame_write_varint [of "length body" m "body @ rest"] assms
    by (simp add: encode_frame_def)
  show sat: "sat_add (length ?p) (length body) = length (encode_frame body)"
    using scan_frame_bounds(2) [OF frame] assms by (simp add: sat_add_def encode_frame_def)
  show "inspect_frame (encode_frame body @ rest) m = Inr (Complete (length ?p) (length body))"
    using frame sat by (simp add: inspect_frame_scan)
qed

lemma encode_frame_not_Nil [simp]: "encode_frame body \<noteq> []"
proof -
  have "length (write_varint v []) \<noteq> 0" for v
    by (cases "0x80 \<le> v") (auto simp: write_varint_Cons write_varint_single not_le)
  then show ?thesis by (auto simp: encode_frame_def)
qed

lemma stream_run_encoded:
  assumes "length body \<le> max_frame_bytes d" and "10 + length body \<le> u64_max"
  shows "stream_run dec d (encode_frame body @ rest) s =
     (let r = dec (d\<lparr>pending := []\<rparr>) body (encode_frame body) s
      in if terminal_error (fst r) \<noteq> None then r else stream_run dec (fst r) rest (snd r))"
  by (subst stream_run.simps)
    (simp add: inspect_encoded [OF assms] Let_def, auto simp: encode_frame_def)

definition accepts :: "(byte list \<Rightarrow> ('ev, 'e) result) \<Rightarrow> 'e stream_decoder \<Rightarrow> (byte list \<times> 'ev) list \<Rightarrow> bool"
where
  "accepts decode d msgs =
     (list_all (\<lambda>(body, ev). decode body = Inr ev \<and> length body \<le> max_frame_bytes d) msgs \<and>
      decoded_bytes d + sum_list (map (length \<circ> fst) msgs) \<le> max_stream_bytes d \<and>
      event_count d + length msgs \<le> max_events d)"

lemma stream_run_messages:
  assumes "accepts decode d msgs" and "terminal_error d = None"
    and "10 + max_stream_bytes d \<le> u64_max" and "max_events d \<le> u64_max"
  shows "stream_run (decode_owned_frame decode (\<lambda>ev framed s. (Continue, visitor ev s))) d
           (concat (map (encode_frame \<circ> fst) msgs) @ rest) s =
         stream_run (decode_owned_frame decode (\<lambda>ev framed s. (Continue, visitor ev s)))
           (d\<lparr>decoded_bytes := decoded_bytes d + sum_list (map (length \<circ> fst) msgs),
              event_count := event_count d + length msgs\<rparr>)
           rest (fold (visitor \<circ> snd) msgs s)"
  using assms
proof (induction msgs arbitrary: d s)
  case Nil
  then show ?case by simp
next
  case (Cons m msgs)
  obtain body ev where m: "m = (body, ev)" by fastforce
  let ?d = "d\<lparr>decoded_bytes := decoded_bytes d + length body, event_count := event_count d + 1\<rparr>"
  have "decode_owned_frame decode (\<lambda>ev framed s. (Continue, visitor ev s)) (d\<lparr>pending := []\<rparr>)
      body (encode_frame body) s = (?d\<lparr>pending := []\<rparr>, visitor ev s)"
    using Cons.prems m
    by (simp add: accepts_def decode_owned_frame_def visit_decoded_frame_def Let_def sat_add_exact)
  then have "stream_run (decode_owned_frame decode (\<lambda>ev framed s. (Continue, visitor ev s))) d
      (encode_frame body @ concat (map (encode_frame \<circ> fst) msgs) @ rest) s =
     stream_run (decode_owned_frame decode (\<lambda>ev framed s. (Continue, visitor ev s))) ?d
      (concat (map (encode_frame \<circ> fst) msgs) @ rest) (visitor ev s)"
    using Cons.prems m
    by (subst stream_run_encoded) (auto simp: accepts_def stream_run_pending_irrelevant)
  also have "\<dots> = stream_run (decode_owned_frame decode (\<lambda>ev framed s. (Continue, visitor ev s)))
      (?d\<lparr>decoded_bytes := decoded_bytes ?d + sum_list (map (length \<circ> fst) msgs),
           event_count := event_count ?d + length msgs\<rparr>)
      rest (fold (visitor \<circ> snd) msgs (visitor ev s))"
    by (rule Cons.IH) (use Cons.prems m in \<open>auto simp: accepts_def\<close>)
  finally show ?case by (simp add: m add.assoc comp_def)
qed

lemma visit_stream_loop_feed:
  assumes "terminal_error d = None" and "[] \<notin> set chunks"
  shows "visit_stream_loop (push_frames dec) d (map ReadOk chunks) s = feed dec chunks (d, s)"
  using assms
proof (induction chunks arbitrary: d s)
  case Nil
  then show ?case by (simp add: feed_def)
next
  case (Cons c cs)
  obtain d' s' where "push_frames dec d c s = (d', s')" by fastforce
  then show ?case
    using Cons feed_terminal [of d' dec cs s'] by (auto simp: feed_def is_terminal_decoder_def Let_def)
qed

lemma decode_stream_partial_bounded_run:
  assumes "[] \<notin> set chunks"
    and "stream_run (decode_owned_frame decode (\<lambda>ev framed s. (Continue, s @ [ev])))
           (decoder_new a b c) (concat chunks) [] = (d, events)"
  shows "decode_stream_partial_bounded decode (map ReadOk chunks) a b c =
           \<lparr>ps_events = events, ps_terminal_error = out_terminal_error (decoder_finish d)\<rparr>"
proof -
  let ?dec = "decode_owned_frame decode (\<lambda>ev framed s. (Continue, s @ [ev]))"
  let ?new = "decoder_new a b c :: 'a stream_decoder"
  have new: "terminal_error ?new = None" "incomplete ?new" "pending ?new = []"
    by (simp_all add: decoder_new_def incomplete_def)
  have pushf: "push decode (\<lambda>ev events. events @ [ev]) = push_frames ?dec"
    by (intro ext) (simp add: push_def push_framed_def)
  obtain d' where run: "visit_stream_loop (push decode (\<lambda>ev events. events @ [ev])) ?new
      (map ReadOk chunks) [] = (d', events)" and "settle d' = d"
    using owned.feed_refines [of ?new decode "\<lambda>ev framed s. (Continue, s @ [ev])" chunks "[]"]
      assms new visit_stream_loop_feed [of ?new chunks ?dec "[]"] unfolding pushf
    by (auto simp: map_prod_def split: prod.splits)
  then have "decoder_finish d' = decoder_finish d" using decoder_finish_settle by metis
  then show ?thesis
    using run by (simp add: decode_stream_partial_bounded_def visit_stream_partial_bounded_def)
qed

lemma truncated_frame:
  assumes "length body \<le> m" and "10 + length body \<le> u64_max"
    and "encode_frame body = part @ missing" and "missing \<noteq> []"
  shows "\<exists>st. inspect_frame part m = (Inr st :: (frame_state, 'e frame_error) result) \<and>
          (st = NeedPrefix \<or> (\<exists>t. st = NeedPayload t))"
proof -
  let ?full = "inspect_frame (part @ missing) m :: (frame_state, 'e frame_error) result"
  have full: "?full = Inr (Complete (length (write_varint (of_nat (length body)) [])) (length body))"
    using inspect_encoded(1) [OF assms(1,2), of "[]"] assms(3) by simp
  show ?thesis
  proof (cases "inspect_frame part m :: (frame_state, 'e frame_error) result")
    case (Inl e)
    then show ?thesis using inspect_frame_Inl_append [OF Inl, of missing] full by simp
  next
    case (Inr st)
    have "st \<noteq> Complete p f" for p f
    proof
      assume st: "st = Complete p f"
      have "sat_add p f \<le> length part"
        and "p = length (write_varint (of_nat (length body)) [])" "f = length body"
        using inspect_frame_Complete [OF Inr [unfolded st]]
          inspect_frame_Complete_append [OF Inr [unfolded st], of missing] full by auto
      then show False
        using inspect_encoded(2) [OF assms(1,2)] assms(3,4) by simp
    qed
    then show ?thesis using Inr by (cases st) auto
  qed
qed

lemma fold_append_snd: "fold ((\<lambda>ev s. s @ [ev]) \<circ> snd) msgs acc = acc @ map snd msgs"
  by (induction msgs arbitrary: acc) auto

lemma decode_stream_messages:
  assumes "accepts decode (decoder_new a b c) msgs" and "10 + b \<le> u64_max" and "c \<le> u64_max"
    and "[] \<notin> set chunks" and "concat chunks = concat (map (encode_frame \<circ> fst) msgs) @ rest"
    and "rest = [] \<or> (\<exists>st. inspect_frame rest a = (Inr st :: (frame_state, 'e frame_error) result) \<and>
           (st = NeedPrefix \<or> (\<exists>t. st = NeedPayload t)))"
  shows "decode_stream_partial_bounded decode (map ReadOk chunks) a b c =
           (\<lparr>ps_events = map snd msgs,
             ps_terminal_error = if rest = [] then None else Some Truncated\<rparr> :: ('ev, 'e) partial_stream)"
proof -
  let ?new = "decoder_new a b c :: 'e stream_decoder"
  let ?dec = "decode_owned_frame decode (\<lambda>ev framed s. (Continue, s @ [ev]))"
  let ?d = "?new\<lparr>decoded_bytes := sum_list (map (length \<circ> fst) msgs), event_count := length msgs,
      pending := rest\<rparr>"
  have "stream_run ?dec ?new (concat chunks) [] = (?d, map snd msgs)"
    using assms stream_run_messages [of decode ?new msgs "\<lambda>ev s. s @ [ev]" rest "[]"]
    by (auto simp: decoder_new_def fold_append_snd stream_run.simps [of ?dec _ rest])
  from decode_stream_partial_bounded_run [OF assms(4) this] show ?thesis
    by (simp add: decoder_finish_def decoder_new_def)
qed

lemma default_limits:
  "10 + DEFAULT_MAX_STREAM_BYTES \<le> u64_max" "DEFAULT_MAX_STREAM_EVENTS \<le> u64_max"
  by (simp_all add: DEFAULT_MAX_STREAM_BYTES_def DEFAULT_MAX_STREAM_EVENTS_def u64_max_def)

section \<open>The reader path\<close>

lemma drop_shift: "Suc i < p \<Longrightarrow> drop (p - i) (b # xs) = drop (p - Suc i) xs"
  by (simp add: drop_Cons' )

lemma read_varint_scan:
  assumes "i \<le> 10"
  shows "case scan_loop m i v (take (10 - i) xs) of
           ScanMore \<Rightarrow>
             fst (read_varint_loop (map (\<lambda>k. k * 7) [i..<10]) v \<lparr>rd_bytes = xs, rd_fail = None\<rparr>) =
               (if 10 - i \<le> length xs then Inl InvalidVarint
                else if i = 0 \<and> xs = [] then Inr None else (Inl Truncated :: (_, 'e frame_error) result))
         | ScanBad \<Rightarrow>
             fst (read_varint_loop (map (\<lambda>k. k * 7) [i..<10]) v \<lparr>rd_bytes = xs, rd_fail = None\<rparr>) =
               (Inl InvalidVarint :: (_, 'e frame_error) result)
         | ScanLarge f \<Rightarrow> m < f \<and>
             (\<exists>w r. read_varint_loop (map (\<lambda>k. k * 7) [i..<10]) v \<lparr>rd_bytes = xs, rd_fail = None\<rparr> =
               (Inr (Some w) :: (_, 'e frame_error) result, r) \<and> unat w = f)
         | ScanFrame p f \<Rightarrow>
             (\<exists>w. read_varint_loop (map (\<lambda>k. k * 7) [i..<10]) v \<lparr>rd_bytes = xs, rd_fail = None\<rparr> =
               (Inr (Some w) :: (_, 'e frame_error) result, \<lparr>rd_bytes = drop (p - i) xs, rd_fail = None\<rparr>) \<and>
               unat w = f)"
  using assms
proof (induction xs arbitrary: i v)
  case Nil
  then show ?case by (cases "i = 10") (auto simp: upt_conv_Cons read_exact_def)
next
  case (Cons b xs)
  show ?case
  proof (cases "i = 10")
    case False
    let ?v = "v OR push_bit (i * 7) (ucast (b AND 0x7F))"
    have i: "i < 10" using False Cons.prems by simp
    then have take: "take (10 - i) (b # xs) = b # take (10 - (i + 1)) xs"
      and shifts: "[i..<10] = i # [i + 1..<10]"
      by (simp_all add: take_Cons' upt_conv_Cons)
    show ?thesis
      using Cons.IH [of "i + 1" ?v] i unfolding take shifts
      by (auto simp: read_exact_def Let_def drop_shift dest: scan_loop_bounds split: scan.splits
          simp del: take_all take_all_iff)
  qed auto
qed

definition inspected_frame ::
  "nat \<Rightarrow> byte list \<Rightarrow> (byte list option, 'e frame_error) result"
where
  "inspected_frame m xs =
     (case inspect_frame xs m of
        Inl e \<Rightarrow> Inl e
      | Inr (Complete p f) \<Rightarrow> Inr (Some (take f (drop p xs)))
      | Inr _ \<Rightarrow> if xs = [] then Inr None else Inl Truncated)"

section \<open>Properties of the framing layer\<close>

text \<open>
  C4: Chunk boundaries never matter. Feeding a stream to a new decoder chunk by chunk, for any
  way to cut it, visits the same events with the same exact frames in the same order and
  finishes with the same counts and the same terminal error as feeding it at once.
\<close>

theorem push_framed_borrowed_chunks:
  "map_prod decoder_finish id
     (fold (\<lambda>chunk (d, s). push_framed_borrowed decode visitor d chunk s) chunks
        (decoder_new max_frame max_stream max_ev, s)) =
   map_prod decoder_finish id
     (push_framed_borrowed decode visitor (decoder_new max_frame max_stream max_ev)
        (concat chunks) s)"
proof -
  let ?new = "decoder_new max_frame max_stream max_ev :: 'a stream_decoder"
  have feed: "fold (\<lambda>chunk (d, s). push_framed_borrowed decode visitor d chunk s) cs (?new, s) =
      feed (decode_borrowed_frame decode visitor) cs (?new, s)" for cs
    by (simp add: feed_def push_framed_borrowed_def case_prod_unfold)
  show ?thesis
    using borrowed.chunking [of ?new chunks "[concat chunks]" decode visitor s] feed [of chunks]
      feed [of "[concat chunks]"]
    by (simp add: decoder_new_def incomplete_def)
qed

text \<open>
  C9: Decoding inverts encoding. A stream of encoded messages within the default limits,
  delivered by the reader in non-empty pieces of any size, decodes to exactly these messages
  in order, with no error.
\<close>

theorem decode_stream_roundtrip:
  assumes "accepts decode
             (decoder_new max_bytes DEFAULT_MAX_STREAM_BYTES DEFAULT_MAX_STREAM_EVENTS) msgs"
    and "[] \<notin> set chunks" and "concat chunks = concat (map (encode_frame \<circ> fst) msgs)"
  shows "decode_stream decode (map ReadOk chunks) max_bytes = Inr (map snd msgs)"
  using decode_stream_messages [OF assms(1) default_limits assms(2), of "[]"] assms(3)
  by (simp add: decode_stream_def)

theorem decode_stream_roundtrip_witness:
  "decode_stream Inr (map ReadOk [[2], [7, 8, 0]]) 16 = (Inr [[7, 8], []] :: (_, nat frame_error) result)"
  using decode_stream_roundtrip [where decode = Inr and max_bytes = 16 and 'a = nat and
      msgs = "[([7, 8], [7, 8]), ([], [])]" and chunks = "[[2], [7, 8, 0]]"]
  by (simp add: accepts_def decoder_new_def DEFAULT_MAX_STREAM_BYTES_def
      DEFAULT_MAX_STREAM_EVENTS_def encode_frame_def write_varint_single)

text \<open>
  C11: A stream cut inside a frame keeps its complete prefix: the messages before the cut are
  decoded, and the error is \<^const>\<open>Truncated\<close>.
\<close>

theorem decode_stream_truncated:
  assumes "accepts decode
             (decoder_new max_bytes DEFAULT_MAX_STREAM_BYTES DEFAULT_MAX_STREAM_EVENTS) msgs"
    and "[] \<notin> set chunks"
    and "concat chunks = concat (map (encode_frame \<circ> fst) msgs) @ part"
    and "encode_frame body = part @ missing" and "part \<noteq> []" and "missing \<noteq> []"
    and "length body \<le> max_bytes" and "10 + length body \<le> u64_max"
  shows "decode_stream_partial decode (map ReadOk chunks) max_bytes =
           \<lparr>ps_events = map snd msgs, ps_terminal_error = Some Truncated\<rparr>"
  using decode_stream_messages [OF assms(1) default_limits assms(2,3)]
    truncated_frame [OF assms(7,8,4,6)] assms(5)
  by (simp add: decode_stream_partial_def)

theorem decode_stream_truncated_witness:
  "decode_stream_partial Inr (map ReadOk [[1, 9], [2, 7]]) 16 =
     (\<lparr>ps_events = [[9]], ps_terminal_error = Some Truncated\<rparr> :: (_, nat) partial_stream)"
  using decode_stream_truncated [where decode = Inr and max_bytes = 16 and 'a = nat and
      msgs = "[([9], [9])]" and chunks = "[[1, 9], [2, 7]]" and part = "[2, 7]" and
      body = "[7, 8]" and missing = "[8]"]
  by (simp add: accepts_def decoder_new_def DEFAULT_MAX_STREAM_BYTES_def
      DEFAULT_MAX_STREAM_EVENTS_def encode_frame_def write_varint_single u64_max_def)

text \<open>
  Every push keeps the decoder's invariant: the decoded bytes and the event count stay
  within their limits, and a decoder that has not failed retains at most one incomplete frame,
  of fewer than ten bytes more than the frame limit.
\<close>

theorem push_framed_borrowed_inv:
  assumes "decoder_inv d"
  shows "decoder_inv (fst (push_framed_borrowed decode visitor d input s))"
  using borrowed.push_frames_inv [OF assms] by (simp add: push_framed_borrowed_def)

text \<open>
  The two implementations of the framing agree: what \<^const>\<open>read_frame\<close> takes from a reader,
  byte by byte, is what \<^const>\<open>inspect_frame\<close> sees in the buffered stream: the same payload, the
  same errors, and \<^const>\<open>None\<close> exactly at the clean end of the stream.
\<close>

theorem read_frame_inspect:
  assumes "10 + m \<le> u64_max"
  shows "fst (read_frame \<lparr>rd_bytes = xs, rd_fail = None\<rparr> m) =
           (inspected_frame m xs :: (byte list option, 'e frame_error) result)"
proof -
  have shifts: "varint_shifts = map (\<lambda>k. k * 7) [0..<10]"
    by (simp add: varint_shifts_def upt_conv_Cons)
  obtain v r1 where rv: "read_varint \<lparr>rd_bytes = xs, rd_fail = None\<rparr> = (v :: (_, 'e frame_error) result, r1)"
    by fastforce
  have "case scan_frame m xs of
      ScanMore \<Rightarrow> v = (if 10 \<le> length xs then Inl InvalidVarint
                       else if xs = [] then Inr None else Inl Truncated)
    | ScanBad \<Rightarrow> v = Inl InvalidVarint
    | ScanLarge f \<Rightarrow> m < f \<and> (\<exists>w. v = Inr (Some w) \<and> unat w = f)
    | ScanFrame p f \<Rightarrow> (\<exists>w. v = Inr (Some w) \<and> unat w = f) \<and> r1 = \<lparr>rd_bytes = drop p xs, rd_fail = None\<rparr>"
    using read_varint_scan [where i = 0 and v = 0 and m = m and xs = xs and 'e = 'e] rv
    by (auto simp: read_varint_def shifts scan_frame_def split: scan.splits
        simp del: take_all take_all_iff)
  then show ?thesis
    using rv assms scan_frame_bounds [of m xs]
    by (cases "scan_frame m xs")
      (auto simp: read_frame_def inspected_frame_def inspect_frame_scan read_exact_def sat_add_def Let_def)
qed

end
