(* ===== verification/Domain_Types.thy ===== *)
theory Domain_Types
  imports Rust_Prelude
begin

text \<open>
  The domain types of \<^verbatim>\<open>bazel-mcp-types\<close>: commands, the life cycle of an invocation, its record
  and metrics, deferred results, pages. Identifiers are the 128-bit values of their UUIDs,
  timestamps are \<^verbatim>\<open>i64\<close> milliseconds kept as \<^typ>\<open>int\<close>, and floating-point percentages, which
  are only carried here, are the 64 bits of their representation. The current time, where an operation reads the clock, is
  an argument.
\<close>

type_synonym f64 = "64 word"

section \<open>Commands\<close>

datatype command_class = BuildLike | RunClass | QueryClass | Informational | Unsafe | Unknown

datatype bazel_command =
    Build | Test | Coverage | Query | Cquery | Aquery | Info | Version | Help | Mod
  | MobileInstall | Clean | Shutdown | Run | Custom string

fun class_of_command :: "bazel_command \<Rightarrow> command_class" where
  "class_of_command Build = BuildLike"
| "class_of_command Test = BuildLike"
| "class_of_command Coverage = BuildLike"
| "class_of_command MobileInstall = BuildLike"
| "class_of_command Run = RunClass"
| "class_of_command Query = QueryClass"
| "class_of_command Cquery = QueryClass"
| "class_of_command Aquery = QueryClass"
| "class_of_command Info = Informational"
| "class_of_command Version = Informational"
| "class_of_command Help = Informational"
| "class_of_command Mod = Informational"
| "class_of_command Clean = Unsafe"
| "class_of_command Shutdown = Unsafe"
| "class_of_command (Custom _) = Unknown"

fun command_as_str :: "bazel_command \<Rightarrow> string" where
  "command_as_str Build = ''build''"
| "command_as_str Test = ''test''"
| "command_as_str Coverage = ''coverage''"
| "command_as_str Query = ''query''"
| "command_as_str Cquery = ''cquery''"
| "command_as_str Aquery = ''aquery''"
| "command_as_str Info = ''info''"
| "command_as_str Version = ''version''"
| "command_as_str Help = ''help''"
| "command_as_str Mod = ''mod''"
| "command_as_str MobileInstall = ''mobile-install''"
| "command_as_str Clean = ''clean''"
| "command_as_str Shutdown = ''shutdown''"
| "command_as_str Run = ''run''"
| "command_as_str (Custom value) = value"

definition command_from_str :: "string \<Rightarrow> bazel_command" where
  "command_from_str value =
     (if value = ''build'' then Build
      else if value = ''test'' then Test
      else if value = ''coverage'' then Coverage
      else if value = ''query'' then Query
      else if value = ''cquery'' then Cquery
      else if value = ''aquery'' then Aquery
      else if value = ''info'' then Info
      else if value = ''version'' then Version
      else if value = ''help'' then Help
      else if value = ''mod'' then Mod
      else if value = ''mobile-install'' then MobileInstall
      else if value = ''clean'' then Clean
      else if value = ''shutdown'' then Shutdown
      else if value = ''run'' then Run
      else Custom value)"

section \<open>Results of an invocation\<close>

datatype run_outcome =
    BuildFailed | NotLaunched | RunSucceeded | ProgramFailed | CancelledDuringBuild
  | CancelledDuringProgram | TimedOutDuringBuild | TimedOutDuringProgram
  | OutputLimitDuringBuild | OutputLimitDuringProgram

record run_summary =
  run_target :: string
  run_outcome_of :: run_outcome
  program_exit_code :: "int option"
  output_excerpt :: "string list"

datatype inspect_hint =
    HintDiagnostics | HintTests | HintTestLog | HintCoverage | HintArtifacts
  | HintQueryResults | HintLog

fun hint_as_str :: "inspect_hint \<Rightarrow> string" where
  "hint_as_str HintDiagnostics = ''diagnostics''"
| "hint_as_str HintTests = ''tests''"
| "hint_as_str HintTestLog = ''test_log''"
| "hint_as_str HintCoverage = ''coverage''"
| "hint_as_str HintArtifacts = ''artifacts''"
| "hint_as_str HintQueryResults = ''query_results''"
| "hint_as_str HintLog = ''log''"

record target_counts =
  tgt_requested :: nat
  tgt_succeeded :: nat
  tgt_failed :: nat

record test_counts =
  tc_passed :: nat
  tc_failed :: nat
  tc_flaky :: nat
  tc_skipped :: nat
  tc_incomplete :: nat

record target_result =
  tr_label :: string
  tr_success :: bool

datatype test_status =
    Passed | TestFailed | Flaky | Skipped | TestTimedOut | Incomplete | RemoteTest

record test_case =
  case_name :: string
  case_status :: test_status
  case_duration_ms :: "nat option"
  case_message :: "string option"

record test_result =
  test_label :: string
  test_status_of :: test_status
  test_duration_ms :: "nat option"
  test_attempts :: nat
  test_shard :: "nat option"
  test_cases :: "test_case list"
  test_log_available :: bool
  test_log_unavailable_reason :: "string option"

datatype severity = Error | Warning | Note

datatype diagnostic_category =
    Workspace | Loading | Analysis | Visibility | Action | Compilation | TestCategory | Bazel
  | UnknownCategory

record diagnostic_location =
  loc_path :: string
  loc_line :: "nat option"
  loc_column :: "nat option"

record diagnostic =
  diag_severity :: severity
  diag_category :: diagnostic_category
  diag_message :: string
  diag_location :: "diagnostic_location option"
  diag_target :: "string option"
  diag_action :: "string option"
  repetition_count :: nat

record coverage_file =
  cov_path :: string
  cov_lines_found :: nat
  cov_lines_hit :: nat
  cov_percent :: f64

record coverage_summary =
  covs_lines_found :: nat
  covs_lines_hit :: nat
  covs_percent :: f64
  covs_files :: "coverage_file list"

datatype artifact_kind = FileArtifact | DirectoryArtifact | TestLogArtifact | CoverageArtifact | RemoteArtifact

record artifact =
  art_name :: string
  art_kind :: artifact_kind
  art_uri :: string
  art_size_bytes :: "nat option"
  art_locally_available :: bool

record query_row =
  qr_ordinal :: nat
  qr_value :: string

record invocation_summary =
  sum_success :: bool
  sum_headline :: string
  sum_targets :: "target_result list"
  sum_target_counts :: target_counts
  sum_diagnostics :: "diagnostic list"
  sum_tests :: "test_result list"
  sum_test_counts :: test_counts
  sum_coverage :: "coverage_summary option"
  sum_query_sample :: "query_row list"
  sum_query_result_count :: "nat option"
  sum_elapsed_ms :: nat
  sum_truncated :: bool
  sum_inspect_hint :: "inspect_hint option"

section \<open>Invocations\<close>

type_synonym invocation_id = nat

record invocation_request =
  req_id :: invocation_id
  req_workspace :: string
  startup_arguments :: "string list"
  req_command :: bazel_command
  req_arguments :: "string list"
  req_target :: "string option"
  program_arguments :: "string list"
  timeout_ms :: "nat option"
  req_environment :: "(string \<times> string) list"
  requested_at_ms :: int

definition request_new ::
  "invocation_id \<Rightarrow> int \<Rightarrow> string \<Rightarrow> bazel_command \<Rightarrow> string list \<Rightarrow> invocation_request"
where
  "request_new ident now workspace command arguments =
     \<lparr>req_id = ident, req_workspace = workspace, startup_arguments = [], req_command = command,
      req_arguments = arguments, req_target = None, program_arguments = [], timeout_ms = None,
      req_environment = [], requested_at_ms = now\<rparr>"

datatype invocation_state =
    Queued | Starting | Running | Succeeded | Failed | Cancelled | TimedOut | Interrupted

fun state_as_str :: "invocation_state \<Rightarrow> string" where
  "state_as_str Queued = ''queued''"
| "state_as_str Starting = ''starting''"
| "state_as_str Running = ''running''"
| "state_as_str Succeeded = ''succeeded''"
| "state_as_str Failed = ''failed''"
| "state_as_str Cancelled = ''cancelled''"
| "state_as_str TimedOut = ''timed_out''"
| "state_as_str Interrupted = ''interrupted''"

fun is_terminal :: "invocation_state \<Rightarrow> bool" where
  "is_terminal Succeeded = True"
| "is_terminal Failed = True"
| "is_terminal Cancelled = True"
| "is_terminal TimedOut = True"
| "is_terminal Interrupted = True"
| "is_terminal _ = False"

record state_transition_error =
  ste_current :: invocation_state
  ste_next :: invocation_state

fun valid_transition :: "invocation_state \<Rightarrow> invocation_state \<Rightarrow> bool" where
  "valid_transition Queued next = (next \<in> {Starting, Cancelled, Interrupted})"
| "valid_transition Starting next = (next \<in> {Running, Failed, Cancelled, TimedOut, Interrupted})"
| "valid_transition Running next = (next \<in> {Succeeded, Failed, Cancelled, TimedOut, Interrupted})"
| "valid_transition _ next = False"

definition validate_transition ::
  "invocation_state \<Rightarrow> invocation_state \<Rightarrow> (unit, state_transition_error) result"
where
  "validate_transition current next =
     (if valid_transition current next then Inr ()
      else Inl \<lparr>ste_current = current, ste_next = next\<rparr>)"

datatype termination_kind =
    Exit int
  | Signal int
  | Timeout
  | OutputLimit nat
  | CancelledTermination
  | SpawnFailure string
  | InterruptedTermination

record invocation_metrics =
  raw_output_bytes :: nat
  bep_bytes :: nat
  bep_events :: nat
  model_visible_bytes :: nat
  progress_notifications :: nat
  inspect_calls :: nat
  queue_ms :: nat
  output_base_lock_wait_ms :: nat
  bazel_wall_ms :: nat
  reduction_ms :: nat

definition metrics_default :: invocation_metrics where
  "metrics_default =
     \<lparr>raw_output_bytes = 0, bep_bytes = 0, bep_events = 0, model_visible_bytes = 0,
      progress_notifications = 0, inspect_calls = 0, queue_ms = 0,
      output_base_lock_wait_ms = 0, bazel_wall_ms = 0, reduction_ms = 0\<rparr>"

record invocation_record =
  request :: invocation_request
  state :: invocation_state
  started_at_ms :: "int option"
  finished_at_ms :: "int option"
  rec_termination :: "termination_kind option"
  summary :: "invocation_summary option"
  run :: "run_summary option"
  metrics :: invocation_metrics
  canonical_arguments :: "string list option"
  cancellation_reason :: "string option"

definition queued :: "invocation_request \<Rightarrow> invocation_record" where
  "queued req =
     \<lparr>request = req, state = Queued, started_at_ms = None, finished_at_ms = None,
      rec_termination = None, summary = None, run = None, metrics = metrics_default,
      canonical_arguments = None, cancellation_reason = None\<rparr>"

text \<open>\<^verbatim>\<open>transition\<close>, given the time \<^verbatim>\<open>now\<close> that it reads; a refused transition changes nothing.\<close>

definition transition ::
  "int \<Rightarrow> invocation_state \<Rightarrow> invocation_record \<Rightarrow> (invocation_record, state_transition_error) result"
where
  "transition now next r =
     (case validate_transition (state r) next of
        Inl e \<Rightarrow> Inl e
      | Inr _ \<Rightarrow>
          (let r1 = (if next = Running then r\<lparr>started_at_ms := Some now\<rparr> else r);
               r2 = (if is_terminal next then r1\<lparr>finished_at_ms := Some now\<rparr> else r1)
           in Inr (r2\<lparr>state := next\<rparr>)))"

section \<open>Deferred results\<close>

datatype deferred_retrieval = SeparateResult | InlineResult

fun retrieval_as_str :: "deferred_retrieval \<Rightarrow> string" where
  "retrieval_as_str SeparateResult = ''separate_result''"
| "retrieval_as_str InlineResult = ''inline_result''"

datatype result_disposition = Attached | Deferred deferred_retrieval int

datatype deferred_terminal_state = DeferredCancelled

datatype deferred_failure_kind = QueueFailure | ExecutionFailure | InternalFailure

record deferred_failure =
  df_kind :: deferred_failure_kind
  df_redacted_message :: string

record deferred_record =
  dr_invocation_id :: invocation_id
  dr_retrieval :: deferred_retrieval
  dr_created_at_ms :: int
  dr_updated_at_ms :: int
  dr_expires_at_ms :: int
  dr_cancellation_requested_at_ms :: "int option"
  dr_terminal_override :: "deferred_terminal_state option"
  dr_failure :: "deferred_failure option"

definition deferred_new ::
  "invocation_id \<Rightarrow> deferred_retrieval \<Rightarrow> int \<Rightarrow> int \<Rightarrow> deferred_record"
where
  "deferred_new ident retrieval created expires =
     \<lparr>dr_invocation_id = ident, dr_retrieval = retrieval, dr_created_at_ms = created,
      dr_updated_at_ms = created, dr_expires_at_ms = max expires (sat_add_i64 created 1),
      dr_cancellation_requested_at_ms = None, dr_terminal_override = None, dr_failure = None\<rparr>"

definition configured_ttl_ms :: "deferred_record \<Rightarrow> int" where
  "configured_ttl_ms r = max (sat_sub_i64 (dr_expires_at_ms r) (dr_updated_at_ms r)) 1"

definition extend_terminal_expiry :: "int \<Rightarrow> deferred_record \<Rightarrow> bool \<times> deferred_record" where
  "extend_terminal_expiry terminal_at r =
     (let required = sat_add_i64 terminal_at (configured_ttl_ms r)
      in if dr_expires_at_ms r < required
         then (True, r\<lparr>dr_expires_at_ms := required,
                       dr_updated_at_ms := max terminal_at (dr_updated_at_ms r)\<rparr>)
         else (False, r))"

definition advertised_ttl_ms :: "deferred_record \<Rightarrow> nat" where
  "advertised_ttl_ms r =
     (let d = sat_sub_i64 (dr_expires_at_ms r) (dr_created_at_ms r)
      in if 0 \<le> d then nat d else u64_max)"

definition is_expired :: "int \<Rightarrow> bool \<Rightarrow> deferred_record \<Rightarrow> bool" where
  "is_expired now invocation_terminal r \<longleftrightarrow> invocation_terminal \<and> dr_expires_at_ms r \<le> now"

section \<open>Pages\<close>

record page_request =
  pr_cursor :: "string option"
  pr_item_limit :: nat
  pr_scan_limit :: nat

definition page_request_default :: page_request where
  "page_request_default = \<lparr>pr_cursor = None, pr_item_limit = 50, pr_scan_limit = 1000\<rparr>"

definition page_request_new :: "string option \<Rightarrow> nat \<Rightarrow> page_request" where
  "page_request_new cursor item_limit =
     page_request_default\<lparr>pr_cursor := cursor, pr_item_limit := item_limit\<rparr>"

record 'a page =
  pg_items :: "'a list"
  pg_total_count :: "nat option"
  pg_filtered_count :: "nat option"
  pg_next_cursor :: "string option"
  pg_truncated :: bool
  pg_item_cursors :: "string list"

section \<open>Properties of the life cycle\<close>

text \<open>
  Attempted transitions in sequence, each with the time at which it happens. A refused one
  leaves the record as it is. The list of the states that were entered comes along.
\<close>

fun attempt ::
  "(int \<times> invocation_state) list \<Rightarrow> invocation_record \<Rightarrow> invocation_record \<times> invocation_state list"
where
  "attempt [] r = (r, [])"
| "attempt ((now, next) # rest) r =
     (case transition now next r of
        Inl _ \<Rightarrow> attempt rest r
      | Inr r' \<Rightarrow> (let (r'', entered) = attempt rest r' in (r'', next # entered)))"

definition record_inv :: "invocation_record \<Rightarrow> bool" where
  "record_inv r \<longleftrightarrow>
     (finished_at_ms r \<noteq> None) = is_terminal (state r) \<and>
     (state r \<in> {Queued, Starting} \<longrightarrow> started_at_ms r = None) \<and>
     (state r \<in> {Running, Succeeded} \<longrightarrow> started_at_ms r \<noteq> None)"

fun state_rank :: "invocation_state \<Rightarrow> nat" where
  "state_rank Queued = 3"
| "state_rank Starting = 2"
| "state_rank Running = 1"
| "state_rank _ = 0"

lemma valid_transition_rank: "valid_transition s s' \<Longrightarrow> state_rank s' < state_rank s"
  by (cases s) auto

lemma terminal_rank: "is_terminal s \<longleftrightarrow> state_rank s = 0"
  by (cases s) auto

lemma transition_Inr:
  assumes "transition now next r = Inr r'"
  shows "valid_transition (state r) next" and "state r' = next" and "request r' = request r"
  using assms by (auto simp: transition_def validate_transition_def Let_def split: if_splits)

lemma transition_inv:
  assumes "transition now next r = Inr r'" and "record_inv r"
  shows "record_inv r'"
proof -
  have "valid_transition (state r) next" using transition_Inr [OF assms(1)] by simp
  then show ?thesis
    using assms
    by (cases "state r"; cases "next")
      (auto simp: transition_def validate_transition_def record_inv_def Let_def)
qed

lemma attempt_inv: "record_inv r \<Longrightarrow> record_inv (fst (attempt ts r))"
  by (induction ts r rule: attempt.induct)
    (auto simp: transition_inv case_prod_beta split: sum.split)

lemma attempt_rank:
  "state_rank (state (fst (attempt ts r))) + length (snd (attempt ts r)) \<le> state_rank (state r)"
proof (induction ts r rule: attempt.induct)
  case (2 now nxt rest r)
  then show ?case
    using valid_transition_rank transition_Inr
    by (fastforce simp: case_prod_beta split: sum.split)
qed simp

lemma queued_inv: "record_inv (queued req)"
  by (simp add: record_inv_def queued_def)


text \<open>
  A terminal state is final: once a record is in one, no attempt changes it.
\<close>

theorem terminal_final:
  assumes "is_terminal (state r)"
  shows "attempt ts r = (r, [])"
proof (induction ts)
  case (Cons t ts)
  have "transition (fst t) (snd t) r = Inl \<lparr>ste_current = state r, ste_next = snd t\<rparr>"
    using assms by (cases "state r") (auto simp: transition_def validate_transition_def)
  then show ?case using Cons by (cases t) simp
qed simp

text \<open>
  Printing a parsed command gives back its text, so that no argument to the server is ever
  turned into another command.
\<close>

theorem command_parse_print: "command_as_str (command_from_str value) = value"
  by (simp add: command_from_str_def)

text \<open>
  A deferred result that becomes terminal stays available: after the extension it does not
  expire before the end of one time-to-live from then on, and no expiry moves back.
\<close>

lemma extend_terminal_expiry_available:
  assumes "is_expired now terminal (snd (extend_terminal_expiry terminal_at r))"
  shows "sat_add_i64 terminal_at (configured_ttl_ms r) \<le> now" and "is_expired now terminal r"
  using assms by (auto simp: extend_terminal_expiry_def is_expired_def Let_def split: if_splits)


end
