(* ===== verification/Inspect_Types.thy ===== *)
theory Inspect_Types
  imports Domain_Types
begin

text \<open>
  What an inspection returns, \<^verbatim>\<open>bazel-mcp-types/src/inspection.rs\<close>: the views, the payload of each
  view, and a result with its cursors, which a final encoder may cut to fewer items. The
  theory shows that cutting keeps the result consistent with its cursors and that cutting
  twice is cutting once.
\<close>

datatype inspect_view =
    SummaryView | MetricsView | DiagnosticsView | TestsView | TestLogView | CoverageView
  | ArtifactsView | QueryResultsView | LogView | InvocationsView

definition FOLLOW_UP :: "inspect_view list" where
  "FOLLOW_UP =
     [SummaryView, MetricsView, DiagnosticsView, TestsView, TestLogView, CoverageView,
      ArtifactsView, QueryResultsView, LogView]"

fun view_as_str :: "inspect_view \<Rightarrow> string" where
  "view_as_str SummaryView = ''summary''"
| "view_as_str MetricsView = ''metrics''"
| "view_as_str DiagnosticsView = ''diagnostics''"
| "view_as_str TestsView = ''tests''"
| "view_as_str TestLogView = ''test_log''"
| "view_as_str CoverageView = ''coverage''"
| "view_as_str ArtifactsView = ''artifacts''"
| "view_as_str QueryResultsView = ''query_results''"
| "view_as_str LogView = ''log''"
| "view_as_str InvocationsView = ''invocations''"

definition view_parse :: "string \<Rightarrow> inspect_view option" where
  "view_parse value =
     (if value = ''summary'' then Some SummaryView
      else if value = ''metrics'' then Some MetricsView
      else if value = ''diagnostics'' then Some DiagnosticsView
      else if value = ''tests'' then Some TestsView
      else if value = ''test_log'' then Some TestLogView
      else if value = ''coverage'' then Some CoverageView
      else if value = ''artifacts'' then Some ArtifactsView
      else if value = ''query_results'' then Some QueryResultsView
      else if value = ''log'' then Some LogView
      else if value = ''invocations'' then Some InvocationsView
      else None)"

record inspect_coverage_summary =
  ics_lines_found :: nat
  ics_lines_hit :: nat
  ics_percent :: f64

record inspect_summary =
  is_success :: bool
  is_headline :: string
  is_targets :: target_counts
  is_tests :: test_counts
  is_diagnostics :: "diagnostic list"
  is_coverage :: "inspect_coverage_summary option"
  is_query_result_count :: "nat option"
  is_query_sample :: "query_row list"
  is_run :: "run_summary option"
  is_elapsed_ms :: nat
  is_truncated :: bool
  is_inspect_hint :: "inspect_hint option"

record inspect_metrics =
  im_state :: invocation_state
  im_requested_at_ms :: int
  im_started_at_ms :: "int option"
  im_finished_at_ms :: "int option"
  im_termination :: "termination_kind option"
  im_metrics :: invocation_metrics

record coverage_unavailable =
  cu_reason :: string
  cu_artifact :: "artifact option"

datatype inspect_coverage_item = CoverageFileItem coverage_file | CoverageUnavailable coverage_unavailable

record ledger_entry =
  le_invocation_id :: invocation_id
  le_workspace :: string
  le_state :: invocation_state
  le_command :: bazel_command
  le_arguments :: "string list"
  le_arguments_truncated :: bool
  le_requested_at_ms :: int
  le_finished_at_ms :: "int option"
  le_exit_code :: "int option"
  le_duration_ms :: nat
  le_headline :: "string option"
  le_targets :: "target_counts option"
  le_tests :: "test_counts option"
  le_raw_output_bytes :: nat
  le_model_visible_bytes :: nat
  le_inspect_calls :: nat

datatype inspect_payload =
    PSummary "inspect_summary list"
  | PMetrics "inspect_metrics list"
  | PDiagnostics "diagnostic list"
  | PTests "test_result list"
  | PTestLog "string list"
  | PCoverage "inspect_coverage_item list"
  | PArtifacts "artifact list"
  | PQueryResults "query_row list"
  | PLog "string list"
  | PInvocations "ledger_entry list"

fun payload_view :: "inspect_payload \<Rightarrow> inspect_view" where
  "payload_view (PSummary _) = SummaryView"
| "payload_view (PMetrics _) = MetricsView"
| "payload_view (PDiagnostics _) = DiagnosticsView"
| "payload_view (PTests _) = TestsView"
| "payload_view (PTestLog _) = TestLogView"
| "payload_view (PCoverage _) = CoverageView"
| "payload_view (PArtifacts _) = ArtifactsView"
| "payload_view (PQueryResults _) = QueryResultsView"
| "payload_view (PLog _) = LogView"
| "payload_view (PInvocations _) = InvocationsView"

fun payload_len :: "inspect_payload \<Rightarrow> nat" where
  "payload_len (PSummary items) = length items"
| "payload_len (PMetrics items) = length items"
| "payload_len (PDiagnostics items) = length items"
| "payload_len (PTests items) = length items"
| "payload_len (PTestLog items) = length items"
| "payload_len (PLog items) = length items"
| "payload_len (PCoverage items) = length items"
| "payload_len (PArtifacts items) = length items"
| "payload_len (PQueryResults items) = length items"
| "payload_len (PInvocations items) = length items"

fun payload_truncate :: "nat \<Rightarrow> inspect_payload \<Rightarrow> inspect_payload" where
  "payload_truncate n (PSummary items) = PSummary (take n items)"
| "payload_truncate n (PMetrics items) = PMetrics (take n items)"
| "payload_truncate n (PDiagnostics items) = PDiagnostics (take n items)"
| "payload_truncate n (PTests items) = PTests (take n items)"
| "payload_truncate n (PTestLog items) = PTestLog (take n items)"
| "payload_truncate n (PLog items) = PLog (take n items)"
| "payload_truncate n (PCoverage items) = PCoverage (take n items)"
| "payload_truncate n (PArtifacts items) = PArtifacts (take n items)"
| "payload_truncate n (PQueryResults items) = PQueryResults (take n items)"
| "payload_truncate n (PInvocations items) = PInvocations (take n items)"

record inspect_result =
  ir_invocation_id :: "invocation_id option"
  ir_view :: inspect_view
  ir_items :: inspect_payload
  ir_total_count :: "nat option"
  ir_filtered_count :: "nat option"
  ir_next_cursor :: "string option"
  ir_truncated :: bool
  ir_start_cursor :: "string option"
  ir_item_cursors :: "string list"

definition inspect_result_new ::
  "invocation_id option \<Rightarrow> inspect_payload \<Rightarrow> nat option \<Rightarrow> nat option \<Rightarrow> string option \<Rightarrow> bool
     \<Rightarrow> string list \<Rightarrow> inspect_result"
where
  "inspect_result_new ident items total_count filtered next_cursor truncated item_cursors =
     \<lparr>ir_invocation_id = ident, ir_view = payload_view items, ir_items = items,
      ir_total_count = total_count, ir_filtered_count = filtered, ir_next_cursor = next_cursor,
      ir_truncated = truncated, ir_start_cursor = None, ir_item_cursors = item_cursors\<rparr>"

definition with_start_cursor :: "string option \<Rightarrow> inspect_result \<Rightarrow> inspect_result" where
  "with_start_cursor cursor r = r\<lparr>ir_start_cursor := cursor\<rparr>"

definition get_cursor :: "string list \<Rightarrow> nat \<Rightarrow> string option" where
  "get_cursor cursors i = (if i < length cursors then Some (cursors ! i) else None)"

definition truncate_items :: "nat \<Rightarrow> inspect_result \<Rightarrow> inspect_result" where
  "truncate_items n r =
     (if payload_len (ir_items r) \<le> n then r
      else r\<lparr>ir_items := payload_truncate n (ir_items r),
             ir_truncated := True,
             ir_next_cursor :=
               (if n = 0 then ir_start_cursor r else get_cursor (ir_item_cursors r) (n - 1)),
             ir_item_cursors := take n (ir_item_cursors r)\<rparr>)"

section \<open>Cutting a result\<close>

lemma payload_len_truncate [simp]: "payload_len (payload_truncate n p) = min n (payload_len p)"
  by (cases p) auto

lemma payload_view_truncate [simp]: "payload_view (payload_truncate n p) = payload_view p"
  by (cases p) auto

lemma payload_truncate_truncate [simp]:
  "payload_truncate m (payload_truncate n p) = payload_truncate (min m n) p"
  by (cases p) auto

text \<open>
  A result is consistent when its view is that of its items, every item has its cursor, and
  the next cursor of a result with items is the cursor of its last item, if there is one at
  all.
\<close>

definition result_inv :: "inspect_result \<Rightarrow> bool" where
  "result_inv r \<longleftrightarrow>
     ir_view r = payload_view (ir_items r) \<and>
     length (ir_item_cursors r) = payload_len (ir_items r) \<and>
     (ir_next_cursor r \<noteq> None \<and> ir_item_cursors r \<noteq> [] \<longrightarrow>
        ir_next_cursor r = Some (last (ir_item_cursors r)))"

text \<open>
  Views are parsed back from their names, and nothing else is a view.
\<close>

theorem view_parse_print: "view_parse value = Some v \<longleftrightarrow> value = view_as_str v"
  by (cases v) (auto simp: view_parse_def)

text \<open>
  Cutting a consistent result to fewer items keeps it consistent, and the continuation
  starts right after the last item that is left, or at the start of the page when none is:
  packing fewer items neither repeats nor skips one.
\<close>

theorem truncate_items_cursor:
  assumes "result_inv r" and "n < payload_len (ir_items r)"
  shows "result_inv (truncate_items n r) \<and>
         payload_len (ir_items (truncate_items n r)) = n \<and>
         ir_next_cursor (truncate_items n r) =
           (if n = 0 then ir_start_cursor r else Some (ir_item_cursors r ! (n - 1)))"
  using assms
  by (auto simp: truncate_items_def result_inv_def get_cursor_def last_conv_nth min_def)

text \<open>
  Cutting twice is cutting once to the smaller size, whatever the two sizes are.
\<close>

theorem truncate_items_twice:
  assumes "length (ir_item_cursors r) = payload_len (ir_items r)"
  shows "truncate_items m (truncate_items n r) = truncate_items (min m n) r"
  using assms by (auto simp: truncate_items_def get_cursor_def min_def)

end
