(* ===== verification/Store_Record.thy ===== *)
theory Store_Record
  imports Domain_Types
begin

text \<open>
  The durable shapes of an invocation, \<^verbatim>\<open>bazel-mcp-store/src/record.rs\<close> and \<^verbatim>\<open>manifest.rs\<close>: the
  compact header that the manifest and the index hold, the details that go to a sidecar file,
  and their recombination. The JSON reader and writer are library code; they are the fields of
  a codec, over any type of file contents.
\<close>

section \<open>Headers and details\<close>

record coverage_header =
  ch_lines_found :: nat
  ch_lines_hit :: nat
  ch_percent :: f64

definition coverage_header_of :: "coverage_summary \<Rightarrow> coverage_header" where
  "coverage_header_of s =
     \<lparr>ch_lines_found = covs_lines_found s, ch_lines_hit = covs_lines_hit s,
      ch_percent = covs_percent s\<rparr>"

definition coverage_into_summary :: "coverage_header \<Rightarrow> coverage_summary" where
  "coverage_into_summary h =
     \<lparr>covs_lines_found = ch_lines_found h, covs_lines_hit = ch_lines_hit h,
      covs_percent = ch_percent h, covs_files = []\<rparr>"

record summary_header =
  sh_success :: bool
  sh_headline :: string
  sh_target_counts :: target_counts
  sh_diagnostics :: "diagnostic list"
  sh_test_counts :: test_counts
  sh_coverage :: "coverage_header option"
  sh_query_sample :: "query_row list"
  sh_query_result_count :: "nat option"
  sh_elapsed_ms :: nat
  sh_truncated :: bool
  sh_inspect_hint :: "inspect_hint option"

definition summary_header_of :: "invocation_summary \<Rightarrow> summary_header" where
  "summary_header_of s =
     \<lparr>sh_success = sum_success s, sh_headline = sum_headline s,
      sh_target_counts = sum_target_counts s, sh_diagnostics = sum_diagnostics s,
      sh_test_counts = sum_test_counts s,
      sh_coverage = map_option coverage_header_of (sum_coverage s),
      sh_query_sample = sum_query_sample s, sh_query_result_count = sum_query_result_count s,
      sh_elapsed_ms = sum_elapsed_ms s, sh_truncated = sum_truncated s,
      sh_inspect_hint = sum_inspect_hint s\<rparr>"

definition into_summary :: "summary_header \<Rightarrow> invocation_summary" where
  "into_summary h =
     \<lparr>sum_success = sh_success h, sum_headline = sh_headline h, sum_targets = [],
      sum_target_counts = sh_target_counts h, sum_diagnostics = sh_diagnostics h,
      sum_tests = [], sum_test_counts = sh_test_counts h,
      sum_coverage = map_option coverage_into_summary (sh_coverage h),
      sum_query_sample = sh_query_sample h, sum_query_result_count = sh_query_result_count h,
      sum_elapsed_ms = sh_elapsed_ms h, sum_truncated = sh_truncated h,
      sum_inspect_hint = sh_inspect_hint h\<rparr>"

record invocation_header =
  hd_request :: invocation_request
  hd_state :: invocation_state
  hd_started_at_ms :: "int option"
  hd_finished_at_ms :: "int option"
  hd_termination :: "termination_kind option"
  hd_summary :: "summary_header option"
  hd_run :: "run_summary option"
  hd_metrics :: invocation_metrics
  hd_canonical_arguments :: "string list option"
  hd_cancellation_reason :: "string option"

definition header_of :: "invocation_record \<Rightarrow> invocation_header" where
  "header_of r =
     \<lparr>hd_request = request r, hd_state = state r, hd_started_at_ms = started_at_ms r,
      hd_finished_at_ms = finished_at_ms r, hd_termination = rec_termination r,
      hd_summary = map_option summary_header_of (summary r), hd_run = run r,
      hd_metrics = metrics r, hd_canonical_arguments = canonical_arguments r,
      hd_cancellation_reason = cancellation_reason r\<rparr>"

definition into_record :: "invocation_header \<Rightarrow> invocation_record" where
  "into_record h =
     \<lparr>request = hd_request h, state = hd_state h, started_at_ms = hd_started_at_ms h,
      finished_at_ms = hd_finished_at_ms h, rec_termination = hd_termination h,
      summary = map_option into_summary (hd_summary h), run = hd_run h,
      metrics = hd_metrics h, canonical_arguments = hd_canonical_arguments h,
      cancellation_reason = hd_cancellation_reason h\<rparr>"

record invocation_details =
  det_targets :: "target_result list"
  det_tests :: "test_result list"
  det_coverage_files :: "coverage_file list"

definition details_default :: invocation_details where
  "details_default = \<lparr>det_targets = [], det_tests = [], det_coverage_files = []\<rparr>"

definition details_of :: "invocation_record \<Rightarrow> invocation_details" where
  "details_of r =
     (case summary r of
        None \<Rightarrow> details_default
      | Some s \<Rightarrow>
          \<lparr>det_targets = sum_targets s, det_tests = sum_tests s,
           det_coverage_files =
             (case sum_coverage s of None \<Rightarrow> [] | Some c \<Rightarrow> covs_files c)\<rparr>)"

definition hydrate :: "invocation_details \<Rightarrow> invocation_record \<Rightarrow> invocation_record" where
  "hydrate d r =
     (case summary r of
        None \<Rightarrow> r
      | Some s \<Rightarrow>
          (let s1 = s\<lparr>sum_targets := det_targets d, sum_tests := det_tests d\<rparr>;
               s2 = s1\<lparr>sum_coverage :=
                         map_option (\<lambda>c. c\<lparr>covs_files := det_coverage_files d\<rparr>) (sum_coverage s1)\<rparr>
           in r\<lparr>summary := Some s2\<rparr>))"

definition details_is_empty :: "invocation_details \<Rightarrow> bool" where
  "details_is_empty d \<longleftrightarrow> det_targets d = [] \<and> det_tests d = [] \<and> det_coverage_files d = []"

record hydrated_invocation =
  hy_header :: invocation_header
  hy_details :: invocation_details

definition hydrated_into_record :: "hydrated_invocation \<Rightarrow> invocation_record" where
  "hydrated_into_record h = hydrate (hy_details h) (into_record (hy_header h))"

section \<open>Manifests\<close>

definition CURRENT_SCHEMA_VERSION :: nat where
  "CURRENT_SCHEMA_VERSION = 1"

record durable_record =
  schema_version :: nat
  invocation :: invocation_header
  deferred :: "deferred_record option"
  payload_bytes :: nat

datatype store_error =
    NotFoundError invocation_id
  | DeferredNotFound invocation_id
  | InvalidCursor
  | UnsupportedRecordSchema nat
  | CorruptRecord string
  | StoreIo io_kind
  | JsonError
  | StateError state_transition_error

text \<open>
  What the store uses of \<^verbatim>\<open>serde_json\<close>, over any type \<^typ>\<open>'b\<close> of file contents: writers, readers
  that may reject, the reader of the schema version alone, and the length in bytes.
\<close>

record 'b codec =
  enc_durable :: "durable_record \<Rightarrow> 'b"
  dec_durable :: "'b \<Rightarrow> durable_record option"
  dec_envelope :: "'b \<Rightarrow> nat option"
  enc_details :: "invocation_details \<Rightarrow> 'b"
  dec_details :: "'b \<Rightarrow> invocation_details option"
  enc_artifacts :: "artifact list \<Rightarrow> 'b"
  dec_artifacts :: "'b \<Rightarrow> artifact list option"
  content_len :: "'b \<Rightarrow> nat"

text \<open>Documented behaviour of the codec: a reader accepts what its writer has written.\<close>

definition codec_ok :: "'b codec \<Rightarrow> bool" where
  "codec_ok c \<longleftrightarrow>
     (\<forall>d. dec_durable c (enc_durable c d) = Some d) \<and>
     (\<forall>d. dec_details c (enc_details c d) = Some d) \<and>
     (\<forall>a. dec_artifacts c (enc_artifacts c a) = Some a) \<and>
     (\<forall>x. content_len c x \<le> u64_max)"

definition migrate_v1 :: "durable_record \<Rightarrow> durable_record" where
  "migrate_v1 d = d"

definition decode_manifest :: "'b codec \<Rightarrow> 'b \<Rightarrow> (durable_record, store_error) result" where
  "decode_manifest c bytes =
     (case dec_durable c bytes of
        None \<Rightarrow>
          (case dec_envelope c bytes of
             Some v \<Rightarrow>
               if v \<noteq> CURRENT_SCHEMA_VERSION then Inl (UnsupportedRecordSchema v)
               else Inl (CorruptRecord ''manifest'')
           | None \<Rightarrow> Inl (CorruptRecord ''manifest''))
      | Some d \<Rightarrow>
          if schema_version d = 1 then Inr (migrate_v1 d)
          else Inl (UnsupportedRecordSchema (schema_version d)))"

section \<open>Properties of the record shapes\<close>

lemma header_into_record_shape [simp]:
  "state (into_record h) = hd_state h" "request (into_record h) = hd_request h"
  "metrics (into_record h) = hd_metrics h" "finished_at_ms (into_record h) = hd_finished_at_ms h"
  "started_at_ms (into_record h) = hd_started_at_ms h"
  "hd_state (header_of r) = state r" "hd_request (header_of r) = request r"
  "hd_metrics (header_of r) = metrics r" "hd_finished_at_ms (header_of r) = finished_at_ms r"
  "hd_started_at_ms (header_of r) = started_at_ms r"
  by (simp_all add: into_record_def header_of_def)

lemma coverage_header_into [simp]: "coverage_header_of (coverage_into_summary h) = h"
  by (simp add: coverage_header_of_def coverage_into_summary_def)

lemma summary_header_into [simp]: "summary_header_of (into_summary h) = h"
  by (cases h) (simp add: summary_header_of_def into_summary_def option.map_comp comp_def
      option.map_ident)

text \<open>
  The compact form loses nothing that it holds: going to the record and back is the identity.
\<close>

lemma header_of_into_record [simp]: "header_of (into_record h) = h"
  by (cases h) (simp add: header_of_def into_record_def option.map_comp comp_def option.map_ident)

lemma hydrated_record:
  "hydrated_into_record \<lparr>hy_header = header_of r, hy_details = details_of r\<rparr> = r"
proof (cases "summary r")
  case None
  then show ?thesis
    by (simp add: hydrated_into_record_def hydrate_def into_record_def header_of_def)
next
  case (Some s)
  have "map_option (\<lambda>c. c\<lparr>covs_files := case sum_coverage s of None \<Rightarrow> [] | Some c \<Rightarrow> covs_files c\<rparr>)
      (map_option coverage_into_summary (map_option coverage_header_of (sum_coverage s))) =
      sum_coverage s"
    by (cases "sum_coverage s") (simp_all add: coverage_into_summary_def coverage_header_of_def)
  then show ?thesis
    using Some
    by (simp add: hydrated_into_record_def hydrate_def details_of_def into_record_def
        header_of_def into_summary_def summary_header_of_def Let_def)
qed


text \<open>
  A manifest is accepted exactly when it parses with the current schema version; one of
  another version is reported as such, even when the rest of it is unreadable, and everything
  else as corrupt.
\<close>

theorem decode_manifest_cases:
  "(decode_manifest c bytes = Inr d) =
     (dec_durable c bytes = Some d \<and> schema_version d = CURRENT_SCHEMA_VERSION) \<and>
   (decode_manifest c bytes = Inl (UnsupportedRecordSchema v)) =
     (v \<noteq> CURRENT_SCHEMA_VERSION \<and>
      (case dec_durable c bytes of
         Some d' \<Rightarrow> schema_version d' = v
       | None \<Rightarrow> dec_envelope c bytes = Some v))"
  by (auto simp: decode_manifest_def migrate_v1_def CURRENT_SCHEMA_VERSION_def
      split: option.splits if_splits)

section \<open>A codec in memory\<close>

text \<open>File contents that carry the written value itself, a codec that meets the contract.\<close>

datatype blob =
    ManifestBlob durable_record | DetailsBlob invocation_details | ArtifactsBlob "artifact list"
  | RawBlob nat

definition memory_codec :: "blob codec" where
  "memory_codec =
     \<lparr>enc_durable = ManifestBlob,
      dec_durable = (\<lambda>b. case b of ManifestBlob d \<Rightarrow> Some d | _ \<Rightarrow> None),
      dec_envelope = (\<lambda>b. case b of ManifestBlob d \<Rightarrow> Some (schema_version d) | _ \<Rightarrow> None),
      enc_details = DetailsBlob,
      dec_details = (\<lambda>b. case b of DetailsBlob d \<Rightarrow> Some d | _ \<Rightarrow> None),
      enc_artifacts = ArtifactsBlob,
      dec_artifacts = (\<lambda>b. case b of ArtifactsBlob a \<Rightarrow> Some a | _ \<Rightarrow> None),
      content_len = (\<lambda>b. case b of RawBlob n \<Rightarrow> min n u64_max | _ \<Rightarrow> 100)\<rparr>"

lemma memory_codec_ok: "codec_ok memory_codec"
  by (auto simp: codec_ok_def memory_codec_def u64_max_def split: blob.split)

end
