(* ===== verification/Store_Index.thy ===== *)
theory Store_Index
  imports Store_Record "HOL-Library.Finite_Map" "HOL-Library.Product_Lexorder"
begin

text \<open>
  The in-memory index of the store, \<^verbatim>\<open>bazel-mcp-store/src/index.rs\<close> and
  \<^verbatim>\<open>index_coordinator.rs\<close>: entries by identifier, four secondary indexes ordered by time, and
  the number of retained bytes. Ordered maps and sets are finite maps and finite sets; their
  iteration order is that of their sorted keys. The theory shows that every operation keeps
  the secondary indexes exactly in step with the entries, that the byte count is exact, and
  that telemetry is never lost.
\<close>

section \<open>State and operations\<close>

record index_entry =
  en_record :: invocation_header
  en_deferred :: "deferred_record option"
  en_retained_bytes :: nat
  telemetry_generation :: nat
  telemetry_flush_scheduled :: bool

type_synonym time_key = "int \<times> invocation_id"

record index =
  entries :: "(invocation_id, index_entry) fmap"
  by_requested :: "time_key fset"
  by_workspace :: "(string, time_key fset) fmap"
  deferred_by_created :: "time_key fset"
  terminal_by_finished :: "time_key fset"
  retained_bytes :: nat

definition index_default :: index where
  "index_default =
     \<lparr>entries = fmempty, by_requested = {||}, by_workspace = fmempty,
      deferred_by_created = {||}, terminal_by_finished = {||}, retained_bytes = 0\<rparr>"

definition index_entry_of :: "durable_record \<Rightarrow> nat \<Rightarrow> index_entry" where
  "index_entry_of durable retained =
     \<lparr>en_record = invocation durable, en_deferred = deferred durable,
      en_retained_bytes = retained, telemetry_generation = 0,
      telemetry_flush_scheduled = False\<rparr>"

definition ensure_exists :: "index \<Rightarrow> invocation_id \<Rightarrow> (unit, store_error) result" where
  "ensure_exists ix ident =
     (if fmlookup (entries ix) ident \<noteq> None then Inr () else Inl (NotFoundError ident))"

definition finished_key :: "index_entry \<Rightarrow> int" where
  "finished_key e = (case hd_finished_at_ms (en_record e) of Some t \<Rightarrow> t | None \<Rightarrow> i64_min)"

definition add_secondary_indexes :: "index \<Rightarrow> invocation_id \<Rightarrow> index_entry \<Rightarrow> index" where
  "add_secondary_indexes ix ident e =
     (let requested = (requested_at_ms (hd_request (en_record e)), ident);
          workspace = req_workspace (hd_request (en_record e));
          ix1 = ix\<lparr>by_requested := finsert requested (by_requested ix)\<rparr>;
          ordered = (case fmlookup (by_workspace ix1) workspace of None \<Rightarrow> {||} | Some s \<Rightarrow> s);
          ix2 = ix1\<lparr>by_workspace := fmupd workspace (finsert requested ordered) (by_workspace ix1)\<rparr>;
          ix3 = (case en_deferred e of
                   None \<Rightarrow> ix2
                 | Some d \<Rightarrow>
                     ix2\<lparr>deferred_by_created :=
                           finsert (dr_created_at_ms d, ident) (deferred_by_created ix2)\<rparr>)
      in if is_terminal (hd_state (en_record e))
         then ix3\<lparr>terminal_by_finished := finsert (finished_key e, ident) (terminal_by_finished ix3)\<rparr>
         else ix3)"

definition remove_secondary_indexes :: "index \<Rightarrow> invocation_id \<Rightarrow> index_entry \<Rightarrow> index" where
  "remove_secondary_indexes ix ident e =
     (let requested = (requested_at_ms (hd_request (en_record e)), ident);
          workspace = req_workspace (hd_request (en_record e));
          ix1 = ix\<lparr>by_requested := by_requested ix |-| {|requested|}\<rparr>;
          ix2 = (case fmlookup (by_workspace ix1) workspace of
                   None \<Rightarrow> ix1
                 | Some ordered \<Rightarrow>
                     (let rest = ordered |-| {|requested|}
                      in if rest = {||}
                         then ix1\<lparr>by_workspace := fmdrop workspace (by_workspace ix1)\<rparr>
                         else ix1\<lparr>by_workspace := fmupd workspace rest (by_workspace ix1)\<rparr>));
          ix3 = (case en_deferred e of
                   None \<Rightarrow> ix2
                 | Some d \<Rightarrow>
                     ix2\<lparr>deferred_by_created :=
                           deferred_by_created ix2 |-| {|(dr_created_at_ms d, ident)|}\<rparr>)
      in if is_terminal (hd_state (en_record e))
         then ix3\<lparr>terminal_by_finished := terminal_by_finished ix3 |-| {|(finished_key e, ident)|}\<rparr>
         else ix3)"

definition merge_telemetry :: "invocation_metrics \<Rightarrow> invocation_metrics \<Rightarrow> invocation_metrics" where
  "merge_telemetry source destination =
     destination\<lparr>
       model_visible_bytes := max (model_visible_bytes destination) (model_visible_bytes source),
       progress_notifications :=
         max (progress_notifications destination) (progress_notifications source),
       inspect_calls := max (inspect_calls destination) (inspect_calls source)\<rparr>"

definition index_insert :: "index \<Rightarrow> invocation_id \<Rightarrow> index_entry \<Rightarrow> index" where
  "index_insert ix ident e =
     (let ix1 = add_secondary_indexes ix ident e;
          ix2 = ix1\<lparr>retained_bytes := sat_add (retained_bytes ix1) (en_retained_bytes e)\<rparr>
      in ix2\<lparr>entries := fmupd ident e (entries ix2)\<rparr>)"

text \<open>The telemetry that \<^verbatim>\<open>replace\<close> carries over from the previous entry.\<close>

definition carry_telemetry :: "index_entry \<Rightarrow> index_entry \<Rightarrow> index_entry" where
  "carry_telemetry previous e =
     e\<lparr>en_record := (en_record e)\<lparr>hd_metrics :=
                      merge_telemetry (hd_metrics (en_record previous)) (hd_metrics (en_record e))\<rparr>,
       telemetry_generation := telemetry_generation previous,
       telemetry_flush_scheduled := telemetry_flush_scheduled previous\<rparr>"

definition index_replace :: "index \<Rightarrow> invocation_id \<Rightarrow> index_entry \<Rightarrow> index" where
  "index_replace ix ident e =
     (let (ix1, e1) =
            (case fmlookup (entries ix) ident of
               None \<Rightarrow> (ix, e)
             | Some previous \<Rightarrow>
                 (let ix' = ix\<lparr>entries := fmdrop ident (entries ix)\<rparr>;
                      ix'' = remove_secondary_indexes ix' ident previous
                  in (ix''\<lparr>retained_bytes :=
                             sat_sub (retained_bytes ix'') (en_retained_bytes previous)\<rparr>,
                      carry_telemetry previous e)))
      in index_insert ix1 ident e1)"

definition index_remove :: "index \<Rightarrow> invocation_id \<Rightarrow> index" where
  "index_remove ix ident =
     (case fmlookup (entries ix) ident of
        None \<Rightarrow> ix
      | Some e \<Rightarrow>
          (let ix1 = remove_secondary_indexes (ix\<lparr>entries := fmdrop ident (entries ix)\<rparr>) ident e
           in ix1\<lparr>retained_bytes := sat_sub (retained_bytes ix1) (en_retained_bytes e)\<rparr>))"

definition merge_index_telemetry ::
  "index \<Rightarrow> invocation_id \<Rightarrow> invocation_metrics \<Rightarrow> nat \<times> invocation_metrics"
where
  "merge_index_telemetry ix ident m =
     (case fmlookup (entries ix) ident of
        Some e \<Rightarrow> (telemetry_generation e, merge_telemetry (hd_metrics (en_record e)) m)
      | None \<Rightarrow> (0, m))"

definition mark_telemetry_flushed :: "index \<Rightarrow> invocation_id \<Rightarrow> nat \<Rightarrow> index" where
  "mark_telemetry_flushed ix ident generation =
     (case fmlookup (entries ix) ident of
        None \<Rightarrow> ix
      | Some e \<Rightarrow>
          if telemetry_generation e = generation
          then ix\<lparr>entries := fmupd ident (e\<lparr>telemetry_flush_scheduled := False\<rparr>) (entries ix)\<rparr>
          else ix)"

definition merge_pending_telemetry :: "index \<Rightarrow> index \<Rightarrow> index" where
  "merge_pending_telemetry previous refreshed =
     refreshed\<lparr>entries :=
       fmmap_keys
         (\<lambda>ident e. case fmlookup (entries previous) ident of
                      None \<Rightarrow> e | Some p \<Rightarrow> carry_telemetry p e)
         (entries refreshed)\<rparr>"

text \<open>\<^verbatim>\<open>IndexCoordinator::replace_from_disk\<close>.\<close>

definition replace_from_disk :: "index \<Rightarrow> index \<Rightarrow> index" where
  "replace_from_disk previous refreshed = merge_pending_telemetry previous refreshed"

section \<open>Secondary indexes in step with the entries\<close>

definition in_step :: "(index_entry \<Rightarrow> int option) \<Rightarrow> (index \<Rightarrow> time_key fset) \<Rightarrow> index \<Rightarrow> bool" where
  "in_step key sel ix \<longleftrightarrow>
     (\<forall>k ident. (k, ident) |\<in>| sel ix \<longleftrightarrow>
        (\<exists>e. fmlookup (entries ix) ident = Some e \<and> key e = Some k))"

definition requested_key :: "index_entry \<Rightarrow> int option" where
  "requested_key e = Some (requested_at_ms (hd_request (en_record e)))"

definition workspace_key :: "string \<Rightarrow> index_entry \<Rightarrow> int option" where
  "workspace_key w e =
     (if req_workspace (hd_request (en_record e)) = w
      then Some (requested_at_ms (hd_request (en_record e))) else None)"

definition workspace_index :: "string \<Rightarrow> index \<Rightarrow> time_key fset" where
  "workspace_index w ix = (case fmlookup (by_workspace ix) w of None \<Rightarrow> {||} | Some s \<Rightarrow> s)"

definition deferred_key :: "index_entry \<Rightarrow> int option" where
  "deferred_key e = map_option dr_created_at_ms (en_deferred e)"

definition terminal_key :: "index_entry \<Rightarrow> int option" where
  "terminal_key e = (if is_terminal (hd_state (en_record e)) then Some (finished_key e) else None)"

definition index_wf :: "index \<Rightarrow> bool" where
  "index_wf ix \<longleftrightarrow>
     in_step requested_key by_requested ix \<and>
     (\<forall>w. in_step (workspace_key w) (workspace_index w) ix) \<and>
     in_step deferred_key deferred_by_created ix \<and>
     in_step terminal_key terminal_by_finished ix \<and>
     (\<forall>w. fmlookup (by_workspace ix) w \<noteq> Some {||})"

definition total_retained :: "index \<Rightarrow> nat" where
  "total_retained ix =
     (\<Sum>ident\<in>fmdom' (entries ix).
        case fmlookup (entries ix) ident of None \<Rightarrow> 0 | Some e \<Rightarrow> en_retained_bytes e)"

lemma entries_secondary [simp]:
  "entries (add_secondary_indexes ix ident e) = entries ix"
  "entries (remove_secondary_indexes ix ident e) = entries ix"
  "retained_bytes (add_secondary_indexes ix ident e) = retained_bytes ix"
  "retained_bytes (remove_secondary_indexes ix ident e) = retained_bytes ix"
  by (simp_all add: add_secondary_indexes_def remove_secondary_indexes_def Let_def split: option.split)

text \<open>
  The contract of one secondary index: which key an entry has in it, if any, where the index
  is found, and what adding and removing an entry does to it.
\<close>

locale keyed_index =
  fixes key :: "index_entry \<Rightarrow> int option"
    and sel :: "index \<Rightarrow> time_key fset"
  assumes sel_add:
      "sel (add_secondary_indexes ix ident e) =
         (case key e of None \<Rightarrow> sel ix | Some k \<Rightarrow> finsert (k, ident) (sel ix))"
    and sel_remove:
      "sel (remove_secondary_indexes ix ident e) =
         (case key e of None \<Rightarrow> sel ix | Some k \<Rightarrow> sel ix |-| {|(k, ident)|})"
    and sel_entries: "sel (ix\<lparr>entries := m\<rparr>) = sel ix"
    and sel_retained: "sel (ix\<lparr>retained_bytes := n\<rparr>) = sel ix"
    and key_carry: "key (carry_telemetry p e) = key e"
    and key_flushed: "key (e\<lparr>telemetry_flush_scheduled := b\<rparr>) = key e"
begin

lemma insert_in_step:
  assumes "in_step key sel ix" and "fmlookup (entries ix) ident = None"
  shows "in_step key sel (index_insert ix ident e)"
  using assms
  by (auto simp: in_step_def index_insert_def Let_def sel_add sel_entries sel_retained
      split: option.splits)

lemma drop_in_step:
  assumes "in_step key sel ix" and "fmlookup (entries ix) ident = Some e"
  shows "in_step key sel
           ((remove_secondary_indexes (ix\<lparr>entries := fmdrop ident (entries ix)\<rparr>) ident e)
              \<lparr>retained_bytes := n\<rparr>)"
  using assms
  by (auto simp: in_step_def sel_remove sel_entries sel_retained split: option.splits)

lemma remove_in_step: "in_step key sel ix \<Longrightarrow> in_step key sel (index_remove ix ident)"
  by (auto simp: index_remove_def Let_def drop_in_step split: option.split)

lemma replace_in_step: "in_step key sel ix \<Longrightarrow> in_step key sel (index_replace ix ident e)"
  by (auto simp: index_replace_def Let_def intro!: insert_in_step drop_in_step split: option.split)

lemma merge_in_step:
  assumes "in_step key sel ix"
  shows "in_step key sel (merge_pending_telemetry previous ix)"
proof -
  have "key (case fmlookup (entries previous) ident of None \<Rightarrow> e | Some p \<Rightarrow> carry_telemetry p e) = key e"
    for ident e
    by (simp add: key_carry split: option.split)
  then show ?thesis
    using assms by (auto simp: in_step_def merge_pending_telemetry_def sel_entries)
qed

lemma flushed_in_step:
  assumes "in_step key sel ix"
  shows "in_step key sel (mark_telemetry_flushed ix ident g)"
  using assms
  by (auto simp: in_step_def mark_telemetry_flushed_def sel_entries key_flushed split: option.splits)

end

interpretation requested: keyed_index requested_key by_requested
  by unfold_locales
    (simp_all add: add_secondary_indexes_def remove_secondary_indexes_def Let_def requested_key_def
      carry_telemetry_def split: option.split)

interpretation workspace: keyed_index "workspace_key w" "workspace_index w" for w
  by unfold_locales
    (auto simp: add_secondary_indexes_def remove_secondary_indexes_def Let_def workspace_key_def
      workspace_index_def carry_telemetry_def split: option.split)

interpretation deferred: keyed_index deferred_key deferred_by_created
  by unfold_locales
    (simp_all add: add_secondary_indexes_def remove_secondary_indexes_def Let_def deferred_key_def
      carry_telemetry_def split: option.split)

interpretation terminal: keyed_index terminal_key terminal_by_finished
  by unfold_locales
    (simp_all add: add_secondary_indexes_def remove_secondary_indexes_def Let_def terminal_key_def
      finished_key_def carry_telemetry_def split: option.split)

lemma no_empty_workspace_add:
  "(\<And>w. fmlookup (by_workspace ix) w \<noteq> Some {||}) \<Longrightarrow>
   fmlookup (by_workspace (add_secondary_indexes ix ident e)) w \<noteq> Some {||}"
  by (auto simp: add_secondary_indexes_def Let_def split: option.splits if_splits)

lemma no_empty_workspace_remove:
  "(\<And>w. fmlookup (by_workspace ix) w \<noteq> Some {||}) \<Longrightarrow>
   fmlookup (by_workspace (remove_secondary_indexes ix ident e)) w \<noteq> Some {||}"
  by (auto simp: remove_secondary_indexes_def Let_def split: option.splits if_splits)

lemma index_wf_default: "index_wf index_default"
  by (simp add: index_wf_def in_step_def index_default_def workspace_index_def)

lemma index_wf_insert:
  assumes "index_wf ix" and "fmlookup (entries ix) ident = None"
  shows "index_wf (index_insert ix ident e)"
proof -
  have "fmlookup (by_workspace (index_insert ix ident e)) w \<noteq> Some {||}" for w
    using assms(1) no_empty_workspace_add [of ix ident e w]
    by (simp add: index_wf_def index_insert_def Let_def)
  then show ?thesis
    using assms
    by (simp add: index_wf_def requested.insert_in_step workspace.insert_in_step
        deferred.insert_in_step terminal.insert_in_step)
qed

lemma index_wf_remove:
  assumes "index_wf ix"
  shows "index_wf (index_remove ix ident)"
proof -
  have "fmlookup (by_workspace (index_remove ix ident)) w \<noteq> Some {||}" for w
    using assms no_empty_workspace_remove [of "ix\<lparr>entries := fmdrop ident (entries ix)\<rparr>" ident _ w]
    by (auto simp: index_wf_def index_remove_def Let_def split: option.split)
  then show ?thesis
    using assms
    by (simp add: index_wf_def requested.remove_in_step workspace.remove_in_step
        deferred.remove_in_step terminal.remove_in_step)
qed

lemma index_replace_alt:
  "index_replace ix ident e =
     index_insert (index_remove ix ident) ident
       (case fmlookup (entries ix) ident of None \<Rightarrow> e | Some p \<Rightarrow> carry_telemetry p e)"
  by (simp add: index_replace_def index_remove_def Let_def split: option.split)

lemma fmdrop_None: "fmlookup m a = None \<Longrightarrow> fmdrop a m = m"
  by (rule fmap_ext) auto

lemma entries_remove [simp]: "entries (index_remove ix ident) = fmdrop ident (entries ix)"
  by (auto simp: index_remove_def Let_def fmdrop_None split: option.split)

lemma entries_insert [simp]: "entries (index_insert ix ident e) = fmupd ident e (entries ix)"
  by (simp add: index_insert_def Let_def)

lemma entries_replace [simp]:
  "fmlookup (entries (index_replace ix ident e)) j =
     (if j = ident
      then Some (case fmlookup (entries ix) ident of None \<Rightarrow> e | Some p \<Rightarrow> carry_telemetry p e)
      else fmlookup (entries ix) j)"
  by (simp add: index_replace_alt)

lemma index_wf_replace: "index_wf ix \<Longrightarrow> index_wf (index_replace ix ident e)"
  unfolding index_replace_alt by (rule index_wf_insert) (simp_all add: index_wf_remove)

lemma index_wf_merge: "index_wf ix \<Longrightarrow> index_wf (merge_pending_telemetry previous ix)"
  by (simp add: index_wf_def requested.merge_in_step workspace.merge_in_step
      deferred.merge_in_step terminal.merge_in_step)
    (simp add: merge_pending_telemetry_def)

lemma index_wf_flushed: "index_wf ix \<Longrightarrow> index_wf (mark_telemetry_flushed ix ident g)"
  by (simp add: index_wf_def requested.flushed_in_step workspace.flushed_in_step
      deferred.flushed_in_step terminal.flushed_in_step)
    (simp add: mark_telemetry_flushed_def split: option.split)

section \<open>Retained bytes\<close>

lemma finite_fmdom' [simp]: "finite (fmdom' m)"
  by (simp add: fmdom'_alt_def)

lemma total_insert:
  assumes "fmlookup (entries ix) ident = None"
  shows "total_retained (index_insert ix ident e) = total_retained ix + en_retained_bytes e"
proof -
  have "ident \<notin> fmdom' (entries ix)" using assms by (simp add: fmdom'_notI)
  then show ?thesis by (auto simp: total_retained_def intro!: sum.cong)
qed

lemma total_remove:
  assumes "fmlookup (entries ix) ident = Some e"
  shows "total_retained ix = total_retained (index_remove ix ident) + en_retained_bytes e"
proof -
  have "ident \<in> fmdom' (entries ix)" using assms by (simp add: fmdom'I)
  then show ?thesis
    using assms by (simp add: total_retained_def sum.remove [of _ ident])
qed

definition bytes_exact :: "index \<Rightarrow> bool" where
  "bytes_exact ix \<longleftrightarrow> retained_bytes ix = total_retained ix"

lemma bytes_exact_default: "bytes_exact index_default"
  by (simp add: bytes_exact_def index_default_def total_retained_def)

lemma bytes_exact_insert:
  assumes "bytes_exact ix" and "fmlookup (entries ix) ident = None"
    and "total_retained (index_insert ix ident e) \<le> u64_max"
  shows "bytes_exact (index_insert ix ident e)"
  using assms total_insert [OF assms(2), of e]
  by (simp add: bytes_exact_def sat_add_exact) (simp add: index_insert_def Let_def sat_add_exact)

lemma bytes_exact_remove: "bytes_exact ix \<Longrightarrow> bytes_exact (index_remove ix ident)"
  using total_remove [of ix ident]
  by (auto simp: bytes_exact_def index_remove_def Let_def total_retained_def fmdrop_None split: option.splits)

lemma bytes_exact_replace:
  assumes "bytes_exact ix" and "total_retained (index_replace ix ident e) \<le> u64_max"
  shows "bytes_exact (index_replace ix ident e)"
  using assms unfolding index_replace_alt
  by (intro bytes_exact_insert) (simp_all add: bytes_exact_remove)

text \<open>The index under a sequence of commits and removals.\<close>

datatype index_operation = Commit invocation_id index_entry | Remove invocation_id

fun run_index :: "index_operation list \<Rightarrow> index \<Rightarrow> index" where
  "run_index [] ix = ix"
| "run_index (Commit ident e # ops) ix = run_index ops (index_replace ix ident e)"
| "run_index (Remove ident # ops) ix = run_index ops (index_remove ix ident)"

text \<open>Whether the retained bytes fit their counter all along.\<close>

fun fits_u64 :: "index_operation list \<Rightarrow> index \<Rightarrow> bool" where
  "fits_u64 [] ix \<longleftrightarrow> total_retained ix \<le> u64_max"
| "fits_u64 (Commit ident e # ops) ix \<longleftrightarrow>
     total_retained ix \<le> u64_max \<and> fits_u64 ops (index_replace ix ident e)"
| "fits_u64 (Remove ident # ops) ix \<longleftrightarrow>
     total_retained ix \<le> u64_max \<and> fits_u64 ops (index_remove ix ident)"

lemma fits_u64_now: "fits_u64 ops ix \<Longrightarrow> total_retained ix \<le> u64_max"
  by (induction ops ix rule: fits_u64.induct) simp_all

lemma run_index_account:
  "fits_u64 ops ix \<Longrightarrow> index_wf ix \<Longrightarrow> bytes_exact ix \<Longrightarrow>
     index_wf (run_index ops ix) \<and> bytes_exact (run_index ops ix)"
  by (induction ops ix rule: run_index.induct)
    (auto simp: index_wf_replace index_wf_remove bytes_exact_remove
      intro: bytes_exact_replace dest: fits_u64_now)

text \<open>
  C10: Whatever invocations are committed, replaced and removed, the four secondary orders list
  exactly the entries they should, and the running total of retained bytes is the sum over the
  entries, as long as that sum fits 64 bits: the garbage collector never needs a scan.
\<close>

theorem index_account:
  assumes "fits_u64 ops index_default"
  shows "index_wf (run_index ops index_default) \<and>
    retained_bytes (run_index ops index_default) = total_retained (run_index ops index_default)"
  using run_index_account [OF assms index_wf_default bytes_exact_default] by (simp add: bytes_exact_def)

definition sample_entry :: "nat \<Rightarrow> index_entry" where
  "sample_entry n =
     index_entry_of
       \<lparr>schema_version = 1, invocation = header_of (queued (request_new 7 5 ''/w'' Build [])),
        deferred = None, payload_bytes = 0\<rparr> n"

theorem index_account_witness:
  "retained_bytes (run_index [Commit 7 (sample_entry 30), Commit 8 (sample_entry 12), Remove 7] index_default) =
   total_retained (run_index [Commit 7 (sample_entry 30), Commit 8 (sample_entry 12), Remove 7] index_default)"
proof -
  have t: "total_retained ix = (\<Sum>ident\<in>fset (fmdom (entries ix)).
      case fmlookup (entries ix) ident of None \<Rightarrow> 0 | Some e \<Rightarrow> en_retained_bytes e)" for ix
    by (simp add: total_retained_def fmdom'_alt_def)
  have "fits_u64 [Commit 7 (sample_entry 30), Commit 8 (sample_entry 12), Remove 7]
      index_default"
    by (simp add: t index_replace_alt index_default_def sample_entry_def index_entry_of_def
        carry_telemetry_def u64_max_def insert_Diff_if)
  then show ?thesis using index_account by blast
qed

end
