(* ===== verification/Store_Storage.thy ===== *)
theory Store_Storage
  imports Store_Index
begin

text \<open>
  The durable store, \<^verbatim>\<open>bazel-mcp-store/src/storage.rs\<close>, \<^verbatim>\<open>manifest_repository.rs\<close>,
  \<^verbatim>\<open>recovery.rs\<close>, \<^verbatim>\<open>telemetry.rs\<close>, \<^verbatim>\<open>deferred_repository.rs\<close>, \<^verbatim>\<open>metrics.rs\<close> and the
  coordination of \<^verbatim>\<open>coordination.rs\<close>, as operations on an explicit state: the files of every
  invocation, the trash, the locks, the change markers, and the in-memory index.

  An operation runs under the mutation lock of its invocation and is one step here. Files are
  present or missing; a missing file is reported as the code reports it, and other I/O errors
  are not modelled. Committing a file is atomic (\<^verbatim>\<open>write_bytes_atomic\<close> renames a complete
  temporary file).
\<close>

section \<open>Files, locks and the state of the store\<close>

datatype file_name =
    Manifest | Details | Stdout | Stderr | Evidence | Bep | Artifacts | TestLogsRaw
  | TestLogEvidence

datatype trash_name = TrashDir invocation_id | TrashEvidence invocation_id

type_synonym 'b directory = "(file_name, 'b) fmap"

record store_io_stats =
  manifest_commits :: nat
  manifest_bytes_written :: nat
  payload_recounts :: nat
  gc_renames :: nat
  gc_unlinks :: nat

record 'b store =
  st_dirs :: "(invocation_id, 'b directory) fmap"
  st_trash :: "(trash_name, 'b directory) fmap"
  st_foreign :: "invocation_id fset"
  st_leases :: "invocation_id fset"
  st_publisher :: nat
  st_changes :: "(nat, nat) fmap"
  st_observed :: "(nat, nat) fmap"
  st_next_check_us :: nat
  st_index :: index
  st_io :: store_io_stats

text \<open>What an operation reads from its environment: two clocks and a fresh change identifier.\<close>

record env =
  env_now_ms :: int
  env_now_us :: nat
  env_change :: nat

definition CHANGE_POLL_INTERVAL_US :: nat where
  "CHANGE_POLL_INTERVAL_US = 1000"

text \<open>Atomic counters wrap.\<close>

definition fetch_add :: "nat \<Rightarrow> nat \<Rightarrow> nat" where
  "fetch_add a b = (a + b) mod (u64_max + 1)"

definition record_manifest_commit :: "bool \<Rightarrow> store_io_stats \<Rightarrow> store_io_stats" where
  "record_manifest_commit recount io =
     (let io1 = io\<lparr>manifest_commits := fetch_add (manifest_commits io) 1\<rparr>
      in if recount then io1\<lparr>payload_recounts := fetch_add (payload_recounts io1) 1\<rparr> else io1)"

definition record_manifest_bytes :: "nat \<Rightarrow> store_io_stats \<Rightarrow> store_io_stats" where
  "record_manifest_bytes bytes io =
     io\<lparr>manifest_bytes_written := fetch_add (manifest_bytes_written io) bytes\<rparr>"

definition record_gc_rename :: "store_io_stats \<Rightarrow> store_io_stats" where
  "record_gc_rename io = io\<lparr>gc_renames := fetch_add (gc_renames io) 1\<rparr>"

definition record_gc_unlink :: "bool \<Rightarrow> store_io_stats \<Rightarrow> store_io_stats" where
  "record_gc_unlink succeeded io =
     (if succeeded then io\<lparr>gc_unlinks := fetch_add (gc_unlinks io) 1\<rparr> else io)"

section \<open>Manifests on disk\<close>

definition payload_files :: "file_name list" where
  "payload_files =
     [Details, Stdout, Stderr, Evidence, Bep, Artifacts, TestLogsRaw, TestLogEvidence]"

definition files_size :: "'b codec \<Rightarrow> 'b directory \<Rightarrow> file_name list \<Rightarrow> nat" where
  "files_size c dir names =
     fold (\<lambda>name size. case fmlookup dir name of
                         None \<Rightarrow> size | Some x \<Rightarrow> sat_add size (content_len c x)) names 0"

definition evidence_payload_size :: "'b codec \<Rightarrow> 'b directory \<Rightarrow> nat" where
  "evidence_payload_size c dir = files_size c dir payload_files"

definition evidence_size :: "'b codec \<Rightarrow> 'b directory \<Rightarrow> nat" where
  "evidence_size c dir = files_size c dir (Manifest # payload_files)"

text \<open>
  \<^verbatim>\<open>persist\<close>: recount the payload when asked to, then commit the manifest. The result is the
  record as written, the retained bytes, the manifest's length and the directory.
\<close>

definition persist ::
  "'b codec \<Rightarrow> durable_record \<Rightarrow> bool \<Rightarrow> 'b directory
     \<Rightarrow> durable_record \<times> nat \<times> nat \<times> 'b directory"
where
  "persist c durable recount dir =
     (let d1 = (if recount then durable\<lparr>payload_bytes := evidence_payload_size c dir\<rparr> else durable);
          bytes = enc_durable c d1;
          manifest_bytes = content_len c bytes
      in (d1, sat_add (payload_bytes d1) manifest_bytes, manifest_bytes,
          fmupd Manifest bytes dir))"

definition persist_durable ::
  "'b codec \<Rightarrow> invocation_id \<Rightarrow> durable_record \<Rightarrow> bool \<Rightarrow> 'b store
     \<Rightarrow> (durable_record \<times> nat, store_error) result \<times> 'b store"
where
  "persist_durable c ident durable recount st =
     (let st1 = st\<lparr>st_io := record_manifest_commit recount (st_io st)\<rparr>
      in case fmlookup (st_dirs st1) ident of
           None \<Rightarrow> (Inl (StoreIo NotFound), st1)
         | Some dir \<Rightarrow>
             (let (d1, retained, manifest_bytes, dir1) = persist c durable recount dir
              in (Inr (d1, retained),
                  st1\<lparr>st_dirs := fmupd ident dir1 (st_dirs st1),
                      st_io := record_manifest_bytes manifest_bytes (st_io st1)\<rparr>)))"

definition read_durable ::
  "'b codec \<Rightarrow> invocation_id \<Rightarrow> 'b store \<Rightarrow> (durable_record \<times> nat, store_error) result"
where
  "read_durable c ident st =
     (case fmlookup (st_dirs st) ident of
        None \<Rightarrow> Inl (StoreIo NotFound)
      | Some dir \<Rightarrow>
          (case fmlookup dir Manifest of
             None \<Rightarrow> Inl (StoreIo NotFound)
           | Some bytes \<Rightarrow>
               (case decode_manifest c bytes of
                  Inl e \<Rightarrow> Inl e
                | Inr d \<Rightarrow> Inr (d, content_len c bytes))))"

definition read_json_or_default ::
  "('b \<Rightarrow> 'a option) \<Rightarrow> 'a \<Rightarrow> 'b option \<Rightarrow> ('a, store_error) result"
where
  "read_json_or_default decode default_value file =
     (case file of
        None \<Rightarrow> Inr default_value
      | Some bytes \<Rightarrow>
          (case decode bytes of None \<Rightarrow> Inl JsonError | Some x \<Rightarrow> Inr x))"

definition write_details :: "'b codec \<Rightarrow> invocation_record \<Rightarrow> 'b directory \<Rightarrow> 'b directory" where
  "write_details c r dir =
     (let details = details_of r
      in if details_is_empty details then fmdrop Details dir
         else fmupd Details (enc_details c details) dir)"

definition write_artifacts :: "'b codec \<Rightarrow> artifact list \<Rightarrow> 'b directory \<Rightarrow> 'b directory" where
  "write_artifacts c artifacts dir =
     (if artifacts = [] then fmdrop Artifacts dir
      else fmupd Artifacts (enc_artifacts c artifacts) dir)"

text \<open>An update of the files of one invocation; its error when the directory is gone.\<close>

definition update_dir ::
  "invocation_id \<Rightarrow> ('b directory \<Rightarrow> 'b directory) \<Rightarrow> 'b store
     \<Rightarrow> (unit, store_error) result \<times> 'b store"
where
  "update_dir ident f st =
     (case fmlookup (st_dirs st) ident of
        None \<Rightarrow> (Inl (StoreIo NotFound), st)
      | Some dir \<Rightarrow> (Inr (), st\<lparr>st_dirs := fmupd ident (f dir) (st_dirs st)\<rparr>))"

section \<open>Changes and the refresh of the index\<close>

definition publish_change :: "env \<Rightarrow> 'b store \<Rightarrow> 'b store" where
  "publish_change env st =
     st\<lparr>st_changes := fmupd (st_publisher st) (env_change env) (st_changes st),
        st_observed := fmupd (st_publisher st) (env_change env) (st_observed st)\<rparr>"

definition claim_check :: "nat \<Rightarrow> 'b store \<Rightarrow> bool \<times> 'b store" where
  "claim_check now_us st =
     (if st_next_check_us st \<le> now_us
      then (True, st\<lparr>st_next_check_us := sat_add now_us CHANGE_POLL_INTERVAL_US\<rparr>)
      else (False, st))"

definition index_manifest_bytes ::
  "'b codec \<Rightarrow> invocation_id \<Rightarrow> 'b directory \<Rightarrow> 'b \<Rightarrow> index \<Rightarrow> (index, store_error) result"
where
  "index_manifest_bytes c ident dir bytes ix =
     (case decode_manifest c bytes of
        Inl e \<Rightarrow> Inl e
      | Inr durable \<Rightarrow>
          if req_id (hd_request (invocation durable)) \<noteq> ident
          then Inl (CorruptRecord ''record ID does not match directory'')
          else
            (let d1 = (if is_terminal (hd_state (invocation durable)) then durable
                       else durable\<lparr>payload_bytes := evidence_payload_size c dir\<rparr>);
                 retained = sat_add (payload_bytes d1) (content_len c bytes)
             in Inr (index_insert ix ident (index_entry_of d1 retained))))"

text \<open>
  The scan of the invocation directories. A directory without a manifest is the remains of an
  invocation that was never committed and is removed.
\<close>

fun load_loop ::
  "'b codec \<Rightarrow> invocation_id list \<Rightarrow> (invocation_id, 'b directory) fmap \<Rightarrow> index
     \<Rightarrow> (index, store_error) result \<times> (invocation_id, 'b directory) fmap"
where
  "load_loop c [] dirs ix = (Inr ix, dirs)"
| "load_loop c (ident # rest) dirs ix =
     (case fmlookup dirs ident of
        None \<Rightarrow> load_loop c rest dirs ix
      | Some dir \<Rightarrow>
          (case fmlookup dir Manifest of
             None \<Rightarrow> load_loop c rest (fmdrop ident dirs) ix
           | Some bytes \<Rightarrow>
               (case index_manifest_bytes c ident dir bytes ix of
                  Inl e \<Rightarrow> (Inl e, dirs)
                | Inr ix1 \<Rightarrow> load_loop c rest dirs ix1)))"

definition load_index ::
  "'b codec \<Rightarrow> (invocation_id, 'b directory) fmap
     \<Rightarrow> (index, store_error) result \<times> (invocation_id, 'b directory) fmap"
where
  "load_index c dirs = load_loop c (sorted_list_of_fset (fmdom dirs)) dirs index_default"

definition refresh_index :: "'b codec \<Rightarrow> bool \<Rightarrow> 'b store \<Rightarrow> (unit, store_error) result \<times> 'b store" where
  "refresh_index c force st =
     (if \<not> force \<and> st_changes st = st_observed st then (Inr (), st)
      else case load_index c (st_dirs st) of
             (Inl e, dirs) \<Rightarrow> (Inl e, st\<lparr>st_dirs := dirs\<rparr>)
           | (Inr refreshed, dirs) \<Rightarrow>
               (Inr (), st\<lparr>st_dirs := dirs,
                           st_index := replace_from_disk (st_index st) refreshed,
                           st_observed := st_changes st\<rparr>))"

definition refresh_index_if_stale ::
  "'b codec \<Rightarrow> env \<Rightarrow> 'b store \<Rightarrow> (unit, store_error) result \<times> 'b store"
where
  "refresh_index_if_stale c env st =
     (case claim_check (env_now_us env) st of
        (False, st1) \<Rightarrow> (Inr (), st1)
      | (True, st1) \<Rightarrow> refresh_index c False st1)"

definition ensure_invocation ::
  "'b codec \<Rightarrow> env \<Rightarrow> invocation_id \<Rightarrow> 'b store \<Rightarrow> (unit, store_error) result \<times> 'b store"
where
  "ensure_invocation c env ident st =
     (case refresh_index_if_stale c env st of
        (Inl e, st1) \<Rightarrow> (Inl e, st1)
      | (Inr _, st1) \<Rightarrow>
          if fmlookup (entries (st_index st1)) ident \<noteq> None then (Inr (), st1)
          else case refresh_index c False st1 of
                 (Inl e, st2) \<Rightarrow> (Inl e, st2)
               | (Inr _, st2) \<Rightarrow> (ensure_exists (st_index st2) ident, st2))"

section \<open>Operations on invocations\<close>

definition acquire_owner :: "invocation_id \<Rightarrow> 'b store \<Rightarrow> (unit, store_error) result" where
  "acquire_owner ident st =
     (if ident |\<in>| st_foreign st \<or> ident |\<in>| st_leases st then Inl (StoreIo AlreadyExists)
      else Inr ())"

definition release_owner :: "invocation_id \<Rightarrow> 'b store \<Rightarrow> 'b store" where
  "release_owner ident st = st\<lparr>st_leases := st_leases st |-| {|ident|}\<rparr>"

definition create_invocation_with_deferred ::
  "'b codec \<Rightarrow> env \<Rightarrow> invocation_record \<Rightarrow> deferred_record option \<Rightarrow> 'b store
     \<Rightarrow> (unit, store_error) result \<times> 'b store"
where
  "create_invocation_with_deferred c env r dfr st =
     (case refresh_index_if_stale c env st of
        (Inl e, st1) \<Rightarrow> (Inl e, st1)
      | (Inr _, st1) \<Rightarrow>
          (let ident = req_id (request r)
           in if fmlookup (entries (st_index st1)) ident \<noteq> None
              then (Inl (StoreIo AlreadyExists), st1)
              else
                case (if is_terminal (state r) then Inr () else acquire_owner ident st1) of
                  Inl e \<Rightarrow> (Inl e, st1)
                | Inr _ \<Rightarrow>
                    if fmlookup (st_dirs st1) ident \<noteq> None
                    then (Inl (StoreIo AlreadyExists), st1)
                    else
                      (let st2 = st1\<lparr>st_dirs := fmupd ident fmempty (st_dirs st1)\<rparr>;
                           durable = \<lparr>schema_version = CURRENT_SCHEMA_VERSION,
                                      invocation = header_of r, deferred = dfr,
                                      payload_bytes = 0\<rparr>
                       in case persist_durable c ident durable True st2 of
                            (Inl e, st3) \<Rightarrow>
                              (Inl e, st3\<lparr>st_dirs := fmdrop ident (st_dirs st3)\<rparr>)
                          | (Inr (d1, retained), st3) \<Rightarrow>
                              (let st4 = publish_change env st3;
                                   st5 = st4\<lparr>st_index :=
                                               index_insert (st_index st4) ident
                                                 (index_entry_of d1 retained)\<rparr>
                               in (Inr (),
                                   if is_terminal (state r) then st5
                                   else st5\<lparr>st_leases := finsert ident (st_leases st5)\<rparr>)))))"

definition transition_lost_evidence ::
  "env \<Rightarrow> index \<Rightarrow> invocation_id \<Rightarrow> invocation_state \<Rightarrow> termination_kind option
     \<Rightarrow> invocation_summary option \<Rightarrow> (invocation_record, store_error) result \<times> index"
where
  "transition_lost_evidence env ix ident next terminated summ =
     (case fmlookup (entries ix) ident of
        None \<Rightarrow> (Inl (NotFoundError ident), ix)
      | Some e \<Rightarrow>
          (case transition (env_now_ms env) next (into_record (en_record e)) of
             Inl err \<Rightarrow> (Inl (StateError err), ix)
           | Inr r \<Rightarrow>
               (let r1 = r\<lparr>rec_termination := terminated, summary := summ\<rparr>
                in (Inr r1,
                    index_replace ix ident
                      \<lparr>en_record = header_of r1, en_deferred = None, en_retained_bytes = 0,
                       telemetry_generation = 0, telemetry_flush_scheduled = False\<rparr>))))"

text \<open>The fallback of \<^verbatim>\<open>transition\<close> when the evidence of the invocation is gone.\<close>

definition transition_lost ::
  "env \<Rightarrow> invocation_id \<Rightarrow> invocation_state \<Rightarrow> termination_kind option \<Rightarrow> invocation_summary option
     \<Rightarrow> 'b store \<Rightarrow> (invocation_record, store_error) result \<times> 'b store"
where
  "transition_lost env ident next terminated summ st =
     (let (result, ix) = transition_lost_evidence env (st_index st) ident next terminated summ;
          st1 = st\<lparr>st_index := ix\<rparr>
      in (result, if is_terminal next then release_owner ident st1 else st1))"

definition finished_or_now :: "env \<Rightarrow> invocation_record \<Rightarrow> int" where
  "finished_or_now env r = (case finished_at_ms r of Some t \<Rightarrow> t | None \<Rightarrow> env_now_ms env)"

definition extend_deferred :: "int \<Rightarrow> deferred_record option \<Rightarrow> deferred_record option" where
  "extend_deferred terminal_at = map_option (\<lambda>d. snd (extend_terminal_expiry terminal_at d))"

definition store_transition ::
  "'b codec \<Rightarrow> env \<Rightarrow> invocation_id \<Rightarrow> invocation_state \<Rightarrow> termination_kind option
     \<Rightarrow> invocation_summary option \<Rightarrow> 'b store
     \<Rightarrow> (invocation_record, store_error) result \<times> 'b store"
where
  "store_transition c env ident next terminated summ st =
     (case ensure_invocation c env ident st of
        (Inl e, st1) \<Rightarrow> (Inl e, st1)
      | (Inr _, st1) \<Rightarrow>
          (case read_durable c ident st1 of
             Inl e \<Rightarrow>
               if e = StoreIo NotFound then transition_lost env ident next terminated summ st1
               else (Inl e, st1)
           | Inr (durable, _) \<Rightarrow>
               (let (generation, merged) =
                      merge_index_telemetry (st_index st1) ident (hd_metrics (invocation durable));
                    d1 = durable\<lparr>invocation := (invocation durable)\<lparr>hd_metrics := merged\<rparr>\<rparr>
                in case transition (env_now_ms env) next (into_record (invocation d1)) of
                     Inl err \<Rightarrow> (Inl (StateError err), st1)
                   | Inr r \<Rightarrow>
                       (let r1 = r\<lparr>rec_termination := terminated, summary := summ\<rparr>;
                            d2 = (if is_terminal next
                                  then d1\<lparr>deferred :=
                                            extend_deferred (finished_or_now env r1) (deferred d1)\<rparr>
                                  else d1);
                            d3 = d2\<lparr>invocation := header_of r1\<rparr>;
                            (wrote, st2) =
                              (if is_terminal next then update_dir ident (write_details c r1) st1
                               else (Inr (), st1))
                        in case wrote of
                             Inl e \<Rightarrow> (Inl e, st2)
                           | Inr _ \<Rightarrow>
                               (case persist_durable c ident d3 (is_terminal next) st2 of
                                  (Inl e, st3) \<Rightarrow>
                                    if e = StoreIo NotFound
                                    then transition_lost env ident next terminated summ st3
                                    else (Inl e, st3)
                                | (Inr (d4, retained), st3) \<Rightarrow>
                                    (let st4 = publish_change env st3;
                                         ix = mark_telemetry_flushed
                                                (index_replace (st_index st4) ident
                                                   (index_entry_of d4 retained))
                                                ident generation;
                                         st5 = st4\<lparr>st_index := ix\<rparr>
                                     in (Inr r1,
                                         if is_terminal next then release_owner ident st5
                                         else st5)))))))"

record invocation_completion =
  co_state :: invocation_state
  co_termination :: termination_kind
  co_summary :: invocation_summary
  co_run :: "run_summary option"
  co_metrics :: invocation_metrics
  co_canonical_arguments :: "string list option"
  co_artifacts :: "artifact list"

definition get_invocation_header ::
  "'b codec \<Rightarrow> env \<Rightarrow> invocation_id \<Rightarrow> 'b store
     \<Rightarrow> (invocation_header, store_error) result \<times> 'b store"
where
  "get_invocation_header c env ident st =
     (case ensure_invocation c env ident st of
        (Inl e, st1) \<Rightarrow> (Inl e, st1)
      | (Inr _, st1) \<Rightarrow>
          (case fmlookup (entries (st_index st1)) ident of
             None \<Rightarrow> (Inl (NotFoundError ident), st1)
           | Some e \<Rightarrow> (Inr (en_record e), st1)))"

definition finish_invocation ::
  "'b codec \<Rightarrow> env \<Rightarrow> invocation_id \<Rightarrow> invocation_completion \<Rightarrow> 'b store
     \<Rightarrow> (invocation_record, store_error) result \<times> 'b store"
where
  "finish_invocation c env ident co st =
     (if \<not> is_terminal (co_state co)
      then case get_invocation_header c env ident st of
             (Inl e, st1) \<Rightarrow> (Inl e, st1)
           | (Inr h, st1) \<Rightarrow>
               (Inl (StateError \<lparr>ste_current = hd_state h, ste_next = co_state co\<rparr>), st1)
      else
        case ensure_invocation c env ident st of
          (Inl e, st1) \<Rightarrow> (Inl e, st1)
        | (Inr _, st1) \<Rightarrow>
            (case read_durable c ident st1 of
               Inl e \<Rightarrow> (Inl e, st1)
             | Inr (durable, _) \<Rightarrow>
                 (case transition (env_now_ms env) (co_state co) (into_record (invocation durable)) of
                    Inl err \<Rightarrow> (Inl (StateError err), st1)
                  | Inr r \<Rightarrow>
                      (let (generation, merged) =
                             merge_index_telemetry (st_index st1) ident (co_metrics co);
                           r1 = r\<lparr>rec_termination := Some (co_termination co),
                                  summary := Some (co_summary co), run := co_run co,
                                  metrics := merged,
                                  canonical_arguments := co_canonical_arguments co\<rparr>;
                           d1 = durable\<lparr>deferred :=
                                   extend_deferred (finished_or_now env r1) (deferred durable),
                                 invocation := header_of r1\<rparr>;
                           (wrote, st2) =
                             update_dir ident
                               (\<lambda>dir. write_details c r1 (write_artifacts c (co_artifacts co) dir)) st1
                       in case wrote of
                            Inl e \<Rightarrow> (Inl e, st2)
                          | Inr _ \<Rightarrow>
                              (case persist_durable c ident d1 True st2 of
                                 (Inl e, st3) \<Rightarrow> (Inl e, st3)
                               | (Inr (d2, retained), st3) \<Rightarrow>
                                   (let st4 = publish_change env st3;
                                        ix = mark_telemetry_flushed
                                               (index_replace (st_index st4) ident
                                                  (index_entry_of d2 retained))
                                               ident generation
                                    in (Inr r1, release_owner ident (st4\<lparr>st_index := ix\<rparr>))))))))"

text \<open>
  \<^verbatim>\<open>mutate\<close> applies an operation to the durable record and commits the result.
\<close>

definition mutate ::
  "'b codec \<Rightarrow> env \<Rightarrow> invocation_id \<Rightarrow> bool
     \<Rightarrow> (durable_record \<Rightarrow> (durable_record, store_error) result) \<Rightarrow> 'b store
     \<Rightarrow> (unit, store_error) result \<times> 'b store"
where
  "mutate c env ident recount operation st =
     (case ensure_invocation c env ident st of
        (Inl e, st1) \<Rightarrow> (Inl e, st1)
      | (Inr _, st1) \<Rightarrow>
          (case read_durable c ident st1 of
             Inl e \<Rightarrow> (Inl e, st1)
           | Inr (durable, _) \<Rightarrow>
               (let (generation, merged) =
                      merge_index_telemetry (st_index st1) ident (hd_metrics (invocation durable));
                    d1 = durable\<lparr>invocation := (invocation durable)\<lparr>hd_metrics := merged\<rparr>\<rparr>
                in case operation d1 of
                     Inl e \<Rightarrow> (Inl e, st1)
                   | Inr d2 \<Rightarrow>
                       (case persist_durable c ident d2 recount st1 of
                          (Inl e, st2) \<Rightarrow> (Inl e, st2)
                        | (Inr (d3, retained), st2) \<Rightarrow>
                            (let st3 = publish_change env st2;
                                 ix = mark_telemetry_flushed
                                        (index_replace (st_index st3) ident
                                           (index_entry_of d3 retained))
                                        ident generation
                             in (Inr (), st3\<lparr>st_index := ix\<rparr>))))))"

definition update_cancellation_reason ::
  "'b codec \<Rightarrow> env \<Rightarrow> invocation_id \<Rightarrow> string \<Rightarrow> 'b store
     \<Rightarrow> (unit, store_error) result \<times> 'b store"
where
  "update_cancellation_reason c env ident reason =
     mutate c env ident False
       (\<lambda>d. Inr (d\<lparr>invocation := (invocation d)\<lparr>hd_cancellation_reason := Some reason\<rparr>\<rparr>))"

definition replace_artifacts ::
  "'b codec \<Rightarrow> env \<Rightarrow> invocation_id \<Rightarrow> artifact list \<Rightarrow> 'b store
     \<Rightarrow> (unit, store_error) result \<times> 'b store"
where
  "replace_artifacts c env ident artifacts st =
     (case ensure_invocation c env ident st of
        (Inl e, st1) \<Rightarrow> (Inl e, st1)
      | (Inr _, st1) \<Rightarrow>
          (let (wrote, st2) =
                 (if artifacts = [] \<and> fmlookup (st_dirs st1) ident = None then (Inr (), st1)
                  else update_dir ident (write_artifacts c artifacts) st1)
           in case wrote of
                Inl e \<Rightarrow> (Inl e, st2)
              | Inr _ \<Rightarrow>
                  (case read_durable c ident st2 of
                     Inl e \<Rightarrow> (Inl e, st2)
                   | Inr (durable, _) \<Rightarrow>
                       (case persist_durable c ident durable True st2 of
                          (Inl e, st3) \<Rightarrow> (Inl e, st3)
                        | (Inr (d1, retained), st3) \<Rightarrow>
                            (let st4 = publish_change env st3
                             in (Inr (),
                                 st4\<lparr>st_index :=
                                       index_replace (st_index st4) ident
                                         (index_entry_of d1 retained)\<rparr>))))))"

definition read_hydrated_invocation ::
  "'b codec \<Rightarrow> env \<Rightarrow> invocation_id \<Rightarrow> 'b store
     \<Rightarrow> (hydrated_invocation, store_error) result \<times> 'b store"
where
  "read_hydrated_invocation c env ident st =
     (case ensure_invocation c env ident st of
        (Inl e, st1) \<Rightarrow> (Inl e, st1)
      | (Inr _, st1) \<Rightarrow>
          (case read_durable c ident st1 of
             Inl e \<Rightarrow> (Inl e, st1)
           | Inr (durable, _) \<Rightarrow>
               (case read_json_or_default (dec_details c) details_default
                       (Option.bind (fmlookup (st_dirs st1) ident) (\<lambda>dir. fmlookup dir Details)) of
                  Inl e \<Rightarrow> (Inl e, st1)
                | Inr details \<Rightarrow>
                    (Inr \<lparr>hy_header = invocation durable, hy_details = details\<rparr>, st1))))"

definition get_invocation ::
  "'b codec \<Rightarrow> env \<Rightarrow> invocation_id \<Rightarrow> 'b store
     \<Rightarrow> (invocation_record, store_error) result \<times> 'b store"
where
  "get_invocation c env ident st =
     (case read_hydrated_invocation c env ident st of
        (Inl e, st1) \<Rightarrow> (Inl e, st1)
      | (Inr h, st1) \<Rightarrow> (Inr (hydrated_into_record h), st1))"

section \<open>Deferred results\<close>

definition with_deferred ::
  "invocation_id \<Rightarrow> (deferred_record \<Rightarrow> deferred_record) \<Rightarrow> durable_record
     \<Rightarrow> (durable_record, store_error) result"
where
  "with_deferred ident f durable =
     (case deferred durable of
        None \<Rightarrow> Inl (DeferredNotFound ident)
      | Some d \<Rightarrow> Inr (durable\<lparr>deferred := Some (f d)\<rparr>))"

definition record_deferred_cancellation ::
  "'b codec \<Rightarrow> env \<Rightarrow> invocation_id \<Rightarrow> int \<Rightarrow> 'b store \<Rightarrow> (unit, store_error) result \<times> 'b store"
where
  "record_deferred_cancellation c env ident requested_at =
     mutate c env ident False
       (with_deferred ident
          (\<lambda>d. d\<lparr>dr_cancellation_requested_at_ms :=
                   (case dr_cancellation_requested_at_ms d of
                      None \<Rightarrow> Some requested_at | Some t \<Rightarrow> Some t),
                 dr_updated_at_ms := max (dr_updated_at_ms d) requested_at\<rparr>))"

definition set_deferred_terminal_override ::
  "'b codec \<Rightarrow> env \<Rightarrow> invocation_id \<Rightarrow> deferred_terminal_state \<Rightarrow> int \<Rightarrow> 'b store
     \<Rightarrow> (unit, store_error) result \<times> 'b store"
where
  "set_deferred_terminal_override c env ident terminal_state updated_at =
     mutate c env ident False
       (with_deferred ident
          (\<lambda>d. d\<lparr>dr_terminal_override := Some terminal_state,
                 dr_updated_at_ms := max (dr_updated_at_ms d) updated_at\<rparr>))"

definition persist_deferred_failure ::
  "'b codec \<Rightarrow> env \<Rightarrow> invocation_id \<Rightarrow> deferred_failure \<Rightarrow> int \<Rightarrow> 'b store
     \<Rightarrow> (unit, store_error) result \<times> 'b store"
where
  "persist_deferred_failure c env ident failure updated_at =
     mutate c env ident False
       (with_deferred ident
          (\<lambda>d. d\<lparr>dr_failure := Some failure,
                 dr_updated_at_ms := max (dr_updated_at_ms d) updated_at\<rparr>))"

definition extend_deferred_expiry ::
  "'b codec \<Rightarrow> env \<Rightarrow> invocation_id \<Rightarrow> int \<Rightarrow> int \<Rightarrow> 'b store
     \<Rightarrow> (unit, store_error) result \<times> 'b store"
where
  "extend_deferred_expiry c env ident minimum_expires_at updated_at =
     mutate c env ident False
       (with_deferred ident
          (\<lambda>d. d\<lparr>dr_expires_at_ms := max (dr_expires_at_ms d) minimum_expires_at,
                 dr_updated_at_ms := max (dr_updated_at_ms d) updated_at\<rparr>))"

record deferred_view =
  dv_deferred :: deferred_record
  dv_invocation :: invocation_record

definition get_deferred_result ::
  "'b codec \<Rightarrow> env \<Rightarrow> invocation_id \<Rightarrow> deferred_retrieval \<Rightarrow> int \<Rightarrow> 'b store
     \<Rightarrow> (deferred_view, store_error) result \<times> 'b store"
where
  "get_deferred_result c env ident retrieval now st =
     (case ensure_invocation c env ident st of
        (Inl e, st1) \<Rightarrow> (Inl e, st1)
      | (Inr _, st1) \<Rightarrow>
          (case fmlookup (entries (st_index st1)) ident of
             None \<Rightarrow> (Inl (NotFoundError ident), st1)
           | Some entry \<Rightarrow>
               (case en_deferred entry of
                  None \<Rightarrow> (Inl (DeferredNotFound ident), st1)
                | Some d \<Rightarrow>
                    (let terminal = is_terminal (hd_state (en_record entry));
                         expired = is_expired now terminal d
                     in if dr_retrieval d \<noteq> retrieval \<or> expired
                        then if expired
                             then case mutate c env ident False (\<lambda>d. Inr (d\<lparr>deferred := None\<rparr>)) st1 of
                                    (Inl e, st2) \<Rightarrow> (Inl e, st2)
                                  | (Inr _, st2) \<Rightarrow> (Inl (DeferredNotFound ident), st2)
                             else (Inl (DeferredNotFound ident), st1)
                        else if terminal
                             then case read_hydrated_invocation c env ident st1 of
                                    (Inl e, st2) \<Rightarrow> (Inl e, st2)
                                  | (Inr h, st2) \<Rightarrow>
                                      (Inr \<lparr>dv_deferred = d, dv_invocation = hydrated_into_record h\<rparr>, st2)
                             else (Inr \<lparr>dv_deferred = d,
                                        dv_invocation = into_record (en_record entry)\<rparr>, st1)))))"

text \<open>The closure of \<^verbatim>\<open>delete_expired_deferred_results\<close>.\<close>

definition drop_expired :: "int \<Rightarrow> durable_record \<Rightarrow> durable_record" where
  "drop_expired now durable =
     (case deferred durable of
        None \<Rightarrow> durable
      | Some d \<Rightarrow>
          if is_expired now (is_terminal (hd_state (invocation durable))) d
          then durable\<lparr>deferred := None\<rparr> else durable)"

fun delete_expired_loop ::
  "'b codec \<Rightarrow> env \<Rightarrow> int \<Rightarrow> invocation_id list \<Rightarrow> 'b store
     \<Rightarrow> (unit, store_error) result \<times> 'b store"
where
  "delete_expired_loop c env now [] st = (Inr (), st)"
| "delete_expired_loop c env now (ident # rest) st =
     (case mutate c env ident False (\<lambda>d. Inr (drop_expired now d)) st of
        (Inl e, st1) \<Rightarrow> (Inl e, st1)
      | (Inr _, st1) \<Rightarrow> delete_expired_loop c env now rest st1)"

definition expired_deferred_ids :: "int \<Rightarrow> index \<Rightarrow> invocation_id list" where
  "expired_deferred_ids now ix =
     filter
       (\<lambda>ident. case fmlookup (entries ix) ident of
                  None \<Rightarrow> False
                | Some e \<Rightarrow>
                    (case en_deferred e of
                       None \<Rightarrow> False
                     | Some d \<Rightarrow> is_expired now (is_terminal (hd_state (en_record e))) d))
       (sorted_list_of_fset (fmdom (entries ix)))"

definition delete_expired_deferred_results ::
  "'b codec \<Rightarrow> env \<Rightarrow> int \<Rightarrow> 'b store \<Rightarrow> (unit, store_error) result \<times> 'b store"
where
  "delete_expired_deferred_results c env now st =
     (case refresh_index_if_stale c env st of
        (Inl e, st1) \<Rightarrow> (Inl e, st1)
      | (Inr _, st1) \<Rightarrow>
          delete_expired_loop c env now (expired_deferred_ids now (st_index st1)) st1)"

section \<open>Telemetry\<close>

definition mark_dirty :: "index_entry \<Rightarrow> bool \<times> index_entry" where
  "mark_dirty e =
     (let e1 = e\<lparr>telemetry_generation := sat_add (telemetry_generation e) 1\<rparr>
      in if telemetry_flush_scheduled e1 then (False, e1)
         else (True, e1\<lparr>telemetry_flush_scheduled := True\<rparr>))"

definition record_model_visible :: "nat \<Rightarrow> bool \<Rightarrow> index_entry \<Rightarrow> bool \<times> index_entry" where
  "record_model_visible bytes inspection e =
     (let m = hd_metrics (en_record e);
          m1 = m\<lparr>model_visible_bytes := sat_add (model_visible_bytes m) bytes\<rparr>;
          m2 = (if inspection then m1\<lparr>inspect_calls := sat_add (inspect_calls m1) 1\<rparr> else m1)
      in mark_dirty (e\<lparr>en_record := (en_record e)\<lparr>hd_metrics := m2\<rparr>\<rparr>))"

definition record_progress :: "nat \<Rightarrow> index_entry \<Rightarrow> bool \<times> index_entry" where
  "record_progress count e =
     (let m = hd_metrics (en_record e);
          m1 = m\<lparr>progress_notifications := sat_add (progress_notifications m) count\<rparr>
      in mark_dirty (e\<lparr>en_record := (en_record e)\<lparr>hd_metrics := m1\<rparr>\<rparr>))"

text \<open>
  The two recording operations; the flag of the result tells that a flush is to be scheduled.
\<close>

definition record_telemetry ::
  "'b codec \<Rightarrow> env \<Rightarrow> invocation_id \<Rightarrow> (index_entry \<Rightarrow> bool \<times> index_entry) \<Rightarrow> 'b store
     \<Rightarrow> (bool, store_error) result \<times> 'b store"
where
  "record_telemetry c env ident f st =
     (case refresh_index_if_stale c env st of
        (Inl e, st1) \<Rightarrow> (Inl e, st1)
      | (Inr _, st1) \<Rightarrow>
          (case fmlookup (entries (st_index st1)) ident of
             None \<Rightarrow> (Inl (NotFoundError ident), st1)
           | Some entry \<Rightarrow>
               (let (schedule, entry1) = f entry
                in (Inr schedule,
                    st1\<lparr>st_index :=
                          (st_index st1)\<lparr>entries := fmupd ident entry1 (entries (st_index st1))\<rparr>\<rparr>))))"

definition record_model_visible_result ::
  "'b codec \<Rightarrow> env \<Rightarrow> invocation_id \<Rightarrow> nat \<Rightarrow> bool \<Rightarrow> 'b store
     \<Rightarrow> (bool, store_error) result \<times> 'b store"
where
  "record_model_visible_result c env ident bytes inspection =
     record_telemetry c env ident (record_model_visible bytes inspection)"

definition record_progress_notifications ::
  "'b codec \<Rightarrow> env \<Rightarrow> invocation_id \<Rightarrow> nat \<Rightarrow> 'b store \<Rightarrow> (bool, store_error) result \<times> 'b store"
where
  "record_progress_notifications c env ident count =
     record_telemetry c env ident (record_progress count)"

definition flush_telemetry_once ::
  "'b codec \<Rightarrow> env \<Rightarrow> invocation_id \<Rightarrow> 'b store \<Rightarrow> (bool, store_error) result \<times> 'b store"
where
  "flush_telemetry_once c env ident st =
     (case refresh_index_if_stale c env st of
        (Inl e, st1) \<Rightarrow> (Inl e, st1)
      | (Inr _, st1) \<Rightarrow>
          (case fmlookup (entries (st_index st1)) ident of
             None \<Rightarrow> (Inr True, st1)
           | Some entry \<Rightarrow>
               if \<not> telemetry_flush_scheduled entry then (Inr True, st1)
               else
                 (case read_durable c ident st1 of
                    Inl e \<Rightarrow> (Inl e, st1)
                  | Inr (durable, _) \<Rightarrow>
                      (let merged = merge_telemetry (hd_metrics (en_record entry))
                                      (hd_metrics (invocation durable));
                           d1 = durable\<lparr>invocation := (invocation durable)\<lparr>hd_metrics := merged\<rparr>\<rparr>
                       in case persist_durable c ident d1 False st1 of
                            (Inl e, st2) \<Rightarrow> (Inl e, st2)
                          | (Inr (_, retained), st2) \<Rightarrow>
                              (let st3 = publish_change env st2;
                                   ix = st_index st3
                               in case fmlookup (entries ix) ident of
                                    None \<Rightarrow> (Inr True, st3)
                                  | Some e1 \<Rightarrow>
                                      (let clean = (telemetry_generation e1 = telemetry_generation entry);
                                           e2 = e1\<lparr>en_retained_bytes := retained,
                                                    telemetry_flush_scheduled :=
                                                      (if clean then False
                                                       else telemetry_flush_scheduled e1)\<rparr>;
                                           ix1 = ix\<lparr>entries := fmupd ident e2 (entries ix),
                                                    retained_bytes :=
                                                      sat_add (sat_sub (retained_bytes ix)
                                                                 (en_retained_bytes e1)) retained\<rparr>
                                       in (Inr clean, st3\<lparr>st_index := ix1\<rparr>)))))))"

section \<open>Recovery\<close>

definition interrupted_headline :: string where
  "interrupted_headline = ''Invocation was interrupted when the previous server stopped''"

definition summary_default :: invocation_summary where
  "summary_default =
     \<lparr>sum_success = False, sum_headline = '''', sum_targets = [],
      sum_target_counts = \<lparr>tgt_requested = 0, tgt_succeeded = 0, tgt_failed = 0\<rparr>,
      sum_diagnostics = [], sum_tests = [],
      sum_test_counts = \<lparr>tc_passed = 0, tc_failed = 0, tc_flaky = 0, tc_skipped = 0, tc_incomplete = 0\<rparr>,
      sum_coverage = None, sum_query_sample = [], sum_query_result_count = None,
      sum_elapsed_ms = 0, sum_truncated = False, sum_inspect_hint = None\<rparr>"

definition interrupted_record :: "env \<Rightarrow> invocation_header \<Rightarrow> invocation_record" where
  "interrupted_record env h =
     (into_record h)\<lparr>state := Interrupted, finished_at_ms := Some (env_now_ms env),
        rec_termination := Some InterruptedTermination,
        summary := Some (summary_default\<lparr>sum_success := False,
                           sum_headline := interrupted_headline, sum_truncated := True,
                           sum_inspect_hint := Some HintLog\<rparr>)\<rparr>"

text \<open>
  The body of the loop of \<^verbatim>\<open>recover_ids\<close>: an invocation whose owner lock is free belonged to a
  process that stopped.
\<close>

definition recover_one ::
  "'b codec \<Rightarrow> env \<Rightarrow> invocation_id \<Rightarrow> 'b store
     \<Rightarrow> (index_entry option, store_error) result \<times> 'b store"
where
  "recover_one c env ident st =
     (if ident |\<in>| st_foreign st \<or> ident |\<in>| st_leases st then (Inr None, st)
      else
        case read_durable c ident st of
          Inl e \<Rightarrow> if e = StoreIo NotFound then (Inr None, st) else (Inl e, st)
        | Inr (durable, manifest_bytes) \<Rightarrow>
            if is_terminal (hd_state (invocation durable))
            then (Inr (Some (index_entry_of durable
                               (sat_add (payload_bytes durable) manifest_bytes))), st)
            else
              (let r = interrupted_record env (invocation durable);
                   d1 = durable\<lparr>deferred := extend_deferred (finished_or_now env r) (deferred durable),
                                invocation := header_of r\<rparr>
               in case fmlookup (st_dirs st) ident of
                    None \<Rightarrow> (Inl (StoreIo NotFound), st)
                  | Some dir \<Rightarrow>
                      (let (d2, retained, _, dir2) = persist c d1 True (write_details c r dir)
                       in (Inr (Some (index_entry_of d2 retained)),
                           st\<lparr>st_dirs := fmupd ident dir2 (st_dirs st)\<rparr>))))"

fun recover_ids ::
  "'b codec \<Rightarrow> env \<Rightarrow> invocation_id list \<Rightarrow> 'b store
     \<Rightarrow> ((invocation_id \<times> index_entry) list, store_error) result \<times> 'b store"
where
  "recover_ids c env [] st = (Inr [], st)"
| "recover_ids c env (ident # rest) st =
     (case recover_one c env ident st of
        (Inl e, st1) \<Rightarrow> (Inl e, st1)
      | (Inr None, st1) \<Rightarrow> recover_ids c env rest st1
      | (Inr (Some entry), st1) \<Rightarrow>
          (case recover_ids c env rest st1 of
             (Inl e, st2) \<Rightarrow> (Inl e, st2)
           | (Inr recovered, st2) \<Rightarrow> (Inr ((ident, entry) # recovered), st2)))"

definition nonterminal_ids :: "index \<Rightarrow> invocation_id list" where
  "nonterminal_ids ix =
     filter
       (\<lambda>ident. case fmlookup (entries ix) ident of
                  None \<Rightarrow> False | Some e \<Rightarrow> \<not> is_terminal (hd_state (en_record e)))
       (sorted_list_of_fset (fmdom (entries ix)))"

definition replace_recovered :: "(invocation_id \<times> index_entry) list \<Rightarrow> index \<Rightarrow> index" where
  "replace_recovered recovered ix = fold (\<lambda>(ident, e) ix. index_replace ix ident e) recovered ix"

definition recover_orphaned_invocations ::
  "'b codec \<Rightarrow> env \<Rightarrow> 'b store \<Rightarrow> (nat, store_error) result \<times> 'b store"
where
  "recover_orphaned_invocations c env st =
     (case recover_ids c env (nonterminal_ids (st_index st)) st of
        (Inl e, st1) \<Rightarrow> (Inl e, st1)
      | (Inr recovered, st1) \<Rightarrow>
          if recovered = [] then (Inr 0, st1)
          else (Inr (length recovered),
                publish_change env
                  (st1\<lparr>st_index := replace_recovered recovered (st_index st1)\<rparr>)))"

text \<open>The change markers of publishers that hold no lease any more go.\<close>

definition cleanup_stale_change_publishers :: "nat fset \<Rightarrow> (nat, nat) fmap \<Rightarrow> (nat, nat) fmap" where
  "cleanup_stale_change_publishers live changes = fmfilter (\<lambda>publisher. publisher |\<in>| live) changes"

definition io_stats_default :: store_io_stats where
  "io_stats_default =
     \<lparr>manifest_commits = 0, manifest_bytes_written = 0, payload_recounts = 0, gc_renames = 0,
      gc_unlinks = 0\<rparr>"

text \<open>
  \<^verbatim>\<open>Store::open\<close> of a process on what is on disk: the trash is emptied, the index is built from
  the manifests, and orphaned invocations are recovered. The owner locks that the previous
  process held are free, those of other processes are not.
\<close>

definition store_open ::
  "'b codec \<Rightarrow> env \<Rightarrow> nat \<Rightarrow> nat fset \<Rightarrow> 'b store
     \<Rightarrow> (unit, store_error) result \<times> 'b store"
where
  "store_open c env publisher live st =
     (let changes = cleanup_stale_change_publishers (finsert publisher live)
                      (fmupd publisher (env_change env) (st_changes st));
          st0 = st\<lparr>st_trash := fmempty, st_leases := {||}, st_publisher := publisher,
                   st_changes := changes, st_observed := changes, st_next_check_us := 0,
                   st_index := index_default, st_io := io_stats_default\<rparr>
      in case load_index c (st_dirs st0) of
           (Inl e, dirs) \<Rightarrow> (Inl e, st0\<lparr>st_dirs := dirs\<rparr>)
         | (Inr ix, dirs) \<Rightarrow>
             (let st1 = st0\<lparr>st_dirs := dirs, st_index := ix\<rparr>
              in case recover_ids c env (nonterminal_ids ix) st1 of
                   (Inl e, st2) \<Rightarrow> (Inl e, st2)
                 | (Inr recovered, st2) \<Rightarrow>
                     (let st3 = st2\<lparr>st_index := replace_recovered recovered ix\<rparr>
                      in (Inr (), if recovered = [] then st3 else publish_change env st3))))"

end
