(* ===== verification/Store_Invariant.thy ===== *)
theory Store_Invariant
  imports Store_Storage
begin

text \<open>
  The invariant of the durable store and its preservation by every operation: the index is in
  step with itself and with the manifests on disk, every manifest is readable and belongs to
  its directory, and every record is in a state that its life cycle allows. From it follow what
  a restart recovers and that terminal results are final.
\<close>

section \<open>The invariant of the store\<close>

text \<open>
  The index entry of an invocation agrees with its manifest up to telemetry, which the index
  collects first: it may be ahead of the manifest, never behind. The counters are \<^verbatim>\<open>u64\<close> values,
  which saturate.
\<close>

definition telemetry_le :: "invocation_metrics \<Rightarrow> invocation_metrics \<Rightarrow> bool" where
  "telemetry_le m m' \<longleftrightarrow>
     min (model_visible_bytes m) u64_max \<le> model_visible_bytes m' \<and>
     min (progress_notifications m) u64_max \<le> progress_notifications m' \<and>
     min (inspect_calls m) u64_max \<le> inspect_calls m'"

definition without_telemetry :: "invocation_metrics \<Rightarrow> invocation_metrics" where
  "without_telemetry m =
     m\<lparr>model_visible_bytes := 0, progress_notifications := 0, inspect_calls := 0\<rparr>"

definition header_matches :: "invocation_header \<Rightarrow> invocation_header \<Rightarrow> bool" where
  "header_matches h h' \<longleftrightarrow>
     (\<exists>m. h' = h\<lparr>hd_metrics := m\<rparr> \<and> without_telemetry m = without_telemetry (hd_metrics h) \<and>
          telemetry_le (hd_metrics h) m)"

definition manifest_of :: "'b codec \<Rightarrow> 'b directory \<Rightarrow> durable_record option" where
  "manifest_of c dir =
     (case fmlookup dir Manifest of
        None \<Rightarrow> None
      | Some bytes \<Rightarrow> (case decode_manifest c bytes of Inl _ \<Rightarrow> None | Inr d \<Rightarrow> Some d))"

definition header_inv :: "invocation_header \<Rightarrow> bool" where
  "header_inv h \<longleftrightarrow> record_inv (into_record h)"

definition durable_ok :: "invocation_id \<Rightarrow> durable_record \<Rightarrow> bool" where
  "durable_ok ident d \<longleftrightarrow>
     schema_version d = 1 \<and> req_id (hd_request (invocation d)) = ident \<and> header_inv (invocation d)"

definition dir_ok :: "'b codec \<Rightarrow> invocation_id \<Rightarrow> 'b directory \<Rightarrow> bool" where
  "dir_ok c ident dir \<longleftrightarrow>
     fmlookup dir Manifest = None \<or> (\<exists>d. manifest_of c dir = Some d \<and> durable_ok ident d)"

definition entry_ok ::
  "'b codec \<Rightarrow> (invocation_id, 'b directory) fmap \<Rightarrow> invocation_id \<Rightarrow> index_entry \<Rightarrow> bool"
where
  "entry_ok c dirs ident e \<longleftrightarrow>
     header_inv (en_record e) \<and> req_id (hd_request (en_record e)) = ident \<and>
     (case fmlookup dirs ident of
        None \<Rightarrow> True
      | Some dir \<Rightarrow>
          \<exists>d. manifest_of c dir = Some d \<and> header_matches (invocation d) (en_record e) \<and>
              deferred d = en_deferred e)"

definition consistent :: "'b codec \<Rightarrow> (invocation_id, 'b directory) fmap \<Rightarrow> index \<Rightarrow> bool" where
  "consistent c dirs ix \<longleftrightarrow>
     index_wf ix \<and>
     (\<forall>ident dir. fmlookup dirs ident = Some dir \<longrightarrow> dir_ok c ident dir) \<and>
     (\<forall>ident e. fmlookup (entries ix) ident = Some e \<longrightarrow> entry_ok c dirs ident e)"

definition store_inv :: "'b codec \<Rightarrow> 'b store \<Rightarrow> bool" where
  "store_inv c st \<longleftrightarrow> consistent c (st_dirs st) (st_index st)"

lemma header_matches_refl [simp]: "header_matches h h"
  unfolding header_matches_def by (rule exI [of _ "hd_metrics h"]) (simp add: telemetry_le_def)

lemma header_inv_metrics [simp]: "header_inv (h\<lparr>hd_metrics := m\<rparr>) = header_inv h"
  by (simp add: header_inv_def record_inv_def)

lemma header_matches_inv: "header_matches h h' \<Longrightarrow> header_inv h' = header_inv h"
  unfolding header_matches_def by (elim exE conjE) simp

lemma header_matches_request: "header_matches h h' \<Longrightarrow> hd_request h' = hd_request h"
  by (auto simp: header_matches_def)

lemma header_matches_state: "header_matches h h' \<Longrightarrow> hd_state h' = hd_state h"
  by (auto simp: header_matches_def)

lemma header_matches_merge:
  assumes "header_matches h h'"
  shows "header_matches h (h'\<lparr>hd_metrics := merge_telemetry m (hd_metrics h')\<rparr>)"
proof -
  obtain m' where "h' = h\<lparr>hd_metrics := m'\<rparr>" "without_telemetry m' = without_telemetry (hd_metrics h)"
    "telemetry_le (hd_metrics h) m'"
    using assms by (auto simp: header_matches_def)
  then show ?thesis
    unfolding header_matches_def
    by (intro exI [of _ "merge_telemetry m m'"])
      (auto simp: merge_telemetry_def telemetry_le_def without_telemetry_def)
qed

lemma header_matches_carry:
  "header_matches h (en_record e) \<Longrightarrow> header_matches h (en_record (carry_telemetry p e))"
  by (simp add: carry_telemetry_def header_matches_merge)

lemma decode_written:
  "codec_ok c \<Longrightarrow> schema_version d = 1 \<Longrightarrow> decode_manifest c (enc_durable c d) = Inr d"
  by (simp add: codec_ok_def decode_manifest_def migrate_v1_def)

lemma manifest_of_written:
  "codec_ok c \<Longrightarrow> schema_version d = 1 \<Longrightarrow> fmlookup dir Manifest = Some (enc_durable c d)
     \<Longrightarrow> manifest_of c dir = Some d"
  by (simp add: manifest_of_def decode_written)

lemma manifest_of_other [simp]:
  "name \<noteq> Manifest \<Longrightarrow> manifest_of c (fmupd name x dir) = manifest_of c dir"
  "name \<noteq> Manifest \<Longrightarrow> manifest_of c (fmdrop name dir) = manifest_of c dir"
  by (simp_all add: manifest_of_def)

lemma dir_ok_other [simp]:
  "name \<noteq> Manifest \<Longrightarrow> dir_ok c ident (fmupd name x dir) = dir_ok c ident dir"
  "name \<noteq> Manifest \<Longrightarrow> dir_ok c ident (fmdrop name dir) = dir_ok c ident dir"
  by (simp_all add: dir_ok_def)

lemma sidecars [simp]:
  "manifest_of c (write_details c' r dir) = manifest_of c dir"
  "dir_ok c ident (write_details c' r dir) = dir_ok c ident dir"
  "manifest_of c (write_artifacts c' a dir) = manifest_of c dir"
  "dir_ok c ident (write_artifacts c' a dir) = dir_ok c ident dir"
  by (simp_all add: write_details_def write_artifacts_def Let_def)

lemma read_durable_ok:
  assumes "store_inv c st" and "read_durable c ident st = Inr (d, n)"
  obtains dir where "fmlookup (st_dirs st) ident = Some dir" and "manifest_of c dir = Some d"
    and "durable_ok ident d"
  using assms
  by (fastforce simp: store_inv_def consistent_def dir_ok_def read_durable_def manifest_of_def
      split: option.splits sum.splits)

lemma consistent_default: "(\<And>ident dir. fmlookup dirs ident = Some dir \<Longrightarrow> dir_ok c ident dir)
    \<Longrightarrow> consistent c dirs index_default"
  by (simp add: consistent_def index_wf_default) (simp add: index_default_def)

text \<open>
  A commit of the manifest and of the index entry of one invocation keeps the invariant.
\<close>

lemma consistent_commit:
  assumes inv: "consistent c dirs ix" and ok: "durable_ok ident d" and manifest: "manifest_of c dir = Some d"
    and wf: "index_wf ix'"
    and lookup: "\<And>j. fmlookup (entries ix') j = (if j = ident then Some e else fmlookup (entries ix) j)"
    and hdr: "header_matches (invocation d) (en_record e)" and dfr: "en_deferred e = deferred d"
  shows "consistent c (fmupd ident dir dirs) ix'"
proof -
  have "entry_ok c (fmupd ident dir dirs) ident e"
    using ok hdr dfr manifest header_matches_inv [OF hdr] header_matches_request [OF hdr]
    by (simp add: entry_ok_def durable_ok_def)
  moreover have "dir_ok c ident dir" using manifest ok by (simp add: dir_ok_def)
  ultimately show ?thesis
    using inv wf lookup by (auto simp: consistent_def entry_ok_def)
qed

lemma consistent_replace:
  assumes "consistent c dirs ix" and "durable_ok ident d" and "manifest_of c dir = Some d"
  shows "consistent c (fmupd ident dir dirs) (index_replace ix ident (index_entry_of d n))"
  by (rule consistent_commit [OF assms])
    (use assms in \<open>auto simp: consistent_def index_wf_replace index_entry_of_def carry_telemetry_def
       header_matches_merge split: option.split\<close>)

lemma consistent_insert:
  assumes "consistent c dirs ix" and "durable_ok ident d" and "manifest_of c dir = Some d"
    and "fmlookup (entries ix) ident = None"
  shows "consistent c (fmupd ident dir dirs) (index_insert ix ident (index_entry_of d n))"
  by (rule consistent_commit [OF assms(1-3)])
    (use assms in \<open>auto simp: consistent_def index_wf_insert index_entry_of_def\<close>)

lemma entry_ok_same_manifest:
  assumes "fmlookup dirs ident = Some dir" and "manifest_of c dir' = manifest_of c dir"
  shows "entry_ok c (fmupd ident dir' dirs) j e = entry_ok c dirs j e"
  using assms by (auto simp: entry_ok_def)

lemma consistent_sidecar:
  assumes "consistent c dirs ix" and "fmlookup dirs ident = Some dir"
    and "manifest_of c dir' = manifest_of c dir" and "dir_ok c ident dir' = dir_ok c ident dir"
  shows "consistent c (fmupd ident dir' dirs) ix"
  using assms by (auto simp: consistent_def entry_ok_same_manifest)

lemma consistent_entry_update:
  assumes "consistent c dirs ix" and "index_wf ix'"
    and "\<And>j e'. fmlookup (entries ix') j = Some e' \<Longrightarrow>
           \<exists>e. fmlookup (entries ix) j = Some e \<and> en_deferred e' = en_deferred e \<and>
               (\<forall>h. header_matches h (en_record e) \<longrightarrow> header_matches h (en_record e'))"
  shows "consistent c dirs ix'"
  unfolding consistent_def
proof (intro conjI allI impI)
  fix j e'
  assume "fmlookup (entries ix') j = Some e'"
  then obtain e where e: "fmlookup (entries ix) j = Some e" "en_deferred e' = en_deferred e"
    and h: "\<And>h. header_matches h (en_record e) \<Longrightarrow> header_matches h (en_record e')"
    using assms(3) by blast
  have m: "header_matches (en_record e) (en_record e')" by (rule h) simp
  have ok: "entry_ok c dirs j e" using assms(1) e by (simp add: consistent_def)
  then show "entry_ok c dirs j e'"
    using e h by (cases "fmlookup dirs j")
      (auto simp: entry_ok_def header_matches_inv [OF m] header_matches_request [OF m])
qed (use assms in \<open>auto simp: consistent_def\<close>)

lemma consistent_flushed:
  assumes "consistent c dirs ix"
  shows "consistent c dirs (mark_telemetry_flushed ix ident g)"
proof (rule consistent_entry_update [OF assms])
  show "index_wf (mark_telemetry_flushed ix ident g)"
    using assms by (simp add: consistent_def index_wf_flushed)
qed (auto simp: mark_telemetry_flushed_def split: option.splits if_splits)

lemma consistent_merge:
  assumes "consistent c dirs ix"
  shows "consistent c dirs (replace_from_disk previous ix)"
  unfolding replace_from_disk_def
proof (rule consistent_entry_update [OF assms])
  show "index_wf (merge_pending_telemetry previous ix)"
    using assms by (simp add: consistent_def index_wf_merge)
qed (auto simp: merge_pending_telemetry_def carry_telemetry_def header_matches_merge
    split: option.splits)

lemma consistent_remove:
  "consistent c dirs ix \<Longrightarrow> consistent c (fmdrop ident dirs) (index_remove ix ident)"
  by (auto simp: consistent_def index_wf_remove entry_ok_def)

lemma consistent_lose:
  "consistent c dirs ix \<Longrightarrow> consistent c (fmdrop ident dirs) ix"
  by (auto simp: consistent_def entry_ok_def split: option.splits)

subsection \<open>Refreshing\<close>

lemma fmupd_lookup: "fmlookup m k = Some v \<Longrightarrow> fmupd k v m = m"
  by (rule fmap_ext) auto

lemma index_manifest_bytes_ok:
  assumes inv: "consistent c dirs ix" and dir: "fmlookup dirs ident = Some dir"
    and bytes: "fmlookup dir Manifest = Some bytes" and new: "fmlookup (entries ix) ident = None"
  obtains e where "index_manifest_bytes c ident dir bytes ix = Inr (index_insert ix ident e)"
    and "consistent c dirs (index_insert ix ident e)"
proof -
  obtain d where d: "decode_manifest c bytes = Inr d" "manifest_of c dir = Some d" "durable_ok ident d"
    using inv dir bytes
    by (fastforce simp: consistent_def dir_ok_def manifest_of_def split: sum.splits)
  let ?d = "if is_terminal (hd_state (invocation d)) then d
            else d\<lparr>payload_bytes := evidence_payload_size c dir\<rparr>"
  let ?e = "index_entry_of ?d (sat_add (payload_bytes ?d) (content_len c bytes))"
  have "index_manifest_bytes c ident dir bytes ix = Inr (index_insert ix ident ?e)"
    using d by (simp add: index_manifest_bytes_def durable_ok_def Let_def)
  moreover have "consistent c (fmupd ident dir dirs) (index_insert ix ident ?e)"
    by (rule consistent_commit [OF inv d(3,2), where e = ?e])
      (use inv new in \<open>auto simp: consistent_def index_wf_insert index_entry_of_def\<close>)
  ultimately show thesis using that dir by (simp add: fmupd_lookup)
qed

lemma load_loop_ok:
  assumes "consistent c dirs ix" and "distinct ids" and "\<And>i. i \<in> set ids \<Longrightarrow> fmlookup (entries ix) i = None"
  shows "\<exists>ix' dirs'. load_loop c ids dirs ix = (Inr ix', dirs') \<and> consistent c dirs' ix'"
  using assms
proof (induction ids arbitrary: dirs ix)
  case (Cons ident rest)
  show ?case
  proof (cases "fmlookup dirs ident")
    case None
    then show ?thesis using Cons by simp
  next
    case (Some dir)
    show ?thesis
    proof (cases "fmlookup dir Manifest")
      case None
      then show ?thesis using Some Cons by (simp add: consistent_lose)
    next
      case bytes: (Some bytes)
      obtain e where e: "index_manifest_bytes c ident dir bytes ix = Inr (index_insert ix ident e)"
        and inv: "consistent c dirs (index_insert ix ident e)"
        using index_manifest_bytes_ok [OF Cons.prems(1) Some bytes] Cons.prems(3) by auto
      have "\<exists>ix' dirs'. load_loop c rest dirs (index_insert ix ident e) = (Inr ix', dirs') \<and>
          consistent c dirs' ix'"
        using Cons.prems by (intro Cons.IH [OF inv]) auto
      then show ?thesis using Some bytes e by simp
    qed
  qed
qed simp

lemma load_index_ok:
  assumes "\<And>ident dir. fmlookup dirs ident = Some dir \<Longrightarrow> dir_ok c ident dir"
  shows "\<exists>ix' dirs'. load_index c dirs = (Inr ix', dirs') \<and> consistent c dirs' ix'"
  unfolding load_index_def
  by (rule load_loop_ok [OF consistent_default])
    (use assms in \<open>auto simp: index_default_def sorted_list_of_fset.rep_eq\<close>)

lemma refresh_index_ok:
  assumes "store_inv c st"
  shows "fst (refresh_index c force st) = Inr ()" and "store_inv c (snd (refresh_index c force st))"
proof -
  obtain ix dirs where "load_index c (st_dirs st) = (Inr ix, dirs)" "consistent c dirs ix"
    using load_index_ok [of "st_dirs st" c] assms by (auto simp: store_inv_def consistent_def)
  then show "fst (refresh_index c force st) = Inr ()" "store_inv c (snd (refresh_index c force st))"
    using assms by (auto simp: refresh_index_def store_inv_def consistent_merge)
qed

lemma refresh_index_if_stale_ok:
  assumes "store_inv c st"
  shows "fst (refresh_index_if_stale c env st) = Inr ()"
    and "store_inv c (snd (refresh_index_if_stale c env st))"
  using assms refresh_index_ok [of c "st\<lparr>st_next_check_us := sat_add (env_now_us env) CHANGE_POLL_INTERVAL_US\<rparr>" False]
  by (auto simp: refresh_index_if_stale_def claim_check_def store_inv_def)

lemma refresh_index_if_staleE:
  assumes "store_inv c st"
  obtains st1 where "refresh_index_if_stale c env st = (Inr (), st1)" and "store_inv c st1"
  using refresh_index_if_stale_ok [OF assms, of env] by (metis prod.collapse)

lemma ensure_invocation_ok:
  assumes "store_inv c st"
  shows "store_inv c (snd (ensure_invocation c env ident st))"
proof -
  obtain st1 where st1: "refresh_index_if_stale c env st = (Inr (), st1)" "store_inv c st1"
    using refresh_index_if_staleE [OF assms] .
  then show ?thesis
    using refresh_index_ok [OF st1(2), of False]
    by (auto simp: ensure_invocation_def split: prod.split sum.split)
qed

lemma ensure_invocation_found:
  assumes "ensure_invocation c env ident st = (Inr u, st1)"
  shows "fmlookup (entries (st_index st1)) ident \<noteq> None"
  using assms by (auto simp: ensure_invocation_def ensure_exists_def split: prod.splits sum.splits if_splits)

subsection \<open>Commits\<close>

lemma publish_change_simps [simp]:
  "st_dirs (publish_change env st) = st_dirs st" "st_index (publish_change env st) = st_index st"
  "st_leases (publish_change env st) = st_leases st"
  by (simp_all add: publish_change_def)

lemma release_owner_simps [simp]:
  "st_dirs (release_owner ident st) = st_dirs st" "st_index (release_owner ident st) = st_index st"
  by (simp_all add: release_owner_def)

lemma persist_durable_cases:
  obtains (missing) st' where "persist_durable c ident d recount st = (Inl (StoreIo NotFound), st')"
      and "fmlookup (st_dirs st) ident = None" and "st_dirs st' = st_dirs st" and "st_index st' = st_index st"
  | (committed) dir d1 n st' where "persist_durable c ident d recount st = (Inr (d1, n), st')"
      and "fmlookup (st_dirs st) ident = Some dir"
      and "st_dirs st' = fmupd ident (fmupd Manifest (enc_durable c d1) dir) (st_dirs st)"
      and "st_index st' = st_index st"
      and "invocation d1 = invocation d" and "deferred d1 = deferred d"
      and "schema_version d1 = schema_version d"
  by (cases "fmlookup (st_dirs st) ident") (auto simp: persist_durable_def persist_def Let_def)

lemma persisted_consistent:
  assumes "store_inv c st" and "codec_ok c" and "durable_ok ident d"
    and "persist_durable c ident d recount st = (Inr (d1, n), st')"
  shows "consistent c (st_dirs st') (index_replace (st_index st') ident (index_entry_of d1 n))"
  using persist_durable_cases [of c ident d recount st]
proof cases
  case (committed dir d1' n' st'')
  then have "durable_ok ident d1" using assms(3,4) by (simp add: durable_ok_def)
  then show ?thesis
    using committed assms
    by (simp add: store_inv_def consistent_replace manifest_of_written durable_ok_def)
qed (use assms in simp)

lemma read_durable_missing:
  assumes "store_inv c st" and "fmlookup (entries (st_index st)) ident \<noteq> None"
    and "read_durable c ident st = Inl e"
  shows "fmlookup (st_dirs st) ident = None" and "e = StoreIo NotFound"
  using assms
  by (fastforce simp: store_inv_def consistent_def entry_ok_def read_durable_def manifest_of_def
      split: option.splits sum.splits)+

text \<open>How an operation on one invocation begins: refresh, look up, read the manifest.\<close>

lemma ensure_read_cases:
  assumes "store_inv c st"
  obtains (refused) e st1 where "ensure_invocation c env ident st = (Inl e, st1)" and "store_inv c st1"
  | (lost) st1 where "ensure_invocation c env ident st = (Inr (), st1)" and "store_inv c st1"
      and "read_durable c ident st1 = Inl (StoreIo NotFound)" and "fmlookup (st_dirs st1) ident = None"
  | (found) st1 dir d n where "ensure_invocation c env ident st = (Inr (), st1)" and "store_inv c st1"
      and "read_durable c ident st1 = Inr (d, n)" and "fmlookup (st_dirs st1) ident = Some dir"
      and "manifest_of c dir = Some d" and "durable_ok ident d"
proof -
  obtain r1 st1 where ensure: "ensure_invocation c env ident st = (r1, st1)" by fastforce
  have inv: "store_inv c st1" using ensure_invocation_ok [OF assms, of env ident] ensure by simp
  show thesis
  proof (cases r1)
    case (Inl e)
    then show thesis using refused ensure inv by simp
  next
    case (Inr u)
    have present: "fmlookup (entries (st_index st1)) ident \<noteq> None"
      using ensure_invocation_found [OF ensure [unfolded Inr]] .
    show thesis
    proof (cases "read_durable c ident st1")
      case (Inl e)
      show thesis
        using lost [of st1] read_durable_missing [OF inv present Inl] ensure Inr inv Inl by simp
    next
      case read: (Inr dn)
      obtain d n where dn: "dn = (d, n)" by fastforce
      obtain dir where "fmlookup (st_dirs st1) ident = Some dir" "manifest_of c dir = Some d"
        "durable_ok ident d"
        using read_durable_ok [OF inv read [unfolded dn]] .
      then show thesis using found [of st1 d n dir] ensure Inr inv read dn by simp
    qed
  qed
qed

definition keeps_durable :: "invocation_id \<Rightarrow> (durable_record \<Rightarrow> (durable_record, store_error) result) \<Rightarrow> bool" where
  "keeps_durable ident operation \<longleftrightarrow>
     (\<forall>d d'. durable_ok ident d \<longrightarrow> operation d = Inr d' \<longrightarrow> durable_ok ident d')"

lemma durable_ok_metrics [simp]:
  "durable_ok ident (d\<lparr>invocation := (invocation d)\<lparr>hd_metrics := m\<rparr>\<rparr>) = durable_ok ident d"
  by (simp add: durable_ok_def)

lemma mutate_inv:
  assumes "store_inv c st" and codec: "codec_ok c" and keeps: "keeps_durable ident operation"
  shows "store_inv c (snd (mutate c env ident recount operation st))"
  using assms(1)
proof (cases rule: ensure_read_cases [where env = env and ident = ident])
  case (found st1 dir d n)
  obtain g m where merged: "merge_index_telemetry (st_index st1) ident (hd_metrics (invocation d)) = (g, m)"
    by fastforce
  let ?d = "d\<lparr>invocation := (invocation d)\<lparr>hd_metrics := m\<rparr>\<rparr>"
  have ok: "durable_ok ident ?d" using found by simp
  show ?thesis
  proof (cases "operation ?d")
    case (Inl e)
    then show ?thesis using found merged by (simp add: mutate_def)
  next
    case (Inr d2)
    have ok2: "durable_ok ident d2" using keeps ok Inr unfolding keeps_durable_def by blast
    show ?thesis
      using persist_durable_cases [of c ident d2 recount st1]
    proof cases
      case missing
      then show ?thesis using found by simp
    next
      case (committed dir' d3 k st')
      then show ?thesis
        using found merged Inr persisted_consistent [OF found(2) codec ok2 committed(1)]
        by (simp add: mutate_def store_inv_def consistent_flushed)
    qed
  qed
qed (simp_all add: mutate_def)

lemma keeps_cancellation_reason:
  "keeps_durable ident (\<lambda>d. Inr (d\<lparr>invocation := (invocation d)\<lparr>hd_cancellation_reason := x\<rparr>\<rparr>))"
  by (simp add: keeps_durable_def durable_ok_def header_inv_def record_inv_def)

lemma keeps_with_deferred: "keeps_durable ident (with_deferred ident f)"
  by (auto simp: keeps_durable_def durable_ok_def with_deferred_def split: option.splits)

lemma keeps_drop_deferred:
  "keeps_durable ident (\<lambda>d. Inr (d\<lparr>deferred := x\<rparr>))"
  "keeps_durable ident (\<lambda>d. Inr (drop_expired now d))"
  by (auto simp: keeps_durable_def durable_ok_def drop_expired_def split: option.splits)

lemmas mutate_clients =
  update_cancellation_reason_def record_deferred_cancellation_def
  set_deferred_terminal_override_def persist_deferred_failure_def extend_deferred_expiry_def

lemmas keeps_clients = keeps_cancellation_reason keeps_with_deferred keeps_drop_deferred

lemma durable_ok_new:
  "record_inv r \<Longrightarrow> durable_ok (req_id (request r))
     \<lparr>schema_version = CURRENT_SCHEMA_VERSION, invocation = header_of r, deferred = x, payload_bytes = 0\<rparr>"
  by (auto simp: durable_ok_def header_inv_def record_inv_def CURRENT_SCHEMA_VERSION_def)

lemma create_inv:
  assumes "store_inv c st" and codec: "codec_ok c" and r: "record_inv r"
  shows "store_inv c (snd (create_invocation_with_deferred c env r dfr st))"
proof -
  obtain st1 where st1: "refresh_index_if_stale c env st = (Inr (), st1)" "store_inv c st1"
    using refresh_index_if_staleE [OF assms(1)] .
  let ?id = "req_id (request r)"
  let ?d = "\<lparr>schema_version = CURRENT_SCHEMA_VERSION, invocation = header_of r, deferred = dfr, payload_bytes = 0\<rparr>"
  let ?st2 = "st1\<lparr>st_dirs := fmupd ?id fmempty (st_dirs st1)\<rparr>"
  show ?thesis
  proof (cases "fmlookup (entries (st_index st1)) ?id = None \<and> fmlookup (st_dirs st1) ?id = None \<and>
      (is_terminal (state r) \<or> acquire_owner ?id st1 = Inr ())")
    case False
    then show ?thesis using st1 by (auto simp: create_invocation_with_deferred_def Let_def split: sum.splits)
  next
    case True
    show ?thesis
      using persist_durable_cases [of c ?id ?d True ?st2]
    proof cases
      case (committed dir d1 n st3)
      have ok: "durable_ok ?id d1"
        using durable_ok_new [OF r, of dfr] committed by (simp add: durable_ok_def)
      have "consistent c (fmupd ?id (fmupd Manifest (enc_durable c d1) dir) (st_dirs st1))
          (index_insert (st_index st1) ?id (index_entry_of d1 n))"
        using st1 True ok codec
        by (intro consistent_insert) (auto simp: store_inv_def manifest_of_written durable_ok_def)
      moreover have "fmupd ?id x (fmupd ?id y m) = fmupd ?id x m" for x y and m :: "(_, 'a directory) fmap"
        by (rule fmap_ext) auto
      ultimately show ?thesis
        using True st1 committed
        by (auto simp: create_invocation_with_deferred_def Let_def store_inv_def split: sum.splits)
    qed simp
  qed
qed

lemma transition_header_inv:
  assumes "transition now next r = Inr r'" and "record_inv r" and "req_id (request r) = ident"
    and "schema_version d = 1"
  shows "durable_ok ident (d\<lparr>invocation := header_of (r'\<lparr>rec_termination := t, summary := s\<rparr>)\<rparr>)"
  using transition_inv [OF assms(1,2)] transition_Inr(3) [OF assms(1)] assms(3,4)
  by (simp add: durable_ok_def header_inv_def record_inv_def)

lemma transition_lost_inv:
  assumes inv: "store_inv c st" and gone: "fmlookup (st_dirs st) ident = None"
  shows "store_inv c (snd (transition_lost env ident next terminated summ st))"
proof (cases "fmlookup (entries (st_index st)) ident")
  case None
  then show ?thesis using inv
    by (simp add: transition_lost_def transition_lost_evidence_def store_inv_def)
next
  case (Some e)
  show ?thesis
  proof (cases "transition (env_now_ms env) next (into_record (en_record e))")
    case (Inl err)
    then show ?thesis using inv Some
      by (simp add: transition_lost_def transition_lost_evidence_def store_inv_def)
  next
    case (Inr r)
    let ?r = "r\<lparr>rec_termination := terminated, summary := summ\<rparr>"
    let ?e = "\<lparr>en_record = header_of ?r, en_deferred = None, en_retained_bytes = 0,
        telemetry_generation = 0, telemetry_flush_scheduled = False\<rparr>"
    have "entry_ok c (st_dirs st) ident e" using inv Some by (simp add: store_inv_def consistent_def)
    then have "record_inv (into_record (en_record e))" "req_id (hd_request (en_record e)) = ident"
      by (simp_all add: entry_ok_def header_inv_def)
    then have "header_inv (header_of ?r)" "req_id (hd_request (header_of ?r)) = ident"
      using transition_inv [OF Inr] transition_Inr(3) [OF Inr]
      by (simp_all add: header_inv_def record_inv_def)
    then have "entry_ok c (st_dirs st) ident (carry_telemetry e ?e)"
      using gone by (simp add: entry_ok_def carry_telemetry_def)
    then have "consistent c (st_dirs st) (index_replace (st_index st) ident ?e)"
      using inv Some by (auto simp: store_inv_def consistent_def index_wf_replace)
    then show ?thesis
      using Some Inr
      by (simp add: transition_lost_def transition_lost_evidence_def store_inv_def Let_def)
  qed
qed

lemma update_dir_sidecar:
  assumes "store_inv c st" and "fmlookup (st_dirs st) ident = Some dir"
    and "\<And>dir. manifest_of c (f dir) = manifest_of c dir" and "\<And>dir. dir_ok c ident (f dir) = dir_ok c ident dir"
  shows "\<exists>st2. update_dir ident f st = (Inr (), st2) \<and> store_inv c st2 \<and>
           st_index st2 = st_index st \<and> fmlookup (st_dirs st2) ident = Some (f dir)"
  using assms by (simp add: update_dir_def store_inv_def consistent_sidecar)

lemma durable_ok_deferred [simp]: "durable_ok ident (d\<lparr>deferred := x\<rparr>) = durable_ok ident d"
  by (simp add: durable_ok_def)

text \<open>
  The end of \<^verbatim>\<open>transition\<close> and \<^verbatim>\<open>finish_invocation\<close>: commit and publish.
\<close>

lemma committed_inv:
  assumes "store_inv c st" and "codec_ok c" and "durable_ok ident d"
    and "persist_durable c ident d recount st = (Inr (d1, n), st')"
  shows "store_inv c (release_owner ident ((publish_change env st')\<lparr>st_index :=
           mark_telemetry_flushed (index_replace (st_index st') ident (index_entry_of d1 n)) ident g\<rparr>))"
    and "store_inv c ((publish_change env st')\<lparr>st_index :=
           mark_telemetry_flushed (index_replace (st_index st') ident (index_entry_of d1 n)) ident g\<rparr>)"
    and "store_inv c ((publish_change env st')\<lparr>st_index :=
           index_replace (st_index st') ident (index_entry_of d1 n)\<rparr>)"
  using persisted_consistent [OF assms] by (simp_all add: store_inv_def consistent_flushed)

lemma store_transition_inv:
  assumes "store_inv c st" and codec: "codec_ok c"
  shows "store_inv c (snd (store_transition c env ident next terminated summ st))"
  using assms(1)
proof (cases rule: ensure_read_cases [where env = env and ident = ident])
  case (lost st1)
  then show ?thesis using transition_lost_inv by (simp add: store_transition_def)
next
  case (found st1 dir d n)
  obtain g m where merged: "merge_index_telemetry (st_index st1) ident (hd_metrics (invocation d)) = (g, m)"
    by fastforce
  let ?d = "d\<lparr>invocation := (invocation d)\<lparr>hd_metrics := m\<rparr>\<rparr>"
  have ok: "durable_ok ident ?d" using found by simp
  show ?thesis
  proof (cases "transition (env_now_ms env) next (into_record (invocation ?d))")
    case (Inl err)
    then show ?thesis using found merged by (simp add: store_transition_def)
  next
    case moved: (Inr r)
    let ?r = "r\<lparr>rec_termination := terminated, summary := summ\<rparr>"
    let ?d3 = "(if is_terminal next
        then ?d\<lparr>deferred := extend_deferred (finished_or_now env ?r) (deferred ?d)\<rparr>
        else ?d)\<lparr>invocation := header_of ?r\<rparr>"
    let ?w = "if is_terminal next then update_dir ident (write_details c ?r) st1 else (Inr (), st1)"
    have ok3: "durable_ok ident ?d3"
      using transition_header_inv [OF moved, where ident = ident and d = d and t = terminated and s = summ] ok
      by (simp add: durable_ok_def header_inv_def)
    obtain st2 where w: "?w = (Inr (), st2)" and inv2: "store_inv c st2"
      and dir2: "fmlookup (st_dirs st2) ident \<noteq> None"
      using update_dir_sidecar [OF found(2,4), of "write_details c ?r"] found
      by (cases "is_terminal next") auto
    have unfold: "store_transition c env ident next terminated summ st =
      (case persist_durable c ident ?d3 (is_terminal next) st2 of
         (Inl e, st3) \<Rightarrow>
           if e = StoreIo NotFound then transition_lost env ident next terminated summ st3
           else (Inl e, st3)
       | (Inr (d4, retained), st3) \<Rightarrow>
           (let st4 = publish_change env st3;
                ix = mark_telemetry_flushed
                       (index_replace (st_index st4) ident (index_entry_of d4 retained)) ident g;
                st5 = st4\<lparr>st_index := ix\<rparr>
            in (Inr ?r, if is_terminal next then release_owner ident st5 else st5)))"
      using found merged moved w by (simp add: store_transition_def Let_def)
    show ?thesis
      using persist_durable_cases [of c ident ?d3 "is_terminal next" st2]
    proof cases
      case missing
      then show ?thesis using dir2 by simp
    next
      case (committed dir' d4 k st')
      then show ?thesis using committed_inv [OF inv2 codec ok3 committed(1)] by (simp add: unfold Let_def)
    qed
  qed
qed (simp add: store_transition_def)

lemma get_invocation_header_inv:
  "store_inv c st \<Longrightarrow> store_inv c (snd (get_invocation_header c env ident st))"
  using ensure_invocation_ok [of c st env ident]
  by (auto simp: get_invocation_header_def split: prod.split sum.split option.split)

lemma read_hydrated_inv:
  "store_inv c st \<Longrightarrow> store_inv c (snd (read_hydrated_invocation c env ident st))"
  using ensure_invocation_ok [of c st env ident]
  by (auto simp: read_hydrated_invocation_def split: prod.split sum.split option.split)

lemma finish_invocation_inv:
  assumes inv: "store_inv c st" and codec: "codec_ok c"
  shows "store_inv c (snd (finish_invocation c env ident co st))"
proof (cases "is_terminal (co_state co)")
  case False
  then show ?thesis
    using get_invocation_header_inv [OF inv, of env ident]
    by (auto simp: finish_invocation_def split: prod.split sum.split)
next
  case True
  show ?thesis
    using inv
  proof (cases rule: ensure_read_cases [where env = env and ident = ident])
    case (found st1 dir d n)
    show ?thesis
    proof (cases "transition (env_now_ms env) (co_state co) (into_record (invocation d))")
      case (Inl err)
      then show ?thesis using found True by (simp add: finish_invocation_def)
    next
      case moved: (Inr r)
      obtain g m where merged: "merge_index_telemetry (st_index st1) ident (co_metrics co) = (g, m)"
        by fastforce
      let ?r = "r\<lparr>rec_termination := Some (co_termination co), summary := Some (co_summary co),
          run := co_run co, metrics := m, canonical_arguments := co_canonical_arguments co\<rparr>"
      let ?d = "d\<lparr>deferred := extend_deferred (finished_or_now env ?r) (deferred d),
          invocation := header_of ?r\<rparr>"
      let ?f = "\<lambda>dir. write_details c ?r (write_artifacts c (co_artifacts co) dir)"
      have ok: "durable_ok ident ?d"
        using transition_inv [OF moved] transition_Inr(3) [OF moved] found(6)
        by (simp add: durable_ok_def header_inv_def record_inv_def)
      obtain st2 where w: "update_dir ident ?f st1 = (Inr (), st2)" and inv2: "store_inv c st2"
        and dir2: "fmlookup (st_dirs st2) ident \<noteq> None"
        using update_dir_sidecar [OF found(2,4), of ?f] by auto
      show ?thesis
        using persist_durable_cases [of c ident ?d True st2]
      proof cases
        case missing
        then show ?thesis using dir2 by simp
      next
        case (committed dir' d2 k st')
        then show ?thesis
          using True found moved merged w committed_inv(1) [OF inv2 codec ok committed(1)]
          by (simp add: finish_invocation_def Let_def)
      qed
    qed
  qed (use True in \<open>simp_all add: finish_invocation_def\<close>)
qed

lemma replace_artifacts_inv:
  assumes inv: "store_inv c st" and codec: "codec_ok c"
  shows "store_inv c (snd (replace_artifacts c env ident artifacts st))"
  using inv
proof (cases rule: ensure_read_cases [where env = env and ident = ident])
  case (lost st1)
  then show ?thesis by (auto simp: replace_artifacts_def update_dir_def)
next
  case (found st1 dir d n)
  obtain st2 where w: "update_dir ident (write_artifacts c artifacts) st1 = (Inr (), st2)"
    and inv2: "store_inv c st2" and dir2: "fmlookup (st_dirs st2) ident = Some (write_artifacts c artifacts dir)"
    using update_dir_sidecar [OF found(2,4), of "write_artifacts c artifacts"] by auto
  have read: "read_durable c ident st2 = read_durable c ident st1"
    using dir2 found(4)
    by (simp add: read_durable_def write_artifacts_def)
  show ?thesis
    using persist_durable_cases [of c ident d True st2]
  proof cases
    case missing
    then show ?thesis using dir2 by simp
  next
    case (committed dir' d2 k st')
    then show ?thesis
      using found w read committed_inv(3) [OF inv2 codec found(6) committed(1)]
      by (simp add: replace_artifacts_def Let_def)
  qed
qed (simp add: replace_artifacts_def)

lemma get_deferred_result_inv:
  assumes inv: "store_inv c st" and codec: "codec_ok c"
  shows "store_inv c (snd (get_deferred_result c env ident retrieval now st))"
proof -
  obtain r1 st1 where ensure: "ensure_invocation c env ident st = (r1, st1)" by fastforce
  have inv1: "store_inv c st1" using ensure_invocation_ok [OF inv, of env ident] ensure by simp
  obtain rm sm where m: "mutate c env ident False (\<lambda>d. Inr (d\<lparr>deferred := None\<rparr>)) st1 = (rm, sm)"
    by fastforce
  have invm: "store_inv c sm"
    using mutate_inv [OF inv1 codec keeps_drop_deferred(1) [of ident None], of env False] m by simp
  obtain rh sh where h: "read_hydrated_invocation c env ident st1 = (rh, sh)" by fastforce
  have invh: "store_inv c sh" using read_hydrated_inv [OF inv1, of env ident] h by simp
  show ?thesis
    by (simp add: get_deferred_result_def Let_def ensure m h inv1 invm invh split: sum.split option.split)
qed

lemma delete_expired_loop_inv:
  "store_inv c st \<Longrightarrow> codec_ok c \<Longrightarrow> store_inv c (snd (delete_expired_loop c env now ids st))"
proof (induction ids arbitrary: st)
  case (Cons ident ids)
  have "store_inv c (snd (mutate c env ident False (\<lambda>d. Inr (drop_expired now d)) st))"
    using Cons.prems keeps_drop_deferred(2) by (rule mutate_inv)
  then show ?case using Cons by (auto split: prod.split sum.split)
qed simp

lemma delete_expired_inv:
  assumes "store_inv c st" and "codec_ok c"
  shows "store_inv c (snd (delete_expired_deferred_results c env now st))"
proof -
  obtain st1 where "refresh_index_if_stale c env st = (Inr (), st1)" "store_inv c st1"
    using refresh_index_if_staleE [OF assms(1)] .
  then show ?thesis
    using delete_expired_loop_inv assms(2) by (simp add: delete_expired_deferred_results_def)
qed

subsection \<open>Telemetry\<close>

text \<open>What recording telemetry may do to an entry.\<close>

definition only_telemetry :: "(index_entry \<Rightarrow> bool \<times> index_entry) \<Rightarrow> bool" where
  "only_telemetry f \<longleftrightarrow>
     (\<forall>e. en_deferred (snd (f e)) = en_deferred e \<and>
          en_retained_bytes (snd (f e)) = en_retained_bytes e \<and>
          header_matches (en_record e) (en_record (snd (f e))))"

lemma header_matches_trans:
  assumes "header_matches h1 h2" and "header_matches h2 h3"
  shows "header_matches h1 h3"
proof -
  obtain m2 m3 where m: "h2 = h1\<lparr>hd_metrics := m2\<rparr>" "h3 = h2\<lparr>hd_metrics := m3\<rparr>"
    "without_telemetry m2 = without_telemetry (hd_metrics h1)"
    "without_telemetry m3 = without_telemetry (hd_metrics h2)"
    "telemetry_le (hd_metrics h1) m2" "telemetry_le (hd_metrics h2) m3"
    using assms by (auto simp: header_matches_def)
  then have "telemetry_le (hd_metrics h1) m3" by (auto simp: telemetry_le_def)
  then show ?thesis using m unfolding header_matches_def by (intro exI [of _ m3]) simp
qed

lemma header_matches_merged:
  assumes "header_matches h h'"
  shows "header_matches (h\<lparr>hd_metrics := merge_telemetry (hd_metrics h') (hd_metrics h)\<rparr>) h'"
proof -
  obtain m where m: "h' = h\<lparr>hd_metrics := m\<rparr>" "without_telemetry m = without_telemetry (hd_metrics h)"
    "telemetry_le (hd_metrics h) m"
    using assms by (auto simp: header_matches_def)
  then have "telemetry_le (merge_telemetry m (hd_metrics h)) m"
    "without_telemetry (merge_telemetry m (hd_metrics h)) = without_telemetry (hd_metrics h)"
    by (auto simp: telemetry_le_def merge_telemetry_def without_telemetry_def)
  then show ?thesis using m unfolding header_matches_def by (intro exI [of _ m]) simp
qed

lemma mark_dirty_simps [simp]:
  "en_deferred (snd (mark_dirty e)) = en_deferred e"
  "en_retained_bytes (snd (mark_dirty e)) = en_retained_bytes e"
  "en_record (snd (mark_dirty e)) = en_record e"
  by (simp_all add: mark_dirty_def Let_def)

lemma only_telemetry_recordings:
  "only_telemetry (record_model_visible bytes inspection)" "only_telemetry (record_progress n)"
proof -
  have matches: "header_matches h (h\<lparr>hd_metrics := m\<rparr>)"
    if "without_telemetry m = without_telemetry (hd_metrics h)" "telemetry_le (hd_metrics h) m"
    for h m using that by (auto simp: header_matches_def)
  show "only_telemetry (record_model_visible bytes inspection)"
    by (auto simp: only_telemetry_def record_model_visible_def Let_def telemetry_le_def
        without_telemetry_def sat_add_def intro!: matches)
  show "only_telemetry (record_progress n)"
    by (auto simp: only_telemetry_def record_progress_def Let_def telemetry_le_def
        without_telemetry_def sat_add_def intro!: matches)
qed

text \<open>An entry that differs in telemetry and bytes only has the same keys.\<close>

lemma same_keys:
  assumes "header_matches (en_record e) (en_record e')" and "en_deferred e' = en_deferred e"
  shows "requested_key e' = requested_key e" and "workspace_key w e' = workspace_key w e"
    and "deferred_key e' = deferred_key e" and "terminal_key e' = terminal_key e"
proof -
  obtain m where "en_record e' = (en_record e)\<lparr>hd_metrics := m\<rparr>"
    using assms(1) by (auto simp: header_matches_def)
  then show "requested_key e' = requested_key e" "workspace_key w e' = workspace_key w e"
    "deferred_key e' = deferred_key e" "terminal_key e' = terminal_key e"
    using assms(2)
    by (simp_all add: requested_key_def workspace_key_def deferred_key_def terminal_key_def
        finished_key_def)
qed

lemma in_step_entry:
  assumes "in_step key sel ix" and "fmlookup (entries ix) ident = Some e" and "key e' = key e"
    and "sel (ix\<lparr>entries := m, retained_bytes := n\<rparr>) = sel ix" and "m = fmupd ident e' (entries ix)"
  shows "in_step key sel (ix\<lparr>entries := m, retained_bytes := n\<rparr>)"
  using assms by (auto simp: in_step_def)

lemma index_wf_entry:
  assumes "index_wf ix" and "fmlookup (entries ix) ident = Some e"
    and "header_matches (en_record e) (en_record e')" and "en_deferred e' = en_deferred e"
  shows "index_wf (ix\<lparr>entries := fmupd ident e' (entries ix), retained_bytes := n\<rparr>)"
  using assms(1) same_keys [OF assms(3,4)]
  by (auto simp: index_wf_def workspace_index_def intro!: in_step_entry [OF _ assms(2), where e' = e'])

lemma consistent_entry:
  assumes "consistent c dirs ix" and "fmlookup (entries ix) ident = Some e"
    and "header_matches (en_record e) (en_record e')" and "en_deferred e' = en_deferred e"
  shows "consistent c dirs (ix\<lparr>entries := fmupd ident e' (entries ix), retained_bytes := n\<rparr>)"
proof (rule consistent_entry_update [OF assms(1)])
  show "index_wf (ix\<lparr>entries := fmupd ident e' (entries ix), retained_bytes := n\<rparr>)"
    using assms index_wf_entry by (auto simp: consistent_def)
next
  fix j e''
  assume "fmlookup (entries (ix\<lparr>entries := fmupd ident e' (entries ix), retained_bytes := n\<rparr>)) j = Some e''"
  then show "\<exists>e. fmlookup (entries ix) j = Some e \<and> en_deferred e'' = en_deferred e \<and>
      (\<forall>h. header_matches h (en_record e) \<longrightarrow> header_matches h (en_record e''))"
    using assms(2,4) header_matches_trans [OF _ assms(3)] by (cases "j = ident") auto
qed

lemma record_telemetry_inv:
  assumes inv: "store_inv c st" and f: "only_telemetry f"
  shows "store_inv c (snd (record_telemetry c env ident f st))"
proof -
  obtain st1 where st1: "refresh_index_if_stale c env st = (Inr (), st1)" "store_inv c st1"
    using refresh_index_if_staleE [OF inv] .
  show ?thesis
  proof (cases "fmlookup (entries (st_index st1)) ident")
    case None
    then show ?thesis using st1 by (simp add: record_telemetry_def)
  next
    case (Some e)
    have "consistent c (st_dirs st1) ((st_index st1)\<lparr>entries :=
        fmupd ident (snd (f e)) (entries (st_index st1)), retained_bytes := retained_bytes (st_index st1)\<rparr>)"
      using st1(2) Some f by (intro consistent_entry) (auto simp: store_inv_def only_telemetry_def)
    moreover have "(st_index st1)\<lparr>entries := m, retained_bytes := retained_bytes (st_index st1)\<rparr> =
        (st_index st1)\<lparr>entries := m\<rparr>" for m by simp
    ultimately show ?thesis
      using st1 Some by (simp add: record_telemetry_def store_inv_def case_prod_beta)
  qed
qed

lemma entry_matches:
  assumes "consistent c dirs ix" and "fmlookup (entries ix) ident = Some e"
    and "fmlookup dirs ident = Some dir" and "manifest_of c dir = Some d"
  shows "header_matches (invocation d) (en_record e)" and "deferred d = en_deferred e"
proof -
  have "entry_ok c dirs ident e" using assms(1,2) by (simp add: consistent_def)
  then show "header_matches (invocation d) (en_record e)" "deferred d = en_deferred e"
    using assms(3,4) by (simp_all add: entry_ok_def)
qed

lemma flush_telemetry_once_inv:
  assumes inv: "store_inv c st" and codec: "codec_ok c"
  shows "store_inv c (snd (flush_telemetry_once c env ident st))"
proof -
  obtain st1 where st1: "refresh_index_if_stale c env st = (Inr (), st1)" "store_inv c st1"
    using refresh_index_if_staleE [OF inv] .
  show ?thesis
  proof (cases "fmlookup (entries (st_index st1)) ident")
    case None
    then show ?thesis using st1 by (simp add: flush_telemetry_once_def)
  next
    case (Some e)
    show ?thesis
    proof (cases "telemetry_flush_scheduled e \<and> (\<exists>dn. read_durable c ident st1 = Inr dn)")
      case False
      then show ?thesis using st1 Some by (auto simp: flush_telemetry_once_def split: sum.split)
    next
      case True
      then obtain d n where read: "read_durable c ident st1 = Inr (d, n)" by auto
      obtain dir where dir: "fmlookup (st_dirs st1) ident = Some dir" "manifest_of c dir = Some d"
        and ok: "durable_ok ident d"
        using read_durable_ok [OF st1(2) read] .
      have match: "header_matches (invocation d) (en_record e)" "deferred d = en_deferred e"
        using entry_matches [of c "st_dirs st1" "st_index st1"] st1(2) Some dir
        by (auto simp: store_inv_def)
      let ?d = "d\<lparr>invocation := (invocation d)\<lparr>hd_metrics :=
          merge_telemetry (hd_metrics (en_record e)) (hd_metrics (invocation d))\<rparr>\<rparr>"
      show ?thesis
        using persist_durable_cases [of c ident ?d False st1]
      proof cases
        case missing
        then show ?thesis using dir by simp
      next
        case (committed dir' d1 k st2)
        let ?e = "\<lambda>b. e\<lparr>en_retained_bytes := k, telemetry_flush_scheduled := b\<rparr>"
        have ahead: "header_matches (invocation d1) (en_record e)"
          using match(1) committed(5) by (simp add: header_matches_merged)
        have "consistent c (st_dirs st2) ((st_index st2)\<lparr>entries := fmupd ident (?e b) (entries (st_index st2)),
            retained_bytes := x\<rparr>)" for b x
        proof -
          have "index_wf ((st_index st2)\<lparr>entries := fmupd ident (?e b) (entries (st_index st2)),
              retained_bytes := x\<rparr>)"
            using st1(2) Some committed
            by (intro index_wf_entry) (auto simp: store_inv_def consistent_def)
          then show ?thesis
            using st1(2) committed codec ok ahead match(2)
            by (simp only: committed(3)) (rule consistent_commit [where d = d1 and e = "?e b" and ix = "st_index st1"],
              auto simp: store_inv_def manifest_of_written durable_ok_def)
        qed
        then show ?thesis
          using st1 Some True read committed
          by (simp add: flush_telemetry_once_def Let_def store_inv_def)
      qed
    qed
  qed
qed

subsection \<open>Recovery\<close>

lemma read_durable_result:
  assumes "consistent c (st_dirs st) ix"
  obtains (missing) "read_durable c ident st = Inl (StoreIo NotFound)"
      and "\<And>dir. fmlookup (st_dirs st) ident = Some dir \<Longrightarrow> fmlookup dir Manifest = None"
  | (read) dir d n where "read_durable c ident st = Inr (d, n)"
      and "fmlookup (st_dirs st) ident = Some dir" and "manifest_of c dir = Some d" and "durable_ok ident d"
proof (cases "fmlookup (st_dirs st) ident")
  case None
  then show thesis using missing by (simp add: read_durable_def)
next
  case (Some dir)
  show thesis
  proof (cases "fmlookup dir Manifest")
    case None
    then show thesis using missing Some by (simp add: read_durable_def)
  next
    case bytes: (Some bytes)
    have "dir_ok c ident dir" using assms Some by (simp add: consistent_def)
    then obtain d where "manifest_of c dir = Some d" "durable_ok ident d"
      using bytes by (auto simp: dir_ok_def)
    then show thesis
      using read [of d] Some bytes by (auto simp: read_durable_def manifest_of_def split: sum.splits)
  qed
qed

lemma interrupted_ok:
  assumes "durable_ok ident d"
  shows "durable_ok ident (d\<lparr>deferred := x, invocation := header_of (interrupted_record env (invocation d))\<rparr>)"
  using assms
  by (simp add: durable_ok_def header_inv_def record_inv_def interrupted_record_def)

lemma replace_recovered_Cons [simp]:
  "replace_recovered ((ident, e) # rest) ix = replace_recovered rest (index_replace ix ident e)"
  by (simp add: replace_recovered_def)

definition manifest_present :: "invocation_id \<Rightarrow> (invocation_id, 'b directory) fmap \<Rightarrow> bool" where
  "manifest_present ident dirs \<longleftrightarrow>
     (case fmlookup dirs ident of None \<Rightarrow> False | Some dir \<Rightarrow> fmlookup dir Manifest \<noteq> None)"

lemma recover_one_cases:
  assumes inv: "consistent c (st_dirs st) ix" and codec: "codec_ok c"
  obtains (skipped) "recover_one c env ident st = (Inr None, st)"
      and "ident |\<in>| st_foreign st \<or> ident |\<in>| st_leases st \<or> \<not> manifest_present ident (st_dirs st)"
  | (recovered) e dir where
      "recover_one c env ident st = (Inr (Some e), st\<lparr>st_dirs := fmupd ident dir (st_dirs st)\<rparr>)"
      and "ident |\<notin>| st_foreign st" and "ident |\<notin>| st_leases st"
      and "is_terminal (hd_state (en_record e))" and "fmlookup dir Manifest \<noteq> None"
      and "consistent c (fmupd ident dir (st_dirs st)) (index_replace ix ident e)"
proof (cases "ident |\<in>| st_foreign st \<or> ident |\<in>| st_leases st")
  case True
  then show thesis using skipped by (auto simp: recover_one_def)
next
  case False
  show thesis
    using inv
  proof (cases rule: read_durable_result [where ident = ident])
    case missing
    then show thesis
      using skipped False by (auto simp: recover_one_def manifest_present_def split: option.splits)
  next
    case (read dir d n)
    have present: "fmlookup dir Manifest \<noteq> None"
      using read by (auto simp: manifest_of_def split: option.splits)
    show thesis
    proof (cases "is_terminal (hd_state (invocation d))")
      case True
      then show thesis
        using recovered [of "index_entry_of d (sat_add (payload_bytes d) n)" dir] False read present
          consistent_replace [OF inv read(4,3)]
        by (simp add: recover_one_def fmupd_lookup index_entry_of_def)
    next
      case live: False
      let ?r = "interrupted_record env (invocation d)"
      let ?d = "d\<lparr>deferred := extend_deferred (finished_or_now env ?r) (deferred d),
          invocation := header_of ?r\<rparr>"
      obtain d2 k b dir2 where p: "persist c ?d True (write_details c ?r dir) = (d2, k, b, dir2)"
        by (metis prod_cases4)
      have "durable_ok ident ?d" using interrupted_ok [OF read(4)] .
      then have ok: "durable_ok ident d2" and m: "manifest_of c dir2 = Some d2"
        and state: "hd_state (invocation d2) = Interrupted"
        using p codec
        by (auto simp: persist_def durable_ok_def Let_def manifest_of_written interrupted_record_def)
      have "fmlookup dir2 Manifest \<noteq> None" using p by (auto simp: persist_def Let_def)
      then show thesis
        using recovered [of "index_entry_of d2 k" dir2] False read live p state
          consistent_replace [OF inv ok m]
        by (simp add: recover_one_def Let_def index_entry_of_def)
    qed
  qed
qed

lemma recover_ids_inv:
  assumes "consistent c (st_dirs st) ix" and "codec_ok c"
  shows "\<exists>rec st'. recover_ids c env ids st = (Inr rec, st') \<and> st_index st' = st_index st \<and>
           st_foreign st' = st_foreign st \<and> consistent c (st_dirs st') (replace_recovered rec ix) \<and>
           (\<forall>(i, e) \<in> set rec. is_terminal (hd_state (en_record e))) \<and>
           (\<forall>i \<in> set ids. i |\<notin>| st_foreign st \<and> i |\<notin>| st_leases st \<and> manifest_present i (st_dirs st)
              \<longrightarrow> i \<in> fst ` set rec)"
  using assms
proof (induction ids arbitrary: st ix)
  case Nil
  then show ?case by (simp add: replace_recovered_def)
next
  case (Cons ident rest)
  show ?case
    using Cons.prems
  proof (cases rule: recover_one_cases [where ident = ident and env = env])
    case skipped
    then show ?thesis using Cons.IH [OF Cons.prems] by fastforce
  next
    case (recovered e dir)
    let ?st = "st\<lparr>st_dirs := fmupd ident dir (st_dirs st)\<rparr>"
    obtain rec st' where rec: "recover_ids c env rest ?st = (Inr rec, st')" "st_index st' = st_index st"
      "st_foreign st' = st_foreign st"
      "consistent c (st_dirs st') (replace_recovered rec (index_replace ix ident e))"
      "\<forall>(i, e) \<in> set rec. is_terminal (hd_state (en_record e))"
      "\<forall>i \<in> set rest. i |\<notin>| st_foreign st \<and> i |\<notin>| st_leases st \<and> manifest_present i (st_dirs ?st)
         \<longrightarrow> i \<in> fst ` set rec"
      using Cons.IH [of ?st "index_replace ix ident e"] recovered Cons.prems(2) by auto
    have "manifest_present i (st_dirs st) \<Longrightarrow> manifest_present i (st_dirs ?st)" for i
      using recovered(5) by (simp add: manifest_present_def)
    then show ?thesis using recovered rec by fastforce
  qed
qed

lemma recover_orphaned_inv:
  assumes "store_inv c st" and "codec_ok c"
  shows "store_inv c (snd (recover_orphaned_invocations c env st))"
  using recover_ids_inv [of c st "st_index st" env "nonterminal_ids (st_index st)"] assms
  by (auto simp: store_inv_def recover_orphaned_invocations_def replace_recovered_def)

lemma store_open_inv:
  assumes dirs: "\<And>ident dir. fmlookup (st_dirs st) ident = Some dir \<Longrightarrow> dir_ok c ident dir"
    and codec: "codec_ok c"
  shows "fst (store_open c env publisher live st) = Inr ()"
    and "store_inv c (snd (store_open c env publisher live st))"
proof -
  obtain ix dirs where load: "load_index c (st_dirs st) = (Inr ix, dirs)" "consistent c dirs ix"
    using load_index_ok [of "st_dirs st" c] dirs by blast
  let ?ch = "cleanup_stale_change_publishers (finsert publisher live)
      (fmupd publisher (env_change env) (st_changes st))"
  let ?st = "st\<lparr>st_trash := fmempty, st_leases := {||}, st_publisher := publisher,
                   st_changes := ?ch, st_observed := ?ch, st_next_check_us := 0,
                   st_index := index_default, st_io := io_stats_default, st_dirs := dirs,
                   st_index := ix\<rparr>"
  obtain rec st' where rec: "recover_ids c env (nonterminal_ids ix) ?st = (Inr rec, st')"
    "consistent c (st_dirs st') (replace_recovered rec ix)"
    using recover_ids_inv [of c ?st ix env "nonterminal_ids ix"] load codec by auto
  show "fst (store_open c env publisher live st) = Inr ()"
    "store_inv c (snd (store_open c env publisher live st))"
    using load rec by (auto simp: store_open_def Let_def store_inv_def)
qed

lemma replace_recovered_lookup:
  "fmlookup (entries (replace_recovered rec ix)) j = Some e \<Longrightarrow>
     (\<exists>e'. (j, e') \<in> set rec \<and> hd_state (en_record e) = hd_state (en_record e')) \<or>
     (j \<notin> fst ` set rec \<and> fmlookup (entries ix) j = Some e)"
proof (induction rec arbitrary: ix)
  case Nil
  then show ?case by (simp add: replace_recovered_def)
next
  case (Cons r rec)
  obtain i e' where r: "r = (i, e')" by fastforce
  show ?case
    using Cons.IH [of "index_replace ix i e'"] Cons.prems r
    by (auto simp: carry_telemetry_def split: if_splits option.splits)
qed

end
