(* ===== verification/Store_Retention.thy ===== *)
theory Store_Retention
  imports Store_Invariant
begin

text \<open>
  Retention, \<^verbatim>\<open>bazel-mcp-store/src/retention.rs\<close>: the reclamation of terminal evidence by age and
  by quota. A deferred result that has not expired keeps its manifest and details and loses
  its raw evidence only; everything else that is reclaimed leaves the store by one rename.
\<close>

definition GC_LOW_WATERMARK_PERCENT :: nat where
  "GC_LOW_WATERMARK_PERCENT = 80"

definition GC_NOTIFICATION_BATCH_SIZE :: nat where
  "GC_NOTIFICATION_BATCH_SIZE = 64"

definition retention_age_elapsed :: "int \<Rightarrow> int \<Rightarrow> bool" where
  "retention_age_elapsed finished_at cutoff \<longleftrightarrow> finished_at \<le> cutoff"

record reclaim_outcome =
  ro_changed :: bool
  ro_deleted :: bool
  ro_reclaimed :: bool

definition reclaim_nothing :: reclaim_outcome where
  "reclaim_nothing = \<lparr>ro_changed = False, ro_deleted = False, ro_reclaimed = False\<rparr>"

text \<open>
  A rename onto a directory of the trash that is not empty, which a failed unlink leaves there,
  is refused by the file system.
\<close>

definition rename_to_trash ::
  "invocation_id \<Rightarrow> 'b store \<Rightarrow> (trash_name option, store_error) result \<times> 'b store"
where
  "rename_to_trash ident st =
     (case fmlookup (st_dirs st) ident of
        None \<Rightarrow> (Inr None, st)
      | Some dir \<Rightarrow>
          (case fmlookup (st_trash st) (TrashDir ident) of
             Some old \<Rightarrow>
               if old \<noteq> fmempty then (Inl (StoreIo OtherIo), st)
               else (Inr (Some (TrashDir ident)),
                     st\<lparr>st_dirs := fmdrop ident (st_dirs st),
                        st_trash := fmupd (TrashDir ident) dir (st_trash st)\<rparr>)
           | None \<Rightarrow>
               (Inr (Some (TrashDir ident)),
                st\<lparr>st_dirs := fmdrop ident (st_dirs st),
                   st_trash := fmupd (TrashDir ident) dir (st_trash st)\<rparr>)))"

definition raw_evidence :: "file_name list" where
  "raw_evidence = [Stdout, Stderr, Evidence, Bep, Artifacts, TestLogsRaw, TestLogEvidence]"

definition stage_raw_evidence :: "invocation_id \<Rightarrow> 'b store \<Rightarrow> 'b store" where
  "stage_raw_evidence ident st =
     (case fmlookup (st_dirs st) ident of
        None \<Rightarrow> st\<lparr>st_trash := fmupd (TrashEvidence ident) fmempty (st_trash st)\<rparr>
      | Some dir \<Rightarrow>
          st\<lparr>st_dirs := fmupd ident (fmfilter (\<lambda>name. name \<notin> set raw_evidence) dir) (st_dirs st),
             st_trash := fmupd (TrashEvidence ident)
                           (fmfilter (\<lambda>name. name \<in> set raw_evidence) dir) (st_trash st)\<rparr>)"

definition finish_staged_evidence :: "bool \<Rightarrow> invocation_id \<Rightarrow> 'b store \<Rightarrow> 'b store" where
  "finish_staged_evidence unlink_ok ident st =
     (if unlink_ok then st\<lparr>st_trash := fmdrop (TrashEvidence ident) (st_trash st)\<rparr> else st)"

text \<open>
  \<^verbatim>\<open>reclaim_terminal\<close>. Unlinking what the rename has moved to the trash may fail, which the flag
  of the second argument says; a restart empties the trash.
\<close>

definition reclaim_terminal ::
  "'b codec \<Rightarrow> env \<Rightarrow> bool \<Rightarrow> invocation_id \<Rightarrow> 'b store
     \<Rightarrow> (reclaim_outcome, store_error) result \<times> 'b store"
where
  "reclaim_terminal c env unlink_ok ident st =
     (case read_durable c ident st of
        Inl e \<Rightarrow> if e = StoreIo NotFound then (Inr reclaim_nothing, st) else (Inl e, st)
      | Inr (durable, manifest_bytes) \<Rightarrow>
          if \<not> is_terminal (hd_state (invocation durable)) then (Inr reclaim_nothing, st)
          else
            (let held = sat_add (payload_bytes durable) manifest_bytes;
                 protected =
                   (case deferred durable of
                      None \<Rightarrow> False
                    | Some d \<Rightarrow>
                        \<not> is_expired (env_now_ms env) (is_terminal (hd_state (invocation durable))) d)
             in if protected
                then case persist_durable c ident durable True (stage_raw_evidence ident st) of
                       (Inl e, st1) \<Rightarrow> (Inl e, st1)
                     | (Inr (d1, retained), st1) \<Rightarrow>
                         (let st2 = st1\<lparr>st_index :=
                                          index_replace (st_index st1) ident
                                            (index_entry_of d1 retained)\<rparr>
                          in (Inr \<lparr>ro_changed = True, ro_deleted = False,
                                   ro_reclaimed = retained < held\<rparr>,
                              finish_staged_evidence unlink_ok ident st2))
                else case rename_to_trash ident st of
                       (Inl e, st1) \<Rightarrow> (Inl e, st1)
                     | (Inr None, st1) \<Rightarrow> (Inr reclaim_nothing, st1)
                     | (Inr (Some trash), st1) \<Rightarrow>
                         (let st2 = st1\<lparr>st_io := record_gc_rename (st_io st1),
                                        st_index := index_remove (st_index st1) ident\<rparr>;
                              st3 = (if unlink_ok
                                     then st2\<lparr>st_trash := fmdrop trash (st_trash st2)\<rparr>
                                     else st2)
                          in (Inr \<lparr>ro_changed = True, ro_deleted = True, ro_reclaimed = True\<rparr>,
                              st3\<lparr>st_io := record_gc_unlink unlink_ok (st_io st3)\<rparr>))))"

text \<open>The counters that \<^verbatim>\<open>enforce_retention\<close> passes along.\<close>

record gc_progress =
  gp_reclaimed :: nat
  gp_pending_notifications :: nat
  gp_pending_lock_cleanup :: "invocation_id list"

definition publish_retention_batch ::
  "env \<Rightarrow> gc_progress \<Rightarrow> 'b store \<Rightarrow> gc_progress \<times> 'b store"
where
  "publish_retention_batch env gp st =
     (gp\<lparr>gp_pending_lock_cleanup := [], gp_pending_notifications := 0\<rparr>, publish_change env st)"

definition reclaim_retention_candidate ::
  "'b codec \<Rightarrow> env \<Rightarrow> bool \<Rightarrow> invocation_id \<Rightarrow> gc_progress \<Rightarrow> 'b store
     \<Rightarrow> (gc_progress, store_error) result \<times> 'b store"
where
  "reclaim_retention_candidate c env unlink_ok ident gp st =
     (case reclaim_terminal c env unlink_ok ident st of
        (Inl e, st1) \<Rightarrow>
          (Inl e, if 0 < gp_pending_notifications gp
                  then snd (publish_retention_batch env gp st1) else st1)
      | (Inr outcome, st1) \<Rightarrow>
          (let gp1 = gp\<lparr>gp_reclaimed := gp_reclaimed gp + (if ro_reclaimed outcome then 1 else 0)\<rparr>;
               gp2 = (if ro_deleted outcome
                      then gp1\<lparr>gp_pending_lock_cleanup := gp_pending_lock_cleanup gp1 @ [ident]\<rparr>
                      else gp1)
           in if ro_changed outcome
              then let gp3 = gp2\<lparr>gp_pending_notifications := gp_pending_notifications gp2 + 1\<rparr>
                   in if GC_NOTIFICATION_BATCH_SIZE \<le> gp_pending_notifications gp3
                      then let (gp4, st2) = publish_retention_batch env gp3 st1 in (Inr gp4, st2)
                      else (Inr gp3, st1)
              else (Inr gp2, st1)))"

text \<open>The current size of the evidence of the running invocations.\<close>

fun measure_live ::
  "'b codec \<Rightarrow> invocation_id list \<Rightarrow> 'b store \<Rightarrow> 'b store"
where
  "measure_live c [] st = st"
| "measure_live c (ident # rest) st =
     (let current = (case fmlookup (st_dirs st) ident of None \<Rightarrow> 0 | Some dir \<Rightarrow> evidence_size c dir);
          ix = st_index st
      in measure_live c rest
           (case fmlookup (entries ix) ident of
              None \<Rightarrow> st
            | Some e \<Rightarrow>
                if is_terminal (hd_state (en_record e)) then st
                else st\<lparr>st_index :=
                          ix\<lparr>entries := fmupd ident (e\<lparr>en_retained_bytes := current\<rparr>) (entries ix),
                             retained_bytes :=
                               sat_add (sat_sub (retained_bytes ix) (en_retained_bytes e)) current\<rparr>\<rparr>))"

text \<open>The pass by age: every candidate that finished before the cutoff.\<close>

fun reclaim_by_age ::
  "'b codec \<Rightarrow> env \<Rightarrow> bool \<Rightarrow> int \<Rightarrow> time_key list \<Rightarrow> gc_progress \<Rightarrow> invocation_id fset \<Rightarrow> 'b store
     \<Rightarrow> (gc_progress \<times> invocation_id fset, store_error) result \<times> 'b store"
where
  "reclaim_by_age c env unlink_ok cutoff [] gp processed st = (Inr (gp, processed), st)"
| "reclaim_by_age c env unlink_ok cutoff ((finished, ident) # rest) gp processed st =
     (if retention_age_elapsed finished cutoff
      then case reclaim_retention_candidate c env unlink_ok ident gp st of
             (Inl e, st1) \<Rightarrow> (Inl e, st1)
           | (Inr gp1, st1) \<Rightarrow>
               reclaim_by_age c env unlink_ok cutoff rest gp1 (finsert ident processed) st1
      else reclaim_by_age c env unlink_ok cutoff rest gp processed st)"

text \<open>The pass by quota: oldest first, until the low watermark is reached.\<close>

fun reclaim_by_quota ::
  "'b codec \<Rightarrow> env \<Rightarrow> bool \<Rightarrow> nat \<Rightarrow> time_key list \<Rightarrow> gc_progress \<Rightarrow> invocation_id fset \<Rightarrow> 'b store
     \<Rightarrow> (gc_progress, store_error) result \<times> 'b store"
where
  "reclaim_by_quota c env unlink_ok low [] gp processed st = (Inr gp, st)"
| "reclaim_by_quota c env unlink_ok low ((_, ident) # rest) gp processed st =
     (if retained_bytes (st_index st) \<le> low then (Inr gp, st)
      else if ident |\<in>| processed then reclaim_by_quota c env unlink_ok low rest gp processed st
      else case reclaim_retention_candidate c env unlink_ok ident gp st of
             (Inl e, st1) \<Rightarrow> (Inl e, st1)
           | (Inr gp1, st1) \<Rightarrow>
               reclaim_by_quota c env unlink_ok low rest gp1 (finsert ident processed) st1)"

definition low_watermark :: "nat \<Rightarrow> nat" where
  "low_watermark maximum_bytes = sat_mul maximum_bytes GC_LOW_WATERMARK_PERCENT div 100"

definition retention_cutoff :: "int \<Rightarrow> nat \<Rightarrow> int" where
  "retention_cutoff now maximum_age_ms =
     sat_sub_i64 now (if int maximum_age_ms \<le> i64_max then int maximum_age_ms else i64_max)"

text \<open>
  The two passes over the candidates, which are taken once, and the last notification.
\<close>

definition reclaim_passes ::
  "'b codec \<Rightarrow> env \<Rightarrow> bool \<Rightarrow> int \<Rightarrow> nat \<Rightarrow> 'b store \<Rightarrow> (nat, store_error) result \<times> 'b store"
where
  "reclaim_passes c env unlink_ok cutoff maximum_bytes st =
     (let candidates = sorted_list_of_fset (terminal_by_finished (st_index st));
          gp0 = \<lparr>gp_reclaimed = 0, gp_pending_notifications = 0, gp_pending_lock_cleanup = []\<rparr>
      in case reclaim_by_age c env unlink_ok cutoff candidates gp0 {||} st of
           (Inl e, st1) \<Rightarrow> (Inl e, st1)
         | (Inr (gp1, processed), st1) \<Rightarrow>
             (case (if maximum_bytes < retained_bytes (st_index st1)
                    then reclaim_by_quota c env unlink_ok (low_watermark maximum_bytes)
                           candidates gp1 processed st1
                    else (Inr gp1, st1)) of
                (Inl e, st2) \<Rightarrow> (Inl e, st2)
              | (Inr gp2, st2) \<Rightarrow>
                  (Inr (gp_reclaimed gp2),
                   if 0 < gp_pending_notifications gp2
                   then snd (publish_retention_batch env gp2 st2) else st2)))"

definition enforce_retention ::
  "'b codec \<Rightarrow> env \<Rightarrow> bool \<Rightarrow> bool \<Rightarrow> nat \<Rightarrow> nat \<Rightarrow> 'b store
     \<Rightarrow> (nat, store_error) result \<times> 'b store"
where
  "enforce_retention c env maintenance_free unlink_ok maximum_age_ms maximum_bytes st =
     (if \<not> maintenance_free then (Inr 0, st)
      else
        case refresh_index c True st of
          (Inl e, st1) \<Rightarrow> (Inl e, st1)
        | (Inr _, st1) \<Rightarrow>
            (case recover_orphaned_invocations c env st1 of
               (Inl e, st2) \<Rightarrow> (Inl e, st2)
             | (Inr _, st2) \<Rightarrow>
                 (case delete_expired_deferred_results c env (env_now_ms env) st2 of
                    (Inl e, st3) \<Rightarrow> (Inl e, st3)
                  | (Inr _, st3) \<Rightarrow>
                      reclaim_passes c env unlink_ok
                        (retention_cutoff (env_now_ms env) maximum_age_ms) maximum_bytes
                        (measure_live c (nonterminal_ids (st_index st3)) st3))))"

section \<open>What one reclamation does\<close>

definition retention_protects :: "int \<Rightarrow> durable_record \<Rightarrow> bool" where
  "retention_protects now d \<longleftrightarrow>
     \<not> is_terminal (hd_state (invocation d)) \<or>
     (case deferred d of None \<Rightarrow> False | Some r \<Rightarrow> \<not> is_expired now True r)"

lemma persist_durable_index:
  "persist_durable c ident d recount st = (r, st') \<Longrightarrow>
     st_index st' = st_index st \<and> st_trash st' = st_trash st"
  by (auto simp: persist_durable_def Let_def split: option.splits prod.splits)

lemma stage_raw_evidence_lookup:
  "fmlookup (st_dirs st) ident = Some dir \<Longrightarrow>
     st_dirs (stage_raw_evidence ident st) =
       fmupd ident (fmfilter (\<lambda>name. name \<notin> set raw_evidence) dir) (st_dirs st)"
  by (simp add: stage_raw_evidence_def)

lemma stage_raw_evidence_index [simp]: "st_index (stage_raw_evidence ident st) = st_index st"
  by (simp add: stage_raw_evidence_def split: option.split)

lemma manifest_not_raw [simp]: "Manifest \<notin> set raw_evidence" "Details \<notin> set raw_evidence"
  by (simp_all add: raw_evidence_def)

lemma manifest_of_filter [simp]:
  "manifest_of c (fmfilter (\<lambda>name. name \<notin> set raw_evidence) dir) = manifest_of c dir"
  by (simp add: manifest_of_def)

lemma dir_ok_filter [simp]:
  "dir_ok c ident (fmfilter (\<lambda>name. name \<notin> set raw_evidence) dir) = dir_ok c ident dir"
  by (simp add: dir_ok_def)

lemma stage_raw_evidence_inv:
  "store_inv c st \<Longrightarrow> store_inv c (stage_raw_evidence ident st)"
  by (cases "fmlookup (st_dirs st) ident")
    (simp_all add: store_inv_def stage_raw_evidence_def consistent_sidecar)

lemma finish_staged_simps [simp]:
  "st_index (finish_staged_evidence b ident st) = st_index st"
  "st_dirs (finish_staged_evidence b ident st) = st_dirs st"
  by (simp_all add: finish_staged_evidence_def)

lemma rename_to_trash_result:
  assumes "fmlookup (st_dirs st) ident = Some dir"
  shows "(\<exists>trash. rename_to_trash ident st = (Inr (Some (TrashDir ident)),
            st\<lparr>st_dirs := fmdrop ident (st_dirs st), st_trash := trash\<rparr>)) \<or>
         rename_to_trash ident st = (Inl (StoreIo OtherIo), st)"
  using assms
  by (cases "fmlookup (st_trash st) (TrashDir ident)") (auto simp: rename_to_trash_def)

text \<open>
  The outcomes of a reclamation: there is no manifest, the invocation is not reclaimed, its
  raw evidence goes, all of it goes, or an earlier deletion blocks this one.
\<close>

lemma reclaim_terminal_cases:
  assumes inv: "store_inv c st" and codec: "codec_ok c"
  obtains (missing) "reclaim_terminal c env unlink_ok ident st = (Inr reclaim_nothing, st)"
      and "read_durable c ident st = Inl (StoreIo NotFound)"
  | (live) d n where "reclaim_terminal c env unlink_ok ident st = (Inr reclaim_nothing, st)"
      and "read_durable c ident st = Inr (d, n)" and "\<not> is_terminal (hd_state (invocation d))"
  | (pruned) d n dir d1 k outcome st' where
      "reclaim_terminal c env unlink_ok ident st = (Inr outcome, st')"
      and "read_durable c ident st = Inr (d, n)" and "retention_protects (env_now_ms env) d"
      and "fmlookup (st_dirs st) ident = Some dir"
      and "st_dirs st' = fmupd ident (fmupd Manifest (enc_durable c d1)
             (fmfilter (\<lambda>name. name \<notin> set raw_evidence) dir)) (st_dirs st)"
      and "st_index st' = index_replace (st_index st) ident (index_entry_of d1 k)"
      and "invocation d1 = invocation d" and "deferred d1 = deferred d" and "durable_ok ident d1"
      and "store_inv c st'"
  | (removed) d n outcome st' where
      "reclaim_terminal c env unlink_ok ident st = (Inr outcome, st')"
      and "read_durable c ident st = Inr (d, n)" and "\<not> retention_protects (env_now_ms env) d"
      and "st_dirs st' = fmdrop ident (st_dirs st)"
      and "st_index st' = index_remove (st_index st) ident"
  | (blocked) d n where
      "reclaim_terminal c env unlink_ok ident st = (Inl (StoreIo OtherIo), st)"
      and "read_durable c ident st = Inr (d, n)" and "\<not> retention_protects (env_now_ms env) d"
  using inv [unfolded store_inv_def]
proof (cases rule: read_durable_result [where ident = ident])
  case missing
  then show thesis using that(1) by (simp add: reclaim_terminal_def)
next
  case (read dir d n)
  show thesis
  proof (cases "is_terminal (hd_state (invocation d))")
    case False
    then show thesis using that(2) read by (simp add: reclaim_terminal_def)
  next
    case terminal: True
    show thesis
    proof (cases "retention_protects (env_now_ms env) d")
      case True
      then obtain r where r: "deferred d = Some r" "\<not> is_expired (env_now_ms env) True r"
        using terminal by (auto simp: retention_protects_def split: option.splits)
      have staged: "fmlookup (st_dirs (stage_raw_evidence ident st)) ident =
          Some (fmfilter (\<lambda>name. name \<notin> set raw_evidence) dir)"
        using read(2) by (simp add: stage_raw_evidence_lookup)
      show thesis
        using persist_durable_cases [of c ident d True "stage_raw_evidence ident st"]
      proof cases
        case missing
        then show thesis using staged by simp
      next
        case (committed dir' d1 k st')
        have ok: "durable_ok ident d1" using read(4) committed by (simp add: durable_ok_def)
        have "consistent c (st_dirs st') (index_replace (st_index st) ident (index_entry_of d1 k))"
          using persisted_consistent [OF stage_raw_evidence_inv [OF inv] codec read(4) committed(1)]
            committed(4) by simp
        then show thesis
          using that(3) [of _ _ d n dir d1 k] read True terminal r staged committed ok
          by (simp add: reclaim_terminal_def Let_def stage_raw_evidence_lookup store_inv_def)
      qed
    next
      case False
      consider (ok) trash where "rename_to_trash ident st = (Inr (Some (TrashDir ident)),
            st\<lparr>st_dirs := fmdrop ident (st_dirs st), st_trash := trash\<rparr>)"
        | (no) "rename_to_trash ident st = (Inl (StoreIo OtherIo), st)"
        using rename_to_trash_result [OF read(2)] by blast
      then show thesis
      proof cases
        case ok
        then have "\<exists>outcome st'. reclaim_terminal c env unlink_ok ident st = (Inr outcome, st') \<and>
            st_dirs st' = fmdrop ident (st_dirs st) \<and> st_index st' = index_remove (st_index st) ident"
          using read(1) False terminal
          by (cases "deferred d") (simp_all add: reclaim_terminal_def retention_protects_def Let_def)
        then show thesis using that(4) [OF _ read(1) False] by blast
      next
        case no
        then have "reclaim_terminal c env unlink_ok ident st = (Inl (StoreIo OtherIo), st)"
          using read(1) False terminal
          by (cases "deferred d") (simp_all add: reclaim_terminal_def retention_protects_def Let_def)
        then show thesis using that(5) [OF _ read(1) False] by blast
      qed
    qed
  qed
qed

text \<open>
  What retention may do to an invocation: nothing if it is protected, but for its raw evidence
  and its index entry's byte count.
\<close>

definition preserved :: "'b codec \<Rightarrow> int \<Rightarrow> 'b store \<Rightarrow> 'b store \<Rightarrow> bool" where
  "preserved c now st st' \<longleftrightarrow>
     (\<forall>ident dir d. fmlookup (st_dirs st) ident = Some dir \<longrightarrow> manifest_of c dir = Some d \<longrightarrow>
        retention_protects now d \<longrightarrow>
        (\<exists>dir' d'. fmlookup (st_dirs st') ident = Some dir' \<and> manifest_of c dir' = Some d' \<and>
           invocation d' = invocation d \<and> deferred d' = deferred d \<and>
           fmlookup dir' Details = fmlookup dir Details))"

lemma preserved_refl: "preserved c now st st"
  by (simp add: preserved_def)

lemma preserved_same_dirs: "st_dirs st' = st_dirs st \<Longrightarrow> preserved c now st st'"
  by (simp add: preserved_def)

lemma protects_same:
  "invocation d' = invocation d \<Longrightarrow> deferred d' = deferred d
     \<Longrightarrow> retention_protects now d' = retention_protects now d"
  by (simp add: retention_protects_def)

lemma preserved_trans:
  assumes "preserved c now st1 st2" and "preserved c now st2 st3"
  shows "preserved c now st1 st3"
  unfolding preserved_def
proof (intro allI impI)
  fix ident dir d
  assume "fmlookup (st_dirs st1) ident = Some dir" "manifest_of c dir = Some d" "retention_protects now d"
  moreover from this obtain dir2 d2 where two: "fmlookup (st_dirs st2) ident = Some dir2"
    "manifest_of c dir2 = Some d2" "invocation d2 = invocation d" "deferred d2 = deferred d"
    "fmlookup dir2 Details = fmlookup dir Details"
    using assms(1) unfolding preserved_def by blast
  ultimately have "retention_protects now d2" using protects_same [of d2 d] by simp
  then obtain dir3 d3 where "fmlookup (st_dirs st3) ident = Some dir3"
    "manifest_of c dir3 = Some d3" "invocation d3 = invocation d2" "deferred d3 = deferred d2"
    "fmlookup dir3 Details = fmlookup dir2 Details"
    using assms(2) two(1,2) unfolding preserved_def by blast
  then show "\<exists>dir' d'. fmlookup (st_dirs st3) ident = Some dir' \<and> manifest_of c dir' = Some d' \<and>
      invocation d' = invocation d \<and> deferred d' = deferred d \<and>
      fmlookup dir' Details = fmlookup dir Details"
    using two by auto
qed

text \<open>An invocation is settled when retention has nothing to take from it.\<close>

definition settled :: "'b codec \<Rightarrow> int \<Rightarrow> invocation_id \<Rightarrow> 'b store \<Rightarrow> bool" where
  "settled c now ident st \<longleftrightarrow>
     (case read_durable c ident st of Inl _ \<Rightarrow> True | Inr (d, _) \<Rightarrow> retention_protects now d)"

lemma read_durable_same_dir:
  "fmlookup (st_dirs st') ident = fmlookup (st_dirs st) ident
     \<Longrightarrow> read_durable c ident st' = read_durable c ident st"
  by (simp add: read_durable_def)

lemma manifest_of_read:
  "fmlookup (st_dirs st) ident = Some dir \<Longrightarrow> manifest_of c dir = Some d
     \<Longrightarrow> \<exists>n. read_durable c ident st = Inr (d, n)"
  by (auto simp: manifest_of_def read_durable_def split: option.splits sum.splits)

lemma settled_other:
  "fmlookup (st_dirs st') j = fmlookup (st_dirs st) j \<Longrightarrow> settled c now j st' = settled c now j st"
  using read_durable_same_dir [of st' j st c] by (simp add: settled_def)

text \<open>The effect of reclaiming one invocation on the store.\<close>

definition reclaims ::
  "'b codec \<Rightarrow> int \<Rightarrow> invocation_id \<Rightarrow> 'b store \<Rightarrow> 'b store \<Rightarrow> bool"
where
  "reclaims c now ident st st' \<longleftrightarrow>
     store_inv c st' \<and> preserved c now st st' \<and>
     (\<forall>j. j \<noteq> ident \<longrightarrow> fmlookup (st_dirs st') j = fmlookup (st_dirs st) j)"

lemma pruned_reclaims:
  assumes inv: "store_inv c st'" and codec: "codec_ok c"
    and d: "fmlookup (st_dirs st) ident = Some dir" "manifest_of c dir = Some d"
    and dirs: "st_dirs st' = fmupd ident (fmupd Manifest (enc_durable c d1)
             (fmfilter (\<lambda>name. name \<notin> set raw_evidence) dir)) (st_dirs st)"
    and same: "invocation d1 = invocation d" "deferred d1 = deferred d" and ok: "durable_ok ident d1"
    and protected: "retention_protects now d"
  shows "reclaims c now ident st st'" and "settled c now ident st'"
proof -
  let ?dir = "fmupd Manifest (enc_durable c d1) (fmfilter (\<lambda>name. name \<notin> set raw_evidence) dir)"
  have m: "manifest_of c ?dir = Some d1"
    using ok codec by (simp add: manifest_of_written durable_ok_def)
  have "preserved c now st st'"
    unfolding preserved_def
  proof (intro allI impI)
    fix i dir0 d0
    assume a: "fmlookup (st_dirs st) i = Some dir0" "manifest_of c dir0 = Some d0"
    show "\<exists>dir' d'. fmlookup (st_dirs st') i = Some dir' \<and> manifest_of c dir' = Some d' \<and>
        invocation d' = invocation d0 \<and> deferred d' = deferred d0 \<and>
        fmlookup dir' Details = fmlookup dir0 Details"
    proof (cases "i = ident")
      case True
      then show ?thesis using a d dirs m same by (intro exI [of _ ?dir] exI [of _ d1]) simp
    next
      case False
      then show ?thesis using a dirs by simp
    qed
  qed
  then show "reclaims c now ident st st'"
    using inv dirs by (simp add: reclaims_def)
  have "fmlookup (st_dirs st') ident = Some ?dir" using dirs by simp
  then obtain n where "read_durable c ident st' = Inr (d1, n)"
    using manifest_of_read [OF _ m] by blast
  then show "settled c now ident st'"
    using protected protects_same [OF same] by (simp add: settled_def)
qed

lemma removed_reclaims:
  assumes inv: "store_inv c st" and dirs: "st_dirs st' = fmdrop ident (st_dirs st)"
    and index: "st_index st' = index_remove (st_index st) ident"
    and read: "read_durable c ident st = Inr (d, n)" and free: "\<not> retention_protects now d"
  shows "reclaims c now ident st st'" and "settled c now ident st'"
proof -
  have "store_inv c st'" using inv dirs index by (simp add: store_inv_def consistent_remove)
  moreover have "preserved c now st st'"
    unfolding preserved_def
  proof (intro allI impI)
    fix i dir' d'
    assume a: "fmlookup (st_dirs st) i = Some dir'" "manifest_of c dir' = Some d'"
      "retention_protects now d'"
    have "i \<noteq> ident" using manifest_of_read [OF a(1,2)] read free a(3) by auto
    then show "\<exists>dir d. fmlookup (st_dirs st') i = Some dir \<and> manifest_of c dir = Some d \<and>
        invocation d = invocation d' \<and> deferred d = deferred d' \<and>
        fmlookup dir Details = fmlookup dir' Details"
      using a dirs by simp
  qed
  ultimately show "reclaims c now ident st st'"
    using dirs by (auto simp: reclaims_def)
  show "settled c now ident st'" using dirs by (simp add: settled_def read_durable_def)
qed

lemma reclaims_refl: "store_inv c st \<Longrightarrow> reclaims c now ident st st"
  by (simp add: reclaims_def preserved_refl)

lemma reclaim_terminal_facts:
  assumes inv: "store_inv c st" and codec: "codec_ok c"
    and run: "reclaim_terminal c env unlink_ok ident st = (r, st')"
  shows "reclaims c (env_now_ms env) ident st st'"
    and "r = Inr outcome \<Longrightarrow> settled c (env_now_ms env) ident st'"
proof -
  have "reclaims c (env_now_ms env) ident st st' \<and>
      (r = Inr outcome \<longrightarrow> settled c (env_now_ms env) ident st')"
    using inv codec
  proof (cases rule: reclaim_terminal_cases [where env = env and unlink_ok = unlink_ok and ident = ident])
    case missing
    then show ?thesis using run inv by (simp add: reclaims_refl settled_def)
  next
    case (live d n)
    then show ?thesis using run inv by (simp add: reclaims_refl settled_def retention_protects_def)
  next
    case (pruned d n dir d1 k outcome' st'')
    have "manifest_of c dir = Some d"
      using pruned(2,4) by (auto simp: read_durable_def manifest_of_def split: option.splits sum.splits)
    then show ?thesis
      using pruned_reclaims [OF pruned(10) codec pruned(4) _ pruned(5,7,8,9,3)] run pruned(1) by simp
  next
    case (removed d n outcome' st'')
    then show ?thesis using removed_reclaims [OF inv removed(4,5,2,3)] run by simp
  next
    case (blocked d n)
    then show ?thesis using run inv by (simp add: reclaims_refl)
  qed
  then show "reclaims c (env_now_ms env) ident st st'"
    "r = Inr outcome \<Longrightarrow> settled c (env_now_ms env) ident st'"
    by simp_all
qed

section \<open>The passes\<close>

lemma candidate_facts:
  assumes inv: "store_inv c st" and codec: "codec_ok c"
    and run: "reclaim_retention_candidate c env unlink_ok ident gp st = (r, st')"
  shows "reclaims c (env_now_ms env) ident st st'"
    and "r = Inr gp' \<Longrightarrow> settled c (env_now_ms env) ident st'"
proof -
  obtain r1 st1 where rt: "reclaim_terminal c env unlink_ok ident st = (r1, st1)" by fastforce
  have same: "st_dirs st' = st_dirs st1" "st_index st' = st_index st1"
    using run rt
    by (auto simp: reclaim_retention_candidate_def publish_retention_batch_def Let_def
        split: sum.splits if_splits)
  show "reclaims c (env_now_ms env) ident st st'"
    using reclaim_terminal_facts(1) [OF inv codec rt] same
    by (simp add: reclaims_def store_inv_def preserved_def)
  assume "r = Inr gp'"
  then obtain outcome where "r1 = Inr outcome"
    using run rt by (auto simp: reclaim_retention_candidate_def split: sum.splits)
  then show "settled c (env_now_ms env) ident st'"
    using reclaim_terminal_facts(2) [OF inv codec rt] settled_other [of st' ident st1] same by simp
qed

text \<open>What a pass over candidates guarantees.\<close>

definition pass_ok :: "'b codec \<Rightarrow> int \<Rightarrow> 'b store \<Rightarrow> 'b store \<Rightarrow> bool" where
  "pass_ok c now st st' \<longleftrightarrow>
     store_inv c st' \<and> preserved c now st st' \<and>
     (\<forall>j. settled c now j st' \<or> fmlookup (st_dirs st') j = fmlookup (st_dirs st) j)"

lemma pass_ok_refl: "store_inv c st \<Longrightarrow> pass_ok c now st st"
  by (simp add: pass_ok_def preserved_refl)

lemma pass_ok_settled: "pass_ok c now st st' \<Longrightarrow> settled c now j st \<Longrightarrow> settled c now j st'"
  unfolding pass_ok_def using settled_other by blast

lemma pass_ok_trans:
  assumes "pass_ok c now st1 st2" and "pass_ok c now st2 st3"
  shows "pass_ok c now st1 st3"
  using assms preserved_trans [of c now st1 st2 st3] pass_ok_settled [OF assms(2)]
  unfolding pass_ok_def by metis

lemma candidate_pass_ok:
  assumes inv: "store_inv c st" and codec: "codec_ok c"
    and run: "reclaim_retention_candidate c env unlink_ok ident gp st = (r, st')"
    and ok: "r = Inr gp'"
  shows "pass_ok c (env_now_ms env) st st'"
  using candidate_facts(1) [OF inv codec run] candidate_facts(2) [OF inv codec run ok]
  unfolding pass_ok_def reclaims_def by metis

lemma reclaim_by_age_facts:
  assumes "store_inv c st" and "codec_ok c"
    and "reclaim_by_age c env unlink_ok cutoff cands gp processed st = (r, st')"
  shows "store_inv c st' \<and> preserved c (env_now_ms env) st st' \<and>
    (\<forall>gp' p'. r = Inr (gp', p') \<longrightarrow>
       pass_ok c (env_now_ms env) st st' \<and>
       (\<forall>(finished, ident) \<in> set cands. finished \<le> cutoff \<longrightarrow> settled c (env_now_ms env) ident st') \<and>
       (\<forall>ident. ident |\<in>| p' \<longrightarrow> ident |\<in>| processed \<or> settled c (env_now_ms env) ident st'))"
  using assms
proof (induction cands arbitrary: gp processed st)
  case Nil
  then show ?case by (auto simp: preserved_refl pass_ok_refl)
next
  case (Cons cand rest)
  obtain finished ident where cand: "cand = (finished, ident)" by fastforce
  show ?case
  proof (cases "finished \<le> cutoff")
    case False
    then show ?thesis
      using Cons.IH [OF Cons.prems(1,2), of gp processed] Cons.prems(3) cand
      by (simp add: retention_age_elapsed_def)
  next
    case True
    obtain r1 st1 where c1: "reclaim_retention_candidate c env unlink_ok ident gp st = (r1, st1)"
      by fastforce
    note facts = candidate_facts [OF Cons.prems(1,2) c1]
    have inv1: "store_inv c st1" and keep1: "preserved c (env_now_ms env) st st1"
      using facts(1) by (simp_all add: reclaims_def)
    show ?thesis
    proof (cases r1)
      case (Inl e)
      then show ?thesis using Cons.prems(3) cand True c1 inv1 keep1
        by (auto simp: retention_age_elapsed_def)
    next
      case (Inr gp1)
      have rest: "reclaim_by_age c env unlink_ok cutoff rest gp1 (finsert ident processed) st1 = (r, st')"
        using Cons.prems(3) cand True c1 Inr by (simp add: retention_age_elapsed_def)
      note IH = Cons.IH [OF inv1 Cons.prems(2) rest]
      have p1: "pass_ok c (env_now_ms env) st st1"
        by (rule candidate_pass_ok [OF Cons.prems(1,2) c1 Inr])
      have s1: "settled c (env_now_ms env) ident st1" by (rule facts(2) [OF Inr])
      show ?thesis
      proof (intro conjI allI impI)
        show "store_inv c st'" using IH by simp
        show "preserved c (env_now_ms env) st st'" using IH keep1 preserved_trans by blast
      next
        fix gp' p'
        assume "r = Inr (gp', p')"
        then have p2: "pass_ok c (env_now_ms env) st1 st'"
          and all: "\<forall>(finished, ident) \<in> set rest. finished \<le> cutoff \<longrightarrow> settled c (env_now_ms env) ident st'"
          and seen: "\<And>i. i |\<in>| p' \<Longrightarrow> i |\<in>| finsert ident processed \<or> settled c (env_now_ms env) i st'"
          using IH by auto
        have s: "settled c (env_now_ms env) ident st'" using pass_ok_settled [OF p2 s1] .
        show "pass_ok c (env_now_ms env) st st'" using pass_ok_trans [OF p1 p2] .
        show "\<forall>(finished, ident) \<in> set (cand # rest). finished \<le> cutoff \<longrightarrow> settled c (env_now_ms env) ident st'"
          using all s cand by auto
        show "i |\<in>| processed \<or> settled c (env_now_ms env) i st'" if "i |\<in>| p'" for i
          using seen [OF that] s by auto
      qed
    qed
  qed
qed

lemma reclaim_by_quota_facts:
  assumes "store_inv c st" and "codec_ok c"
    and "reclaim_by_quota c env unlink_ok low cands gp processed st = (r, st')"
    and "\<And>i. i |\<in>| processed \<Longrightarrow> settled c (env_now_ms env) i st"
  shows "store_inv c st' \<and> preserved c (env_now_ms env) st st' \<and>
    (\<forall>gp'. r = Inr gp' \<longrightarrow>
       pass_ok c (env_now_ms env) st st' \<and>
       (retained_bytes (st_index st') \<le> low \<or>
        (\<forall>(finished, ident) \<in> set cands. settled c (env_now_ms env) ident st')))"
  using assms
proof (induction cands arbitrary: gp processed st)
  case Nil
  then show ?case by (auto simp: preserved_refl pass_ok_refl)
next
  case (Cons cand rest)
  obtain finished ident where cand: "cand = (finished, ident)" by fastforce
  show ?case
  proof (cases "retained_bytes (st_index st) \<le> low")
    case True
    then show ?thesis using Cons.prems cand by (auto simp: preserved_refl pass_ok_refl)
  next
    case high: False
    show ?thesis
    proof (cases "ident |\<in>| processed")
      case True
      have "pass_ok c (env_now_ms env) st st' \<Longrightarrow> settled c (env_now_ms env) ident st'"
        using pass_ok_settled Cons.prems(4) [OF True] by blast
      then show ?thesis
        using Cons.IH [OF Cons.prems(1,2) _ Cons.prems(4), of gp] Cons.prems(3) cand True high by auto
    next
      case False
      obtain r1 st1 where c1: "reclaim_retention_candidate c env unlink_ok ident gp st = (r1, st1)"
        by fastforce
      note facts = candidate_facts [OF Cons.prems(1,2) c1]
      have inv1: "store_inv c st1" and keep1: "preserved c (env_now_ms env) st st1"
        using facts(1) by (simp_all add: reclaims_def)
      show ?thesis
      proof (cases r1)
        case (Inl e)
        then show ?thesis using Cons.prems(3) cand False high c1 inv1 keep1 by auto
      next
        case (Inr gp1)
        have p1: "pass_ok c (env_now_ms env) st st1"
          by (rule candidate_pass_ok [OF Cons.prems(1,2) c1 Inr])
        have s1: "settled c (env_now_ms env) ident st1" by (rule facts(2) [OF Inr])
        have rest: "reclaim_by_quota c env unlink_ok low rest gp1 (finsert ident processed) st1 = (r, st')"
          using Cons.prems(3) cand False high c1 Inr by simp
        have seen: "i |\<in>| finsert ident processed \<Longrightarrow> settled c (env_now_ms env) i st1" for i
          using Cons.prems(4) s1 pass_ok_settled [OF p1] by auto
        note IH = Cons.IH [OF inv1 Cons.prems(2) rest seen]
        have "pass_ok c (env_now_ms env) st1 st' \<Longrightarrow> settled c (env_now_ms env) ident st'"
          using pass_ok_settled s1 by blast
        then show ?thesis
          using IH cand preserved_trans [OF keep1] pass_ok_trans [OF p1] by auto
      qed
    qed
  qed
qed

lemma low_watermark_le: "low_watermark maximum_bytes \<le> maximum_bytes"
  by (simp add: low_watermark_def sat_mul_def GC_LOW_WATERMARK_PERCENT_def)

lemma quota_facts:
  assumes inv: "store_inv c st" and codec: "codec_ok c"
    and run: "(if maximum_bytes < retained_bytes (st_index st)
       then reclaim_by_quota c env unlink_ok (low_watermark maximum_bytes) cands gp processed st
       else (Inr gp, st)) = (r, st')"
    and seen: "\<And>i. i |\<in>| processed \<Longrightarrow> settled c (env_now_ms env) i st"
  shows "store_inv c st' \<and> preserved c (env_now_ms env) st st' \<and>
    (\<forall>gp'. r = Inr gp' \<longrightarrow>
       pass_ok c (env_now_ms env) st st' \<and>
       (retained_bytes (st_index st') \<le> maximum_bytes \<or>
        (\<forall>(finished, ident) \<in> set cands. settled c (env_now_ms env) ident st')))"
proof (cases "maximum_bytes < retained_bytes (st_index st)")
  case True
  then show ?thesis
    using reclaim_by_quota_facts [OF inv codec _ seen] run low_watermark_le [of maximum_bytes]
    by fastforce
next
  case False
  then show ?thesis using run inv by (auto simp: preserved_refl pass_ok_refl)
qed

lemma same_store:
  assumes "st_dirs st' = st_dirs st2" and "st_index st' = st_index st2"
  shows "store_inv c st' = store_inv c st2" and "preserved c now st st' = preserved c now st st2"
    and "settled c now j st' = settled c now j st2" and "pass_ok c now st st' = pass_ok c now st st2"
proof -
  show s: "settled c now j st' = settled c now j st2" for j
    by (rule settled_other) (simp add: assms)
  show "store_inv c st' = store_inv c st2" "preserved c now st st' = preserved c now st st2"
    "pass_ok c now st st' = pass_ok c now st st2"
    using assms s by (simp_all add: store_inv_def preserved_def pass_ok_def)
qed

text \<open>
  The two passes: what is protected stays, and on success a candidate is left alone only if it
  is young enough and the store fits its quota.
\<close>

lemma reclaim_passes_facts:
  assumes inv: "store_inv c st" and codec: "codec_ok c"
    and run: "reclaim_passes c env unlink_ok cutoff maximum_bytes st = (r, st')"
  shows "store_inv c st'" and "preserved c (env_now_ms env) st st'"
    and "r = Inr n \<Longrightarrow> pass_ok c (env_now_ms env) st st'"
    and "r = Inr n \<Longrightarrow> (finished, ident) |\<in>| terminal_by_finished (st_index st) \<Longrightarrow>
      finished \<le> cutoff \<or> maximum_bytes < retained_bytes (st_index st') \<Longrightarrow>
      settled c (env_now_ms env) ident st'"
proof -
  let ?now = "env_now_ms env" and ?cands = "sorted_list_of_fset (terminal_by_finished (st_index st))"
  let ?gp = "\<lparr>gp_reclaimed = 0, gp_pending_notifications = 0, gp_pending_lock_cleanup = []\<rparr>"
  obtain r1 st1 where age: "reclaim_by_age c env unlink_ok cutoff ?cands ?gp {||} st = (r1, st1)"
    by fastforce
  note a = reclaim_by_age_facts [OF inv codec age]
  have "store_inv c st' \<and> preserved c ?now st st' \<and>
    (r = Inr n \<longrightarrow> pass_ok c ?now st st' \<and>
     ((finished, ident) |\<in>| terminal_by_finished (st_index st) \<longrightarrow>
      finished \<le> cutoff \<or> maximum_bytes < retained_bytes (st_index st') \<longrightarrow> settled c ?now ident st'))"
  proof (cases r1)
    case (Inl e)
    then show ?thesis using run age a by (auto simp: reclaim_passes_def Let_def)
  next
    case (Inr p)
    obtain gp1 processed where p: "p = (gp1, processed)" by fastforce
    have p1: "pass_ok c ?now st st1" and inv1: "store_inv c st1"
      and seen: "\<And>i. i |\<in>| processed \<Longrightarrow> settled c ?now i st1"
      and old: "\<And>f i. (f, i) \<in> set ?cands \<Longrightarrow> f \<le> cutoff \<Longrightarrow> settled c ?now i st1"
      using a Inr p by auto
    obtain r2 st2 where quota: "(if maximum_bytes < retained_bytes (st_index st1)
       then reclaim_by_quota c env unlink_ok (low_watermark maximum_bytes) ?cands gp1 processed st1
       else (Inr gp1, st1)) = (r2, st2)" by fastforce
    note q = quota_facts [OF inv1 codec quota seen]
    have same: "st_dirs st' = st_dirs st2" "st_index st' = st_index st2"
      and ok: "r = Inr n \<Longrightarrow> \<exists>gp2. r2 = Inr gp2"
      using run
      by (auto simp: reclaim_passes_def Let_def age Inr p quota publish_retention_batch_def
          split: sum.splits if_splits)
    have keep: "store_inv c st2" "preserved c ?now st st2"
      using q p1 preserved_trans [of c ?now st st1 st2] by (auto simp: pass_ok_def)
    have "pass_ok c ?now st st2" "(finished, ident) |\<in>| terminal_by_finished (st_index st) \<longrightarrow>
        finished \<le> cutoff \<or> maximum_bytes < retained_bytes (st_index st2) \<longrightarrow> settled c ?now ident st2"
      if "r = Inr n"
    proof -
      have p2: "pass_ok c ?now st1 st2"
        and all: "retained_bytes (st_index st2) \<le> maximum_bytes \<or>
          (\<forall>(finished, ident) \<in> set ?cands. settled c ?now ident st2)"
        using q ok [OF that] by auto
      show "pass_ok c ?now st st2" using pass_ok_trans [OF p1 p2] .
      show "(finished, ident) |\<in>| terminal_by_finished (st_index st) \<longrightarrow>
        finished \<le> cutoff \<or> maximum_bytes < retained_bytes (st_index st2) \<longrightarrow> settled c ?now ident st2"
        using all old [of finished ident] pass_ok_settled [OF p2]
        by (auto simp: sorted_list_of_fset.rep_eq)
    qed
    then show ?thesis using keep same_store [OF same] same by simp
  qed
  then show "store_inv c st'" "preserved c (env_now_ms env) st st'"
    "r = Inr n \<Longrightarrow> pass_ok c (env_now_ms env) st st'"
    "r = Inr n \<Longrightarrow> (finished, ident) |\<in>| terminal_by_finished (st_index st) \<Longrightarrow>
      finished \<le> cutoff \<or> maximum_bytes < retained_bytes (st_index st') \<Longrightarrow>
      settled c (env_now_ms env) ident st'"
    by blast+
qed

section \<open>Retention leaves nothing behind\<close>

text \<open>Every manifest on disk has its entry.\<close>

definition indexed :: "'b store \<Rightarrow> bool" where
  "indexed st \<longleftrightarrow>
     (\<forall>ident. manifest_present ident (st_dirs st) \<longrightarrow> fmlookup (entries (st_index st)) ident \<noteq> None)"

lemma index_manifest_bytes_insert:
  "index_manifest_bytes c ident dir bytes ix = Inr ix' \<Longrightarrow> \<exists>e. ix' = index_insert ix ident e"
  by (auto simp: index_manifest_bytes_def Let_def split: sum.splits if_splits)

lemma manifest_present_drop: "manifest_present i (fmdrop j dirs) \<Longrightarrow> manifest_present i dirs"
  by (auto simp: manifest_present_def split: option.splits if_splits)

lemma load_loop_indexed:
  assumes "load_loop c ids dirs ix = (Inr ix', dirs')" and "distinct ids"
  shows "(\<forall>i. i \<in> set ids \<and> manifest_present i dirs \<or> fmlookup (entries ix) i \<noteq> None \<longrightarrow>
            fmlookup (entries ix') i \<noteq> None) \<and>
         (\<forall>i. manifest_present i dirs' \<longrightarrow> manifest_present i dirs)"
  using assms
proof (induction ids arbitrary: dirs ix)
  case (Cons ident rest)
  show ?case
  proof (cases "\<exists>dir. fmlookup dirs ident = Some dir")
    case False
    then show ?thesis using Cons by (auto simp: manifest_present_def)
  next
    case True
    then obtain dir where dir: "fmlookup dirs ident = Some dir" by blast
    show ?thesis
    proof (cases "fmlookup dir Manifest")
      case None
      have same: "i \<in> set rest \<Longrightarrow> manifest_present i (fmdrop ident dirs) = manifest_present i dirs" for i
        using Cons.prems(2) by (auto simp: manifest_present_def)
      have "\<not> manifest_present ident dirs" using dir None by (simp add: manifest_present_def)
      moreover have run: "load_loop c rest (fmdrop ident dirs) ix = (Inr ix', dirs')"
        using Cons.prems(1) dir None by simp
      moreover have "manifest_present i dirs' \<Longrightarrow> manifest_present i dirs" for i
        using Cons.IH [OF run] Cons.prems(2) manifest_present_drop by (metis distinct.simps(2))
      ultimately show ?thesis
        using Cons.IH [OF run] Cons.prems(2) same by auto
    next
      case (Some bytes)
      then obtain ix1 where ix1: "index_manifest_bytes c ident dir bytes ix = Inr ix1"
        using Cons.prems dir by (auto split: sum.splits)
      obtain e where "ix1 = index_insert ix ident e" using index_manifest_bytes_insert [OF ix1] by blast
      then show ?thesis
        using Cons.IH [of dirs ix1] Cons.prems dir Some ix1 by auto
    qed
  qed
qed simp

lemma merge_pending_keys:
  "fmlookup (entries (replace_from_disk previous ix)) i = None \<longleftrightarrow> fmlookup (entries ix) i = None"
  by (auto simp: replace_from_disk_def merge_pending_telemetry_def split: option.splits)

lemma refresh_index_indexed:
  assumes "store_inv c st" and "force \<or> indexed st"
  shows "indexed (snd (refresh_index c force st))"
proof (cases "\<not> force \<and> st_changes st = st_observed st")
  case True
  then show ?thesis using assms(2) by (simp add: refresh_index_def)
next
  case False
  obtain ix dirs where load: "load_index c (st_dirs st) = (Inr ix, dirs)"
    using load_index_ok [of "st_dirs st" c] assms(1) by (auto simp: store_inv_def consistent_def)
  have "distinct (sorted_list_of_fset (fmdom (st_dirs st)))"
    by (simp add: sorted_list_of_fset.rep_eq)
  note l = load_loop_indexed [OF load [unfolded load_index_def] this]
  have "fmlookup (entries (replace_from_disk (st_index st) ix)) i \<noteq> None"
    if "manifest_present i dirs" for i
  proof -
    have "manifest_present i (st_dirs st)" using l that by blast
    moreover from this have "i \<in> set (sorted_list_of_fset (fmdom (st_dirs st)))"
      by (auto simp: manifest_present_def sorted_list_of_fset.rep_eq fmlookup_dom_iff
          split: option.splits)
    ultimately show ?thesis using l merge_pending_keys by blast
  qed
  then show ?thesis using load False by (auto simp: refresh_index_def indexed_def)
qed

lemma refresh_index_if_stale_indexed:
  assumes "store_inv c st" and "indexed st"
  shows "indexed (snd (refresh_index_if_stale c env st))"
  using assms refresh_index_indexed [of c "st\<lparr>st_next_check_us := sat_add (env_now_us env) CHANGE_POLL_INTERVAL_US\<rparr>" False]
  by (auto simp: refresh_index_if_stale_def claim_check_def store_inv_def indexed_def)

lemma ensure_invocation_indexed:
  assumes "store_inv c st" and "indexed st"
  shows "indexed (snd (ensure_invocation c env ident st))"
proof -
  obtain st1 where st1: "refresh_index_if_stale c env st = (Inr (), st1)" "store_inv c st1"
    using refresh_index_if_staleE [OF assms(1)] .
  then have "indexed st1" using refresh_index_if_stale_indexed [OF assms, of env] by simp
  then show ?thesis
    using st1 refresh_index_indexed [OF st1(2), of False]
    by (auto simp: ensure_invocation_def split: prod.split sum.split)
qed

lemma indexed_commit:
  assumes "indexed st" and "fmlookup (entries (st_index st)) ident \<noteq> None"
    and "st_dirs st' = fmupd ident dir (st_dirs st)"
    and "\<And>i. fmlookup (entries (st_index st)) i \<noteq> None \<Longrightarrow> fmlookup (entries (st_index st')) i \<noteq> None"
  shows "indexed st'"
  unfolding indexed_def
proof (intro allI impI)
  fix i
  assume "manifest_present i (st_dirs st')"
  then have "i = ident \<or> manifest_present i (st_dirs st)"
    using assms(3) by (auto simp: manifest_present_def split: if_splits)
  then show "fmlookup (entries (st_index st')) i \<noteq> None"
    using assms(1,2,4) unfolding indexed_def by blast
qed

lemma flushed_keys:
  "fmlookup (entries (mark_telemetry_flushed ix ident g)) i = None \<longleftrightarrow> fmlookup (entries ix) i = None"
  by (auto simp: mark_telemetry_flushed_def split: option.splits if_splits)

lemma mutate_indexed:
  assumes inv: "store_inv c st" and ix: "indexed st"
  shows "indexed (snd (mutate c env ident recount operation st))"
  using inv
proof (cases rule: ensure_read_cases [where env = env and ident = ident])
  case (refused e st1)
  then show ?thesis
    using ensure_invocation_indexed [OF inv ix, of env ident] by (simp add: mutate_def)
next
  case (lost st1)
  then show ?thesis
    using ensure_invocation_indexed [OF inv ix, of env ident] by (simp add: mutate_def)
next
  case (found st1 dir d n)
  have ix1: "indexed st1"
    using ensure_invocation_indexed [OF inv ix, of env ident] found(1) by simp
  have present: "fmlookup (entries (st_index st1)) ident \<noteq> None"
    using ensure_invocation_found [OF found(1)] .
  obtain g m where gm: "merge_index_telemetry (st_index st1) ident (hd_metrics (invocation d)) = (g, m)"
    by fastforce
  let ?d = "d\<lparr>invocation := (invocation d)\<lparr>hd_metrics := m\<rparr>\<rparr>"
  show ?thesis
  proof (cases "operation ?d")
    case (Inl e)
    then show ?thesis using found(1,3) gm ix1 by (simp add: mutate_def Let_def)
  next
    case (Inr d2)
    show ?thesis
      using persist_durable_cases [of c ident d2 recount st1]
    proof cases
      case missing
      then show ?thesis using found(4) by simp
    next
      case (committed dir' d3 k st2)
      have "indexed (st2\<lparr>st_index := mark_telemetry_flushed
          (index_replace (st_index st2) ident (index_entry_of d3 k)) ident g\<rparr>)"
        using committed(4)
        by (intro indexed_commit [OF ix1 present, of _ "fmupd Manifest (enc_durable c d3) dir'"])
          (auto simp: committed(3) flushed_keys)
      then show ?thesis
        using found(1,3) gm Inr committed(1) by (simp add: mutate_def Let_def indexed_def)
    qed
  qed
qed

lemma delete_expired_loop_indexed:
  "store_inv c st \<Longrightarrow> codec_ok c \<Longrightarrow> indexed st \<Longrightarrow>
     indexed (snd (delete_expired_loop c env now ids st))"
proof (induction ids arbitrary: st)
  case (Cons ident ids)
  have "store_inv c (snd (mutate c env ident False (\<lambda>d. Inr (drop_expired now d)) st))"
    using Cons.prems(1,2) keeps_drop_deferred(2) by (rule mutate_inv)
  moreover have "indexed (snd (mutate c env ident False (\<lambda>d. Inr (drop_expired now d)) st))"
    using mutate_indexed [OF Cons.prems(1,3)] .
  ultimately show ?case using Cons.IH Cons.prems(2) by (auto split: prod.split sum.split)
qed simp

lemma delete_expired_indexed:
  assumes "store_inv c st" and "codec_ok c" and "indexed st"
  shows "indexed (snd (delete_expired_deferred_results c env now st))"
proof -
  obtain st1 where st1: "refresh_index_if_stale c env st = (Inr (), st1)" "store_inv c st1"
    using refresh_index_if_staleE [OF assms(1)] .
  then show ?thesis
    using delete_expired_loop_indexed [OF st1(2) assms(2)] refresh_index_if_stale_indexed [OF assms(1,3), of env]
    by (simp add: delete_expired_deferred_results_def)
qed

lemma replace_recovered_keys:
  "fmlookup (entries ix) i \<noteq> None \<Longrightarrow> fmlookup (entries (replace_recovered rec ix)) i \<noteq> None"
proof (induction rec arbitrary: ix)
  case Nil
  then show ?case by (simp add: replace_recovered_def)
next
  case (Cons r rec)
  then show ?case by (cases r) auto
qed

lemma recover_ids_dirs:
  assumes "consistent c (st_dirs st) ix" and "codec_ok c" and "recover_ids c env ids st = (r, st')"
    and "i \<notin> set ids"
  shows "fmlookup (st_dirs st') i = fmlookup (st_dirs st) i"
  using assms
proof (induction ids arbitrary: st ix r)
  case (Cons ident rest)
  show ?case
    using Cons.prems(1,2)
  proof (cases rule: recover_one_cases [where ident = ident and env = env])
    case skipped
    then show ?thesis using Cons by auto
  next
    case (recovered e dir)
    then show ?thesis
      using Cons.IH [of "st\<lparr>st_dirs := fmupd ident dir (st_dirs st)\<rparr>"] Cons.prems
      by (auto split: prod.splits sum.splits)
  qed
qed simp

lemma nonterminal_ids_set:
  "i \<in> set (nonterminal_ids ix) \<Longrightarrow> fmlookup (entries ix) i \<noteq> None"
  by (auto simp: nonterminal_ids_def sorted_list_of_fset.rep_eq fmlookup_dom_iff split: option.splits)

lemma recover_orphaned_indexed:
  assumes inv: "store_inv c st" and codec: "codec_ok c" and ix: "indexed st"
  shows "indexed (snd (recover_orphaned_invocations c env st))"
proof -
  obtain rec st' where rec: "recover_ids c env (nonterminal_ids (st_index st)) st = (Inr rec, st')"
    "st_index st' = st_index st"
    using recover_ids_inv [of c st "st_index st" env "nonterminal_ids (st_index st)"] inv codec
    by (auto simp: store_inv_def)
  have "fmlookup (entries (replace_recovered rec (st_index st))) i \<noteq> None"
    if "manifest_present i (st_dirs st')" for i
  proof (cases "i \<in> set (nonterminal_ids (st_index st))")
    case True
    then show ?thesis using nonterminal_ids_set replace_recovered_keys by metis
  next
    case False
    then have "manifest_present i (st_dirs st)"
      using recover_ids_dirs [OF inv [unfolded store_inv_def] codec rec(1)] that
      by (simp add: manifest_present_def)
    then show ?thesis using ix replace_recovered_keys unfolding indexed_def by metis
  qed
  then show ?thesis
    using rec
    by (auto simp: recover_orphaned_invocations_def indexed_def replace_recovered_def)
qed

lemma measure_live_facts:
  "st_dirs (measure_live c ids st) = st_dirs st \<and>
   (store_inv c st \<longrightarrow> store_inv c (measure_live c ids st)) \<and>
   (indexed st \<longrightarrow> indexed (measure_live c ids st))"
proof (induction ids arbitrary: st)
  case (Cons ident rest)
  show ?case
  proof (cases "\<exists>e. fmlookup (entries (st_index st)) ident = Some e \<and> \<not> is_terminal (hd_state (en_record e))")
    case False
    then show ?thesis using Cons by (auto simp: Let_def split: option.split)
  next
    case True
    then obtain e where e: "fmlookup (entries (st_index st)) ident = Some e"
      "\<not> is_terminal (hd_state (en_record e))" by blast
    let ?current = "case fmlookup (st_dirs st) ident of None \<Rightarrow> 0 | Some dir \<Rightarrow> evidence_size c dir"
    let ?ix = "(st_index st)\<lparr>entries := fmupd ident (e\<lparr>en_retained_bytes := ?current\<rparr>) (entries (st_index st)),
        retained_bytes := sat_add (sat_sub (retained_bytes (st_index st)) (en_retained_bytes e)) ?current\<rparr>"
    have "store_inv c st \<Longrightarrow> store_inv c (st\<lparr>st_index := ?ix\<rparr>)"
      using consistent_entry [of c "st_dirs st" "st_index st" ident e "e\<lparr>en_retained_bytes := ?current\<rparr>"] e
      by (simp add: store_inv_def)
    moreover have "indexed st \<Longrightarrow> indexed (st\<lparr>st_index := ?ix\<rparr>)"
      using e by (auto simp: indexed_def)
    moreover have "measure_live c (ident # rest) st = measure_live c rest (st\<lparr>st_index := ?ix\<rparr>)"
      using e by (simp add: Let_def)
    ultimately show ?thesis using Cons [of "st\<lparr>st_index := ?ix\<rparr>"] by simp
  qed
qed simp

lemma refresh_index_run:
  assumes "store_inv c st"
  obtains st1 where "refresh_index c force st = (Inr (), st1)" and "store_inv c st1"
  using refresh_index_ok [OF assms, of force] by (metis prod.collapse)

lemma terminal_candidate:
  assumes inv: "store_inv c st" and ix: "indexed st"
    and read: "read_durable c ident st = Inr (d, n)" and terminal: "is_terminal (hd_state (invocation d))"
  shows "(case hd_finished_at_ms (invocation d) of Some t \<Rightarrow> t | None \<Rightarrow> i64_min, ident)
           |\<in>| terminal_by_finished (st_index st)"
proof -
  obtain dir where dir: "fmlookup (st_dirs st) ident = Some dir" "manifest_of c dir = Some d"
    using read_durable_ok [OF inv read] by blast
  have "manifest_present ident (st_dirs st)"
    using dir by (auto simp: manifest_present_def manifest_of_def split: option.splits)
  then obtain e where e: "fmlookup (entries (st_index st)) ident = Some e"
    using ix by (auto simp: indexed_def)
  obtain m where m: "en_record e = (invocation d)\<lparr>hd_metrics := m\<rparr>"
    using entry_matches(1) [OF inv [unfolded store_inv_def] e dir] by (auto simp: header_matches_def)
  have "terminal_key e = Some (case hd_finished_at_ms (invocation d) of Some t \<Rightarrow> t | None \<Rightarrow> i64_min)"
    using terminal m by (simp add: terminal_key_def finished_key_def)
  then show ?thesis
    using inv e by (auto simp: store_inv_def consistent_def index_wf_def in_step_def)
qed

text \<open>A run of the garbage collector up to its passes.\<close>

lemma enforce_retention_prepared:
  assumes inv: "store_inv c st" and codec: "codec_ok c"
    and run: "enforce_retention c env True unlink_ok maximum_age_ms maximum_bytes st = (r, st')"
  obtains (stopped) e where "r = Inl e" and "store_inv c st'"
  | (prepared) st0 where "store_inv c st0" and "indexed st0"
      and "reclaim_passes c env unlink_ok (retention_cutoff (env_now_ms env) maximum_age_ms)
             maximum_bytes st0 = (r, st')"
proof -
  obtain st1 where st1: "refresh_index c True st = (Inr (), st1)" "store_inv c st1"
    using refresh_index_run [OF inv] .
  then have ix1: "indexed st1" using refresh_index_indexed [OF inv, of True] by simp
  obtain r2 st2 where st2: "recover_orphaned_invocations c env st1 = (r2, st2)" by fastforce
  have inv2: "store_inv c st2" "indexed st2"
    using recover_orphaned_inv [OF st1(2) codec, of env] recover_orphaned_indexed [OF st1(2) codec ix1, of env]
      st2 by simp_all
  obtain r3 st3 where st3: "delete_expired_deferred_results c env (env_now_ms env) st2 = (r3, st3)"
    by fastforce
  have inv3: "store_inv c st3" "indexed st3"
    using delete_expired_inv [OF inv2(1) codec, of env "env_now_ms env"]
      delete_expired_indexed [OF inv2(1) codec inv2(2), of env "env_now_ms env"] st3 by simp_all
  show thesis
  proof (cases r2)
    case (Inl e)
    then show thesis using stopped run st1 st2 inv2 by (auto simp: enforce_retention_def)
  next
    case two: (Inr n2)
    show thesis
    proof (cases r3)
      case (Inl e)
      then show thesis using stopped run st1 st2 two st3 inv3 by (auto simp: enforce_retention_def)
    next
      case (Inr n3)
      let ?st0 = "measure_live c (nonterminal_ids (st_index st3)) st3"
      have "store_inv c ?st0" "indexed ?st0" using measure_live_facts inv3 by blast+
      then show thesis
        using prepared run st1 st2 two st3 Inr by (simp add: enforce_retention_def)
    qed
  qed
qed

lemma enforce_retention_inv:
  assumes "store_inv c st" and "codec_ok c"
  shows "store_inv c (snd (enforce_retention c env maintenance_free unlink_ok maximum_age_ms maximum_bytes st))"
proof (cases maintenance_free)
  case False
  then show ?thesis using assms(1) by (simp add: enforce_retention_def)
next
  case True
  obtain r st' where run: "enforce_retention c env True unlink_ok maximum_age_ms maximum_bytes st = (r, st')"
    by fastforce
  have "store_inv c st'"
    using assms run
  proof (cases rule: enforce_retention_prepared)
    case (prepared st0)
    then show ?thesis using reclaim_passes_facts(1) assms(2) by blast
  qed
  then show ?thesis using True run by simp
qed

text \<open>
  C6: After a successful run of the garbage collector, every manifest on disk belongs to an
  invocation that is still running, or to a deferred result that has not expired, or it
  finished after the age limit and the store fits its byte quota.
\<close>

theorem enforce_retention_complete:
  assumes inv: "store_inv c st" and codec: "codec_ok c"
    and run: "enforce_retention c env True unlink_ok maximum_age_ms maximum_bytes st = (Inr reclaimed, st')"
    and read: "read_durable c ident st' = Inr (d, n)"
  shows "retention_protects (env_now_ms env) d \<or>
    retention_cutoff (env_now_ms env) maximum_age_ms <
      (case hd_finished_at_ms (invocation d) of Some t \<Rightarrow> t | None \<Rightarrow> i64_min) \<and>
    retained_bytes (st_index st') \<le> maximum_bytes"
  using inv codec run
proof (cases rule: enforce_retention_prepared)
  case (prepared st0)
  let ?now = "env_now_ms env"
  note passes = reclaim_passes_facts [OF prepared(1) codec prepared(3)]
  show ?thesis
  proof (cases "settled c ?now ident st'")
    case True
    then show ?thesis using read by (simp add: settled_def)
  next
    case False
    then have "fmlookup (st_dirs st') ident = fmlookup (st_dirs st0) ident"
      using passes(3) by (auto simp: pass_ok_def)
    then have "read_durable c ident st0 = Inr (d, n)"
      using read read_durable_same_dir [of st' ident st0 c] by simp
    moreover have "is_terminal (hd_state (invocation d))"
      using False read by (auto simp: settled_def retention_protects_def)
    ultimately have "(case hd_finished_at_ms (invocation d) of Some t \<Rightarrow> t | None \<Rightarrow> i64_min, ident)
        |\<in>| terminal_by_finished (st_index st0)"
      using terminal_candidate [OF prepared(1,2)] by blast
    then show ?thesis using passes(4) False by force
  qed
qed simp

text \<open>
  C7: The garbage collector never takes what it must keep. The manifest and the details of an
  invocation that is still running, and of a deferred result that has not expired, are the same
  after the two passes, whatever the age limit and the quota, and also when a pass fails.
\<close>

theorem reclaim_passes_preserves:
  assumes "store_inv c st" and "codec_ok c"
    and "fmlookup (st_dirs st) ident = Some dir" and "manifest_of c dir = Some d"
    and "retention_protects (env_now_ms env) d"
  shows "\<exists>dir' d'.
    fmlookup (st_dirs (snd (reclaim_passes c env unlink_ok cutoff maximum_bytes st))) ident = Some dir' \<and>
    manifest_of c dir' = Some d' \<and> invocation d' = invocation d \<and> deferred d' = deferred d \<and>
    fmlookup dir' Details = fmlookup dir Details"
proof -
  obtain r st' where run: "reclaim_passes c env unlink_ok cutoff maximum_bytes st = (r, st')" by fastforce
  have "preserved c (env_now_ms env) st st'" using reclaim_passes_facts(2) [OF assms(1,2) run] .
  then show ?thesis using assms(3-5) run unfolding preserved_def by simp
qed

end
