(* ===== verification/Store_System.thy ===== *)
theory Store_System
  imports Store_Retention
begin

text \<open>
  The store as a transition system: one rule for every operation of the store and for what its
  environment does, the invariant in every reachable state, the finality of terminal results,
  what a restart recovers, and what is read back after an invocation has finished.
\<close>

section \<open>Terminal results are final\<close>

text \<open>The part of a header that says how the invocation went.\<close>

definition outcome_of ::
  "invocation_header \<Rightarrow> invocation_state \<times> int option \<times> int option \<times> termination_kind option \<times>
     summary_header option \<times> run_summary option"
where
  "outcome_of h =
     (hd_state h, hd_started_at_ms h, hd_finished_at_ms h, hd_termination h, hd_summary h, hd_run h)"

definition final :: "'b codec \<Rightarrow> 'b store \<Rightarrow> 'b store \<Rightarrow> bool" where
  "final c st st' \<longleftrightarrow>
     (\<forall>ident dir d. fmlookup (st_dirs st) ident = Some dir \<longrightarrow> manifest_of c dir = Some d \<longrightarrow>
        is_terminal (hd_state (invocation d)) \<longrightarrow>
        (case fmlookup (st_dirs st') ident of
           None \<Rightarrow> True
         | Some dir' \<Rightarrow>
             \<exists>d'. manifest_of c dir' = Some d' \<and> outcome_of (invocation d') = outcome_of (invocation d)))"

lemma final_same_dirs: "st_dirs st' = st_dirs st \<Longrightarrow> final c st st'"
  by (simp add: final_def)

lemma outcome_terminal:
  "outcome_of h' = outcome_of h \<Longrightarrow> hd_state h' = hd_state h"
  by (simp add: outcome_of_def)

text \<open>
  Finality composes as long as a directory that is gone does not come back with another
  outcome, which the creation of an invocation sees to.
\<close>

definition returns_nothing :: "'b store \<Rightarrow> 'b store \<Rightarrow> bool" where
  "returns_nothing st st' \<longleftrightarrow>
     (\<forall>ident. fmlookup (st_dirs st) ident = None \<longrightarrow> fmlookup (st_dirs st') ident = None)"

lemma final_trans:
  assumes "final c st1 st2" and "final c st2 st3" and "returns_nothing st2 st3"
  shows "final c st1 st3"
  unfolding final_def
proof (intro allI impI)
  fix ident dir d
  assume a: "fmlookup (st_dirs st1) ident = Some dir" "manifest_of c dir = Some d"
    "is_terminal (hd_state (invocation d))"
  show "case fmlookup (st_dirs st3) ident of None \<Rightarrow> True
    | Some dir' \<Rightarrow> \<exists>d'. manifest_of c dir' = Some d' \<and> outcome_of (invocation d') = outcome_of (invocation d)"
  proof (cases "fmlookup (st_dirs st2) ident")
    case None
    then show ?thesis using assms(3) by (simp add: returns_nothing_def)
  next
    case (Some dir2)
    then obtain d2 where d2: "manifest_of c dir2 = Some d2"
      "outcome_of (invocation d2) = outcome_of (invocation d)"
      using assms(1) a unfolding final_def by fastforce
    moreover have "is_terminal (hd_state (invocation d2))"
      using outcome_terminal [OF d2(2)] a(3) by simp
    ultimately show ?thesis
      using assms(2) Some unfolding final_def by (fastforce split: option.splits)
  qed
qed

text \<open>A commit of one invocation whose manifest was not terminal, or keeps its outcome.\<close>

lemma final_commit:
  assumes "st_dirs st' = fmupd ident dir' (st_dirs st)"
    and "\<And>dir d. fmlookup (st_dirs st) ident = Some dir \<Longrightarrow> manifest_of c dir = Some d \<Longrightarrow>
           is_terminal (hd_state (invocation d)) \<Longrightarrow>
           \<exists>d'. manifest_of c dir' = Some d' \<and> outcome_of (invocation d') = outcome_of (invocation d)"
  shows "final c st st'"
  using assms by (auto simp: final_def split: option.split)

lemma returns_nothing_commit:
  assumes "st_dirs st' = fmupd ident dir' (st_dirs st)" and "fmlookup (st_dirs st) ident \<noteq> None"
  shows "returns_nothing st st'"
  using assms by (auto simp: returns_nothing_def)

lemma load_loop_keeps:
  assumes "load_loop c ids dirs ix = (r, dirs')"
  shows "fmlookup dirs' i = fmlookup dirs i \<or>
    fmlookup dirs' i = None \<and> (\<exists>dir. fmlookup dirs i = Some dir \<and> fmlookup dir Manifest = None)"
  using assms
proof (induction ids arbitrary: dirs ix)
  case (Cons ident rest)
  show ?case
  proof (cases "fmlookup dirs ident")
    case None
    then show ?thesis using Cons by simp
  next
    case (Some dir)
    show ?thesis
    proof (cases "fmlookup dir Manifest")
      case None
      then show ?thesis using Cons.IH [of "fmdrop ident dirs" ix] Cons.prems Some by (auto split: if_splits)
    next
      case bytes: (Some bytes)
      then show ?thesis
        using Cons.IH [of dirs] Cons.prems Some by (auto split: sum.splits)
    qed
  qed
qed simp

text \<open>What an operation may do to the directories before and beside its commit.\<close>

definition only_drops :: "'b store \<Rightarrow> 'b store \<Rightarrow> bool" where
  "only_drops st st' \<longleftrightarrow>
     (\<forall>i. fmlookup (st_dirs st') i = fmlookup (st_dirs st) i \<or> fmlookup (st_dirs st') i = None)"

lemma only_drops_final:
  assumes "only_drops st st'"
  shows "final c st st'"
  unfolding final_def
proof (intro allI impI)
  fix ident dir d
  assume "fmlookup (st_dirs st) ident = Some dir" "manifest_of c dir = Some d"
  then show "case fmlookup (st_dirs st') ident of None \<Rightarrow> True
    | Some dir' \<Rightarrow> \<exists>d'. manifest_of c dir' = Some d' \<and> outcome_of (invocation d') = outcome_of (invocation d)"
    using assms [unfolded only_drops_def, rule_format, of ident] by auto
qed

lemma only_drops_refl: "st_dirs st' = st_dirs st \<Longrightarrow> only_drops st st'"
  by (simp add: only_drops_def)

lemma only_drops_trans: "only_drops st1 st2 \<Longrightarrow> only_drops st2 st3 \<Longrightarrow> only_drops st1 st3"
  unfolding only_drops_def by metis

text \<open>What every operation but creation does.\<close>

definition evolves :: "'b codec \<Rightarrow> 'b store \<Rightarrow> 'b store \<Rightarrow> bool" where
  "evolves c st st' \<longleftrightarrow> final c st st' \<and> returns_nothing st st'"

lemma evolves_same_dirs: "st_dirs st' = st_dirs st \<Longrightarrow> evolves c st st'"
  by (simp add: evolves_def final_same_dirs returns_nothing_def)

lemma evolves_drops:
  assumes "only_drops st st'"
  shows "evolves c st st'"
proof -
  have "fmlookup (st_dirs st') i = None" if "fmlookup (st_dirs st) i = None" for i
    using assms [unfolded only_drops_def, rule_format, of i] that by auto
  then show ?thesis using only_drops_final [OF assms] by (simp add: evolves_def returns_nothing_def)
qed

lemma evolves_trans: "evolves c st1 st2 \<Longrightarrow> evolves c st2 st3 \<Longrightarrow> evolves c st1 st3"
  unfolding evolves_def using final_trans by (fastforce simp: returns_nothing_def)

lemma refresh_index_drops: "only_drops st (snd (refresh_index c force st))"
proof -
  obtain r dirs where load: "load_index c (st_dirs st) = (r, dirs)" by fastforce
  then have "fmlookup dirs i = fmlookup (st_dirs st) i \<or> fmlookup dirs i = None" for i
    using load_loop_keeps [OF load [unfolded load_index_def], of i] by auto
  then show ?thesis using load by (auto simp: refresh_index_def only_drops_def split: sum.split)
qed

lemma refresh_index_if_stale_drops: "only_drops st (snd (refresh_index_if_stale c env st))"
  using refresh_index_drops [of "st\<lparr>st_next_check_us := sat_add (env_now_us env) CHANGE_POLL_INTERVAL_US\<rparr>" c False]
  by (auto simp: refresh_index_if_stale_def claim_check_def only_drops_def)

lemma ensure_invocation_drops: "only_drops st (snd (ensure_invocation c env ident st))"
proof -
  obtain r1 st1 where st1: "refresh_index_if_stale c env st = (r1, st1)" by fastforce
  obtain r2 st2 where st2: "refresh_index c False st1 = (r2, st2)" by fastforce
  have "only_drops st st1" using refresh_index_if_stale_drops [of st c env] st1 by simp
  moreover have "only_drops st1 st2" using refresh_index_drops [of st1 c False] st2 by simp
  ultimately show ?thesis
    using st1 st2 by (auto simp: ensure_invocation_def intro: only_drops_trans split: sum.split)
qed

lemma transition_live: "transition now next r = Inr r' \<Longrightarrow> \<not> is_terminal (state r)"
  by (cases "state r") (auto simp: transition_def validate_transition_def)

text \<open>
  The shape of every operation on one invocation: it refuses, or it commits a manifest over
  one that was not terminal or whose outcome it keeps.
\<close>

lemma committed_final:
  assumes ensure: "ensure_invocation c env ident st = (r1, st1)"
    and found: "fmlookup (st_dirs st1) ident = Some dir" "manifest_of c dir = Some d"
    and dirs: "st_dirs st' = fmupd ident dir' (st_dirs st1)"
    and keep: "is_terminal (hd_state (invocation d)) \<Longrightarrow>
      \<exists>d'. manifest_of c dir' = Some d' \<and> outcome_of (invocation d') = outcome_of (invocation d)"
  shows "evolves c st st'"
proof (rule evolves_trans)
  show "evolves c st st1" using evolves_drops [OF ensure_invocation_drops, of c st c env ident] ensure by simp
  have "final c st1 st'" using found keep by (intro final_commit [OF dirs]) auto
  then show "evolves c st1 st'" using returns_nothing_commit [OF dirs] found by (simp add: evolves_def)
qed

lemma persisted_final:
  assumes ensure: "ensure_invocation c env ident st = (r1, st1)"
    and found: "fmlookup (st_dirs st1) ident = Some dir" "manifest_of c dir = Some d"
    and st2: "st_dirs st2 = fmupd ident newdir (st_dirs st1)"
    and persist: "persist_durable c ident d2 recount st2 = (Inr (d3, n), st3)"
    and st': "st_dirs st' = st_dirs st3"
    and codec: "codec_ok c" and ok: "schema_version d2 = 1"
    and keep: "is_terminal (hd_state (invocation d)) \<Longrightarrow> outcome_of (invocation d2) = outcome_of (invocation d)"
  shows "evolves c st st'"
  using persist_durable_cases [of c ident d2 recount st2]
proof cases
  case (committed dir' d1 k st'')
  have eq: "d1 = d3" "st'' = st3" using committed(1) persist by simp_all
  have "st_dirs st' = fmupd ident (fmupd Manifest (enc_durable c d3) dir') (st_dirs st1)"
    using st' committed(3) eq st2 by (intro fmap_ext) simp
  moreover have "manifest_of c (fmupd Manifest (enc_durable c d3) dir') = Some d3"
    using codec ok committed(7) eq by (simp add: manifest_of_written)
  ultimately show ?thesis
    using committed_final [OF ensure found] keep committed(5) eq by simp
qed (use persist in simp)

lemma fmupd_same: "fmlookup m k = Some v \<Longrightarrow> m = fmupd k v m"
  by (simp add: fmupd_lookup)

lemma mutate_final:
  assumes inv: "store_inv c st" and codec: "codec_ok c"
    and keeps: "\<And>d d'. operation d = Inr d' \<Longrightarrow>
      outcome_of (invocation d') = outcome_of (invocation d) \<and> schema_version d' = schema_version d"
  shows "evolves c st (snd (mutate c env ident recount operation st))"
  using inv
proof (cases rule: ensure_read_cases [where env = env and ident = ident])
  case (refused e st1)
  then show ?thesis
    using evolves_drops [OF ensure_invocation_drops, of c st c env ident] by (simp add: mutate_def)
next
  case (lost st1)
  then show ?thesis
    using evolves_drops [OF ensure_invocation_drops, of c st c env ident] by (simp add: mutate_def)
next
  case (found st1 dir d n)
  obtain g m where gm: "merge_index_telemetry (st_index st1) ident (hd_metrics (invocation d)) = (g, m)"
    by fastforce
  let ?d = "d\<lparr>invocation := (invocation d)\<lparr>hd_metrics := m\<rparr>\<rparr>"
  show ?thesis
  proof (cases "operation ?d")
    case (Inl e)
    then show ?thesis
      using found gm evolves_drops [OF ensure_invocation_drops, of c st c env ident]
      by (simp add: mutate_def Let_def)
  next
    case (Inr d2)
    show ?thesis
      using persist_durable_cases [of c ident d2 recount st1]
    proof cases
      case missing
      then show ?thesis using found(4) by simp
    next
      case (committed dir' d3 k st2)
      have "outcome_of (invocation d2) = outcome_of (invocation d)" "schema_version d2 = 1"
        using keeps [OF Inr] found(6) by (simp_all add: outcome_of_def durable_ok_def)
      then show ?thesis
        using persisted_final [OF found(1,4,5) fmupd_same [OF found(4)] committed(1) _ codec]
          found gm Inr committed(1) by (simp add: mutate_def Let_def)
    qed
  qed
qed

lemma mutate_operations_keep:
  "with_deferred ident f d = Inr d' \<Longrightarrow>
     outcome_of (invocation d') = outcome_of (invocation d) \<and> schema_version d' = schema_version d"
  "Inr (drop_expired now d) = Inr d' \<Longrightarrow>
     outcome_of (invocation d') = outcome_of (invocation d) \<and> schema_version d' = schema_version d"
  by (auto simp: with_deferred_def drop_expired_def split: option.splits if_splits)

lemma store_transition_final:
  assumes inv: "store_inv c st" and codec: "codec_ok c"
  shows "evolves c st (snd (store_transition c env ident next terminated summ st))"
proof -
  have drops: "evolves c st (snd (ensure_invocation c env ident st))"
    by (rule evolves_drops [OF ensure_invocation_drops])
  show ?thesis
    using inv
  proof (cases rule: ensure_read_cases [where env = env and ident = ident])
    case (refused e st1)
    then show ?thesis using drops by (simp add: store_transition_def)
  next
    case (lost st1)
    have "st_dirs (snd (transition_lost env ident next terminated summ st1)) = st_dirs st1"
      by (auto simp: transition_lost_def Let_def split: prod.split sum.split)
    then show ?thesis
      using lost drops evolves_trans [OF _ evolves_same_dirs, of c st st1] by (simp add: store_transition_def)
  next
    case (found st1 dir d n)
    obtain g m where merged: "merge_index_telemetry (st_index st1) ident (hd_metrics (invocation d)) = (g, m)"
      by fastforce
    let ?d = "d\<lparr>invocation := (invocation d)\<lparr>hd_metrics := m\<rparr>\<rparr>"
    show ?thesis
    proof (cases "transition (env_now_ms env) next (into_record (invocation ?d))")
      case (Inl err)
      then show ?thesis using found merged drops by (simp add: store_transition_def)
    next
      case moved: (Inr r)
      have live: "\<not> is_terminal (hd_state (invocation d))"
        using transition_live [OF moved] by (simp add: into_record_def)
      let ?r = "r\<lparr>rec_termination := terminated, summary := summ\<rparr>"
      let ?d3 = "(if is_terminal next
          then ?d\<lparr>deferred := extend_deferred (finished_or_now env ?r) (deferred ?d)\<rparr>
          else ?d)\<lparr>invocation := header_of ?r\<rparr>"
      let ?dir = "if is_terminal next then write_details c ?r dir else dir"
      let ?st2 = "st1\<lparr>st_dirs := fmupd ident ?dir (st_dirs st1)\<rparr>"
      have w: "(if is_terminal next then update_dir ident (write_details c ?r) st1 else (Inr (), st1)) =
          (Inr (), ?st2)"
        using found(4) by (simp add: update_dir_def fmupd_lookup)
      show ?thesis
        using persist_durable_cases [of c ident ?d3 "is_terminal next" ?st2]
      proof cases
        case missing
        then show ?thesis by simp
      next
        case (committed dir' d4 k st')
        have "schema_version ?d3 = 1" using found(6) by (simp add: durable_ok_def)
        then show ?thesis
          using persisted_final [where newdir = ?dir, OF found(1,4,5) _ committed(1) _ codec] live
            found merged moved w committed(1)
          by (simp add: store_transition_def Let_def)
      qed
    qed
  qed
qed

lemma finish_invocation_final:
  assumes inv: "store_inv c st" and codec: "codec_ok c"
  shows "evolves c st (snd (finish_invocation c env ident co st))"
proof -
  have drops: "evolves c st (snd (ensure_invocation c env ident st))"
    by (rule evolves_drops [OF ensure_invocation_drops])
  show ?thesis
  proof (cases "is_terminal (co_state co)")
    case False
    then show ?thesis
      using drops
      by (auto simp: finish_invocation_def get_invocation_header_def split: prod.split sum.split option.split)
  next
    case True
    show ?thesis
      using inv
    proof (cases rule: ensure_read_cases [where env = env and ident = ident])
      case (found st1 dir d n)
      show ?thesis
      proof (cases "transition (env_now_ms env) (co_state co) (into_record (invocation d))")
        case (Inl err)
        then show ?thesis using found True drops by (simp add: finish_invocation_def)
      next
        case moved: (Inr r)
        have live: "\<not> is_terminal (hd_state (invocation d))"
          using transition_live [OF moved] by (simp add: into_record_def)
        obtain g m where merged: "merge_index_telemetry (st_index st1) ident (co_metrics co) = (g, m)"
          by fastforce
        let ?r = "r\<lparr>rec_termination := Some (co_termination co), summary := Some (co_summary co),
            run := co_run co, metrics := m, canonical_arguments := co_canonical_arguments co\<rparr>"
        let ?d = "d\<lparr>deferred := extend_deferred (finished_or_now env ?r) (deferred d),
            invocation := header_of ?r\<rparr>"
        let ?f = "\<lambda>dir. write_details c ?r (write_artifacts c (co_artifacts co) dir)"
        let ?st2 = "st1\<lparr>st_dirs := fmupd ident (?f dir) (st_dirs st1)\<rparr>"
        have w: "update_dir ident ?f st1 = (Inr (), ?st2)" using found(4) by (simp add: update_dir_def)
        show ?thesis
          using persist_durable_cases [of c ident ?d True ?st2]
        proof cases
          case missing
          then show ?thesis by simp
        next
          case (committed dir' d2 k st')
          have "schema_version ?d = 1" using found(6) by (simp add: durable_ok_def)
          then show ?thesis
            using persisted_final [where newdir = "?f dir", OF found(1,4,5) _ committed(1) _ codec] live
              True found moved merged w committed(1)
            by (simp add: finish_invocation_def Let_def)
        qed
      qed
    qed (use True drops in \<open>simp_all add: finish_invocation_def\<close>)
  qed
qed

lemma replace_artifacts_final:
  assumes inv: "store_inv c st" and codec: "codec_ok c"
  shows "evolves c st (snd (replace_artifacts c env ident artifacts st))"
proof -
  have drops: "evolves c st (snd (ensure_invocation c env ident st))"
    by (rule evolves_drops [OF ensure_invocation_drops])
  show ?thesis
    using inv
  proof (cases rule: ensure_read_cases [where env = env and ident = ident])
    case (refused e st1)
    then show ?thesis using drops by (simp add: replace_artifacts_def)
  next
    case (lost st1)
    then show ?thesis using drops by (auto simp: replace_artifacts_def update_dir_def)
  next
    case (found st1 dir d n)
    let ?dir = "write_artifacts c artifacts dir"
    let ?st2 = "st1\<lparr>st_dirs := fmupd ident ?dir (st_dirs st1)\<rparr>"
    have w: "update_dir ident (write_artifacts c artifacts) st1 = (Inr (), ?st2)"
      using found(4) by (simp add: update_dir_def)
    have read: "read_durable c ident ?st2 = read_durable c ident st1"
      using found(4) by (simp add: read_durable_def write_artifacts_def)
    show ?thesis
      using persist_durable_cases [of c ident d True ?st2]
    proof cases
      case missing
      then show ?thesis by simp
    next
      case (committed dir' d2 k st')
      have "schema_version d = 1" using found(6) by (simp add: durable_ok_def)
      then show ?thesis
        using persisted_final [where newdir = ?dir, OF found(1,4,5) _ committed(1) _ codec]
          found w read committed(1)
        by (simp add: replace_artifacts_def Let_def)
    qed
  qed
qed

lemma get_deferred_result_final:
  assumes inv: "store_inv c st" and codec: "codec_ok c"
  shows "evolves c st (snd (get_deferred_result c env ident retrieval now st))"
proof -
  obtain r1 st1 where ensure: "ensure_invocation c env ident st = (r1, st1)" by fastforce
  have inv1: "store_inv c st1" using ensure_invocation_ok [OF inv, of env ident] ensure by simp
  have e1: "evolves c st st1"
    using evolves_drops [OF ensure_invocation_drops, of c st c env ident] ensure by simp
  obtain rm sm where m: "mutate c env ident False (\<lambda>d. Inr (d\<lparr>deferred := None\<rparr>)) st1 = (rm, sm)"
    by fastforce
  have em: "evolves c st1 sm"
    using mutate_final [OF inv1 codec, of "\<lambda>d. Inr (d\<lparr>deferred := None\<rparr>)" env ident False] m by auto
  obtain rh sh where h: "read_hydrated_invocation c env ident st1 = (rh, sh)" by fastforce
  have "only_drops st1 sh"
    using ensure_invocation_drops [of st1 c env ident] h
    by (auto simp: read_hydrated_invocation_def split: prod.splits sum.splits)
  then have eh: "evolves c st1 sh" by (rule evolves_drops)
  show ?thesis
    using e1 evolves_trans [OF e1 em] evolves_trans [OF e1 eh]
    by (simp add: get_deferred_result_def Let_def ensure m h split: sum.split option.split)
qed

lemma delete_expired_final:
  assumes inv: "store_inv c st" and codec: "codec_ok c"
  shows "evolves c st (snd (delete_expired_deferred_results c env now st))"
proof -
  have loop: "evolves c st (snd (delete_expired_loop c env now ids st))" if "store_inv c st" for ids st
    using that
  proof (induction ids arbitrary: st)
    case (Cons ident ids)
    obtain r st1 where m: "mutate c env ident False (\<lambda>d. Inr (drop_expired now d)) st = (r, st1)" by fastforce
    have "store_inv c st1"
      using mutate_inv [OF Cons.prems codec keeps_drop_deferred(2) [of ident now], of env False] m by simp
    moreover have "evolves c st st1"
      using mutate_final [OF Cons.prems codec, of "\<lambda>d. Inr (drop_expired now d)" env ident False]
        mutate_operations_keep(2) [of now] m by simp
    ultimately show ?case
      using Cons.IH [of st1] evolves_trans m by (auto split: sum.split)
  qed (simp add: evolves_same_dirs)
  obtain st1 where st1: "refresh_index_if_stale c env st = (Inr (), st1)" "store_inv c st1"
    using refresh_index_if_staleE [OF inv] .
  then show ?thesis
    using loop evolves_trans [OF evolves_drops [OF refresh_index_if_stale_drops, of c st c env]]
    by (simp add: delete_expired_deferred_results_def)
qed

lemma record_telemetry_final: "evolves c st (snd (record_telemetry c env ident f st))"
proof -
  obtain r1 st1 where st1: "refresh_index_if_stale c env st = (r1, st1)" by fastforce
  have "evolves c st st1"
    using evolves_drops [OF refresh_index_if_stale_drops, of c st c env] st1 by simp
  moreover have "st_dirs (snd (record_telemetry c env ident f st)) = st_dirs st1"
    using st1 by (simp add: record_telemetry_def split: prod.split sum.split option.split)
  ultimately show ?thesis using evolves_trans [OF _ evolves_same_dirs] by blast
qed

lemma evolves_commit:
  assumes "st_dirs st' = fmupd ident dir' (st_dirs st)" and "fmlookup (st_dirs st) ident = Some dir"
    and "manifest_of c dir = Some d"
    and "is_terminal (hd_state (invocation d)) \<Longrightarrow>
      \<exists>d'. manifest_of c dir' = Some d' \<and> outcome_of (invocation d') = outcome_of (invocation d)"
  shows "evolves c st st'"
proof -
  have "final c st st'" using assms(2-4) by (intro final_commit [OF assms(1)]) auto
  then show ?thesis using returns_nothing_commit [OF assms(1)] assms(2) by (simp add: evolves_def)
qed

lemma flush_telemetry_once_final:
  assumes inv: "store_inv c st" and codec: "codec_ok c"
  shows "evolves c st (snd (flush_telemetry_once c env ident st))"
proof -
  obtain st1 where st1: "refresh_index_if_stale c env st = (Inr (), st1)" "store_inv c st1"
    using refresh_index_if_staleE [OF inv] .
  have e1: "evolves c st st1"
    using evolves_drops [OF refresh_index_if_stale_drops, of c st c env] st1 by simp
  show ?thesis
  proof (cases "\<exists>e d n. fmlookup (entries (st_index st1)) ident = Some e \<and> telemetry_flush_scheduled e \<and>
      read_durable c ident st1 = Inr (d, n)")
    case False
    then have "snd (flush_telemetry_once c env ident st) = st1"
      using st1 by (auto simp: flush_telemetry_once_def split: option.split sum.split)
    then show ?thesis using e1 by simp
  next
    case True
    then obtain e d n where e: "fmlookup (entries (st_index st1)) ident = Some e"
      "telemetry_flush_scheduled e" and read: "read_durable c ident st1 = Inr (d, n)" by blast
    obtain dir where dir: "fmlookup (st_dirs st1) ident = Some dir" "manifest_of c dir = Some d"
      "durable_ok ident d"
      using read_durable_ok [OF st1(2) read] .
    let ?d = "d\<lparr>invocation := (invocation d)\<lparr>hd_metrics :=
        merge_telemetry (hd_metrics (en_record e)) (hd_metrics (invocation d))\<rparr>\<rparr>"
    show ?thesis
      using persist_durable_cases [of c ident ?d False st1]
    proof cases
      case missing
      then show ?thesis using dir by simp
    next
      case (committed dir' d1 k st2)
      have "manifest_of c (fmupd Manifest (enc_durable c d1) dir') = Some d1"
        using codec committed(7) dir(3) by (simp add: manifest_of_written durable_ok_def)
      then have "evolves c st1 st2"
        using evolves_commit [OF committed(3) dir(1,2)] committed(5) by (simp add: outcome_of_def)
      moreover have "st_dirs (snd (flush_telemetry_once c env ident st)) = st_dirs st2"
        using st1 e read committed(1)
        by (simp add: flush_telemetry_once_def Let_def split: option.split)
      ultimately show ?thesis
        using evolves_trans [OF e1] evolves_trans [OF _ evolves_same_dirs] by blast
    qed
  qed
qed

lemma recover_one_final:
  assumes "consistent c (st_dirs st) ix" and codec: "codec_ok c"
  shows "evolves c st (snd (recover_one c env ident st))"
  using assms(1)
proof (cases rule: read_durable_result [where ident = ident])
  case missing
  then show ?thesis by (simp add: recover_one_def evolves_same_dirs)
next
  case (read dir d n)
  show ?thesis
  proof (cases "is_terminal (hd_state (invocation d)) \<or> ident |\<in>| st_foreign st \<or> ident |\<in>| st_leases st")
    case True
    then show ?thesis using read by (auto simp: recover_one_def evolves_same_dirs)
  next
    case False
    let ?r = "interrupted_record env (invocation d)"
    obtain d2 k b newdir where "persist c (d\<lparr>deferred := extend_deferred (finished_or_now env ?r) (deferred d),
        invocation := header_of ?r\<rparr>) True (write_details c ?r dir) = (d2, k, b, newdir)"
      by (metis prod_cases4)
    then have "st_dirs (snd (recover_one c env ident st)) = fmupd ident newdir (st_dirs st)"
      using read False by (simp add: recover_one_def Let_def)
    then show ?thesis using evolves_commit [OF _ read(2,3)] False by simp
  qed
qed

lemma recover_ids_final:
  assumes "consistent c (st_dirs st) ix" and "codec_ok c"
  shows "evolves c st (snd (recover_ids c env ids st))"
  using assms
proof (induction ids arbitrary: st ix)
  case (Cons ident rest)
  have one: "evolves c st (snd (recover_one c env ident st))"
    by (rule recover_one_final [OF Cons.prems])
  show ?case
    using Cons.prems
  proof (cases rule: recover_one_cases [where ident = ident and env = env])
    case skipped
    then show ?thesis using Cons by simp
  next
    case (recovered e dir)
    let ?st = "st\<lparr>st_dirs := fmupd ident dir (st_dirs st)\<rparr>"
    have "evolves c ?st (snd (recover_ids c env rest ?st))"
      using Cons.IH [of ?st] recovered(6) Cons.prems(2) by simp
    then show ?thesis
      using one recovered(1) evolves_trans by (auto split: prod.split sum.split)
  qed
qed (simp add: evolves_same_dirs)

lemma recover_orphaned_final:
  assumes inv: "store_inv c st" and codec: "codec_ok c"
  shows "evolves c st (snd (recover_orphaned_invocations c env st))"
proof -
  obtain r st1 where run: "recover_ids c env (nonterminal_ids (st_index st)) st = (r, st1)" by fastforce
  have "evolves c st st1"
    using recover_ids_final [OF inv [unfolded store_inv_def] codec, of env "nonterminal_ids (st_index st)"] run
    by simp
  moreover have "st_dirs (snd (recover_orphaned_invocations c env st)) = st_dirs st1"
    using run by (simp add: recover_orphaned_invocations_def split: sum.split)
  ultimately show ?thesis using evolves_trans [OF _ evolves_same_dirs] by blast
qed

lemma reclaim_candidate_final:
  assumes inv: "store_inv c st" and codec: "codec_ok c"
  shows "evolves c st (snd (reclaim_retention_candidate c env unlink_ok ident gp st))"
proof -
  have one: "evolves c st (snd (reclaim_terminal c env unlink_ok ident st))"
    using inv codec
  proof (cases rule: reclaim_terminal_cases [where env = env and unlink_ok = unlink_ok and ident = ident])
    case (pruned d n dir d1 k outcome st')
    have "manifest_of c dir = Some d"
      using pruned(2,4) by (auto simp: read_durable_def manifest_of_def split: option.splits sum.splits)
    moreover have "manifest_of c (fmupd Manifest (enc_durable c d1)
        (fmfilter (\<lambda>name. name \<notin> set raw_evidence) dir)) = Some d1"
      using codec pruned(9) by (simp add: manifest_of_written durable_ok_def)
    ultimately have "evolves c st st'" using evolves_commit [OF pruned(5,4)] pruned(7) by simp
    then show ?thesis using pruned(1) by simp
  next
    case (removed d n outcome st')
    have "only_drops st st'" using removed(4) by (simp add: only_drops_def)
    then show ?thesis using removed(1) by (simp add: evolves_drops)
  qed (simp_all add: evolves_same_dirs)
  obtain r1 st1 where rt: "reclaim_terminal c env unlink_ok ident st = (r1, st1)" by fastforce
  have "st_dirs (snd (reclaim_retention_candidate c env unlink_ok ident gp st)) = st_dirs st1"
    using rt
    by (simp add: reclaim_retention_candidate_def publish_retention_batch_def Let_def split: sum.split)
  then show ?thesis using one rt evolves_trans [OF _ evolves_same_dirs] by (metis snd_conv)
qed

lemma candidate_inv:
  assumes "store_inv c st" and "codec_ok c"
    and "reclaim_retention_candidate c env unlink_ok ident gp st = (r, st')"
  shows "store_inv c st'"
  using candidate_facts(1) [OF assms] by (simp add: reclaims_def)

lemma reclaim_by_age_final:
  assumes "store_inv c st" and "codec_ok c"
  shows "evolves c st (snd (reclaim_by_age c env unlink_ok cutoff cands gp processed st))"
  using assms
proof (induction cands arbitrary: gp processed st)
  case (Cons cand rest)
  obtain finished ident where cand: "cand = (finished, ident)" by fastforce
  obtain r1 st1 where c1: "reclaim_retention_candidate c env unlink_ok ident gp st = (r1, st1)"
    by fastforce
  have "evolves c st st1"
    using reclaim_candidate_final [OF Cons.prems, of env unlink_ok ident gp] c1 by simp
  then show ?case
    using Cons cand c1 candidate_inv [OF Cons.prems c1] evolves_trans by (fastforce split: sum.split)
qed (simp add: evolves_same_dirs)

lemma reclaim_by_quota_final:
  assumes "store_inv c st" and "codec_ok c"
  shows "evolves c st (snd (reclaim_by_quota c env unlink_ok low cands gp processed st))"
  using assms
proof (induction cands arbitrary: gp processed st)
  case (Cons cand rest)
  obtain finished ident where cand: "cand = (finished, ident)" by fastforce
  obtain r1 st1 where c1: "reclaim_retention_candidate c env unlink_ok ident gp st = (r1, st1)"
    by fastforce
  have "evolves c st st1"
    using reclaim_candidate_final [OF Cons.prems, of env unlink_ok ident gp] c1 by simp
  then show ?case
    using Cons cand c1 candidate_inv [OF Cons.prems c1] evolves_trans evolves_same_dirs
    by (fastforce split: sum.split)
qed (simp add: evolves_same_dirs)

lemma reclaim_passes_final:
  assumes inv: "store_inv c st" and codec: "codec_ok c"
  shows "evolves c st (snd (reclaim_passes c env unlink_ok cutoff maximum_bytes st))"
proof -
  let ?cands = "sorted_list_of_fset (terminal_by_finished (st_index st))"
  let ?gp = "\<lparr>gp_reclaimed = 0, gp_pending_notifications = 0, gp_pending_lock_cleanup = []\<rparr>"
  obtain r1 st1 where age: "reclaim_by_age c env unlink_ok cutoff ?cands ?gp {||} st = (r1, st1)"
    by fastforce
  have e1: "evolves c st st1"
    using reclaim_by_age_final [OF inv codec, of env unlink_ok cutoff ?cands ?gp "{||}"] age by simp
  show ?thesis
  proof (cases r1)
    case (Inl e)
    then show ?thesis using e1 age by (simp add: reclaim_passes_def Let_def)
  next
    case (Inr p)
    obtain gp1 processed where p: "p = (gp1, processed)" by fastforce
    obtain r2 st2 where quota: "(if maximum_bytes < retained_bytes (st_index st1)
       then reclaim_by_quota c env unlink_ok (low_watermark maximum_bytes) ?cands gp1 processed st1
       else (Inr gp1, st1)) = (r2, st2)" by fastforce
    have "store_inv c st1" using reclaim_by_age_facts [OF inv codec age] by simp
    then have "evolves c st1 st2"
      using reclaim_by_quota_final [of c st1 env unlink_ok "low_watermark maximum_bytes" ?cands gp1 processed]
        codec quota by (auto simp: evolves_same_dirs split: if_splits)
    moreover have "st_dirs (snd (reclaim_passes c env unlink_ok cutoff maximum_bytes st)) = st_dirs st2"
      by (simp add: reclaim_passes_def Let_def age Inr p quota publish_retention_batch_def split: sum.split)
    ultimately show ?thesis using evolves_trans [OF e1] evolves_trans [OF _ evolves_same_dirs] by blast
  qed
qed

lemma enforce_retention_final:
  assumes inv: "store_inv c st" and codec: "codec_ok c"
  shows "evolves c st (snd (enforce_retention c env free unlink_ok maximum_age_ms maximum_bytes st))"
proof -
  obtain st1 where st1: "refresh_index c True st = (Inr (), st1)" "store_inv c st1"
    using refresh_index_run [OF inv] .
  obtain r2 st2 where st2: "recover_orphaned_invocations c env st1 = (r2, st2)" by fastforce
  have inv2: "store_inv c st2" using recover_orphaned_inv [OF st1(2) codec, of env] st2 by simp
  obtain r3 st3 where st3: "delete_expired_deferred_results c env (env_now_ms env) st2 = (r3, st3)"
    by fastforce
  have inv3: "store_inv c st3"
    using delete_expired_inv [OF inv2 codec, of env "env_now_ms env"] st3 by simp
  let ?st4 = "measure_live c (nonterminal_ids (st_index st3)) st3"
  have e1: "evolves c st st1" using evolves_drops [OF refresh_index_drops, of c st c True] st1 by simp
  have e2: "evolves c st st2"
    using evolves_trans [OF e1 recover_orphaned_final [OF st1(2) codec, of env]] st2 by simp
  have e3: "evolves c st st3"
    using evolves_trans [OF e2 delete_expired_final [OF inv2 codec, of env "env_now_ms env"]] st3 by simp
  have e4: "evolves c st ?st4"
    using evolves_trans [OF e3 evolves_same_dirs] measure_live_facts by blast
  have inv4: "store_inv c ?st4" using measure_live_facts inv3 by blast
  have "evolves c st (snd (reclaim_passes c env unlink_ok cutoff maximum_bytes ?st4))" for cutoff
    by (rule evolves_trans [OF e4 reclaim_passes_final [OF inv4 codec]])
  then show ?thesis
    using st1 st2 st3 e1 e2 e3
    by (simp add: enforce_retention_def evolves_same_dirs split: sum.split)
qed

lemma store_open_final:
  assumes dirs: "\<And>ident dir. fmlookup (st_dirs st) ident = Some dir \<Longrightarrow> dir_ok c ident dir"
    and codec: "codec_ok c"
  shows "evolves c st (snd (store_open c env publisher live st))"
proof -
  obtain ix dirs' where load: "load_index c (st_dirs st) = (Inr ix, dirs')" "consistent c dirs' ix"
    using load_index_ok [of "st_dirs st" c] dirs by blast
  have keep: "fmlookup dirs' i = fmlookup (st_dirs st) i \<or> fmlookup dirs' i = None" for i
    using load_loop_keeps [OF load(1) [unfolded load_index_def], of i] by auto
  define st1 where "st1 =
    (let changes = cleanup_stale_change_publishers (finsert publisher live)
                      (fmupd publisher (env_change env) (st_changes st))
     in st\<lparr>st_trash := fmempty, st_leases := {||}, st_publisher := publisher,
           st_changes := changes, st_observed := changes, st_next_check_us := 0,
           st_index := index_default, st_io := io_stats_default, st_dirs := dirs', st_index := ix\<rparr>)"
  have dirs1: "st_dirs st1 = dirs'" by (simp add: st1_def Let_def)
  have e1: "evolves c st st1" using keep dirs1 by (intro evolves_drops) (simp add: only_drops_def)
  obtain r st2 where rec: "recover_ids c env (nonterminal_ids ix) st1 = (r, st2)" by fastforce
  have e2: "evolves c st1 st2"
    using recover_ids_final [of c st1 ix env "nonterminal_ids ix"] load(2) dirs1 codec rec by simp
  have "st_dirs (snd (store_open c env publisher live st)) = st_dirs st2"
    using rec load(1) by (simp add: store_open_def Let_def st1_def split: sum.split)
  then show ?thesis using evolves_trans [OF e1 e2] evolves_trans [OF _ evolves_same_dirs] by blast
qed

lemma refresh_index_keeps_manifests:
  assumes "manifest_present i (st_dirs st)"
  shows "fmlookup (st_dirs (snd (refresh_index_if_stale c env st))) i = fmlookup (st_dirs st) i"
proof -
  obtain r dirs where load: "load_index c (st_dirs st) = (r, dirs)" by fastforce
  then have "fmlookup dirs i = fmlookup (st_dirs st) i"
    using load_loop_keeps [OF load [unfolded load_index_def], of i] assms
    by (auto simp: manifest_present_def)
  then show ?thesis
    using load
    by (auto simp: refresh_index_if_stale_def claim_check_def refresh_index_def split: sum.split)
qed

lemma create_final:
  assumes inv: "store_inv c st"
  shows "final c st (snd (create_invocation_with_deferred c env r dfr st))"
proof -
  obtain st1 where st1: "refresh_index_if_stale c env st = (Inr (), st1)" "store_inv c st1"
    using refresh_index_if_staleE [OF inv] .
  let ?id = "req_id (request r)" and ?st' = "snd (create_invocation_with_deferred c env r dfr st)"
  have other: "i \<noteq> ?id \<or> fmlookup (st_dirs st1) ?id \<noteq> None \<Longrightarrow>
      fmlookup (st_dirs ?st') i = fmlookup (st_dirs st1) i" for i
    using st1
    by (auto simp: create_invocation_with_deferred_def persist_durable_def Let_def
        split: sum.split prod.split)
  show ?thesis
    unfolding final_def
  proof (intro allI impI)
    fix ident dir d
    assume a: "fmlookup (st_dirs st) ident = Some dir" "manifest_of c dir = Some d"
    then have "manifest_present ident (st_dirs st)"
      by (auto simp: manifest_present_def manifest_of_def split: option.splits)
    then have "fmlookup (st_dirs st1) ident = Some dir"
      using refresh_index_keeps_manifests [of ident st c env] st1 a by simp
    then have "fmlookup (st_dirs ?st') ident = Some dir" using other [of ident] by (cases "ident = ?id") auto
    then show "case fmlookup (st_dirs ?st') ident of None \<Rightarrow> True
      | Some dir' \<Rightarrow> \<exists>d'. manifest_of c dir' = Some d' \<and> outcome_of (invocation d') = outcome_of (invocation d)"
      using a by simp
  qed
qed

section \<open>The store as a transition system\<close>

text \<open>
  One rule per operation. The environment writes and removes evidence files, which are all
  files but the manifest, loses the directory of an invocation, takes or frees the owner locks
  of other processes, and restarts the process, which opens the store again.
\<close>

inductive store_step :: "'b codec \<Rightarrow> 'b store \<Rightarrow> 'b store \<Rightarrow> bool" for c where
  create: "record_inv r \<Longrightarrow> store_step c st (snd (create_invocation_with_deferred c env r dfr st))"
| transition_to: "store_step c st (snd (store_transition c env ident s terminated summ st))"
| finish: "store_step c st (snd (finish_invocation c env ident co st))"
| cancellation_reason: "store_step c st (snd (update_cancellation_reason c env ident reason st))"
| artifacts: "store_step c st (snd (replace_artifacts c env ident arts st))"
| cancel_deferred: "store_step c st (snd (record_deferred_cancellation c env ident t st))"
| override_deferred: "store_step c st (snd (set_deferred_terminal_override c env ident s t st))"
| fail_deferred: "store_step c st (snd (persist_deferred_failure c env ident f t st))"
| extend_deferred: "store_step c st (snd (extend_deferred_expiry c env ident m t st))"
| read_deferred: "store_step c st (snd (get_deferred_result c env ident retrieval now st))"
| expire_deferred: "store_step c st (snd (delete_expired_deferred_results c env now st))"
| read_header: "store_step c st (snd (get_invocation_header c env ident st))"
| read_record: "store_step c st (snd (get_invocation c env ident st))"
| visible_bytes: "store_step c st (snd (record_model_visible_result c env ident n inspection st))"
| progress: "store_step c st (snd (record_progress_notifications c env ident n st))"
| flush: "store_step c st (snd (flush_telemetry_once c env ident st))"
| retain: "store_step c st (snd (enforce_retention c env free unlink_ok age bytes st))"
| write_evidence: "name \<noteq> Manifest \<Longrightarrow> fmlookup (st_dirs st) ident = Some dir \<Longrightarrow>
    store_step c st (st\<lparr>st_dirs := fmupd ident (fmupd name x dir) (st_dirs st)\<rparr>)"
| remove_evidence: "name \<noteq> Manifest \<Longrightarrow> fmlookup (st_dirs st) ident = Some dir \<Longrightarrow>
    store_step c st (st\<lparr>st_dirs := fmupd ident (fmdrop name dir) (st_dirs st)\<rparr>)"
| lose: "store_step c st (st\<lparr>st_dirs := fmdrop ident (st_dirs st)\<rparr>)"
| foreign_owners: "store_step c st (st\<lparr>st_foreign := owners\<rparr>)"
| restart: "store_step c st (snd (store_open c env publisher live st))"

inductive reachable :: "'b codec \<Rightarrow> 'b store \<Rightarrow> bool" for c where
  opened: "(\<And>ident dir. fmlookup (st_dirs st) ident = Some dir \<Longrightarrow> dir_ok c ident dir) \<Longrightarrow>
    reachable c (snd (store_open c env publisher live st))"
| step: "reachable c st \<Longrightarrow> store_step c st st' \<Longrightarrow> reachable c st'"

lemma telemetry_clients_inv:
  assumes "store_inv c st"
  shows "store_inv c (snd (record_model_visible_result c env ident n inspection st))"
    and "store_inv c (snd (record_progress_notifications c env ident n st))"
  using assms
  by (simp_all add: record_model_visible_result_def record_progress_notifications_def
      record_telemetry_inv only_telemetry_recordings)

lemma get_invocation_inv: "store_inv c st \<Longrightarrow> store_inv c (snd (get_invocation c env ident st))"
  using read_hydrated_inv [of c st env ident]
  by (auto simp: get_invocation_def split: prod.split sum.split)

lemma store_inv_dirs: "store_inv c st \<Longrightarrow> fmlookup (st_dirs st) ident = Some dir \<Longrightarrow> dir_ok c ident dir"
  by (simp add: store_inv_def consistent_def)

lemma store_step_inv:
  assumes "store_step c st st'" and inv: "store_inv c st" and codec: "codec_ok c"
  shows "store_inv c st'"
  using assms(1)
proof cases
  case (write_evidence name ident dir x)
  then show ?thesis using inv by (simp add: store_inv_def consistent_sidecar)
next
  case (remove_evidence name ident dir)
  then show ?thesis using inv by (simp add: store_inv_def consistent_sidecar)
next
  case lose
  then show ?thesis using inv by (simp add: store_inv_def consistent_lose)
next
  case foreign_owners
  then show ?thesis using inv by (simp add: store_inv_def)
next
  case restart
  then show ?thesis using store_open_inv(2) store_inv_dirs [OF inv] codec by blast
qed (simp_all add: inv codec create_inv store_transition_inv finish_invocation_inv replace_artifacts_inv
    mutate_clients mutate_inv keeps_clients get_deferred_result_inv delete_expired_inv
    get_invocation_header_inv get_invocation_inv telemetry_clients_inv flush_telemetry_once_inv
    enforce_retention_inv)

lemma reachable_store_inv: "reachable c st \<Longrightarrow> codec_ok c \<Longrightarrow> store_inv c st"
  by (induction rule: reachable.induct) (auto intro: store_open_inv(2) store_step_inv)

lemma reads_final:
  "evolves c st (snd (get_invocation_header c env ident st))"
  "evolves c st (snd (get_invocation c env ident st))"
proof -
  have e: "evolves c st (snd (ensure_invocation c env ident st))"
    by (rule evolves_drops [OF ensure_invocation_drops])
  then show "evolves c st (snd (get_invocation_header c env ident st))"
    by (auto simp: get_invocation_header_def split: prod.split sum.split option.split)
  show "evolves c st (snd (get_invocation c env ident st))"
    using e
    by (auto simp: get_invocation_def read_hydrated_invocation_def split: prod.split sum.split option.split)
qed

lemma mutate_clients_final:
  assumes "store_inv c st" and "codec_ok c"
  shows "evolves c st (snd (update_cancellation_reason c env ident reason st))"
    and "evolves c st (snd (mutate c env ident recount (with_deferred ident f) st))"
proof -
  show "evolves c st (snd (update_cancellation_reason c env ident reason st))"
    unfolding update_cancellation_reason_def
    by (rule mutate_final [OF assms]) (auto simp: outcome_of_def)
  show "evolves c st (snd (mutate c env ident recount (with_deferred ident f) st))"
    by (rule mutate_final [OF assms]) (rule mutate_operations_keep(1))
qed

lemma evidence_final:
  assumes "name \<noteq> Manifest" and "fmlookup (st_dirs st) ident = Some dir"
  shows "final c st (st\<lparr>st_dirs := fmupd ident (fmupd name x dir) (st_dirs st)\<rparr>)"
    and "final c st (st\<lparr>st_dirs := fmupd ident (fmdrop name dir) (st_dirs st)\<rparr>)"
  using assms by (auto intro!: final_commit)

lemma evolves_final: "evolves c st st' \<Longrightarrow> final c st st'"
  by (simp add: evolves_def)

lemmas operations_final =
  mutate_clients_final store_transition_final finish_invocation_final replace_artifacts_final
  get_deferred_result_final delete_expired_final flush_telemetry_once_final enforce_retention_final
  reads_final record_telemetry_final

lemma store_step_final:
  assumes "store_step c st st'" and inv: "store_inv c st" and codec: "codec_ok c"
  shows "final c st st'"
  using assms(1)
proof cases
  case lose
  then show ?thesis by (auto intro: only_drops_final simp: only_drops_def)
next
  case foreign_owners
  then show ?thesis by (simp add: final_same_dirs)
next
  case restart
  then show ?thesis using store_open_final [OF store_inv_dirs [OF inv] codec] by (simp add: evolves_def)
next
  case (write_evidence name ident dir x)
  then show ?thesis using evidence_final(1) by simp
next
  case (remove_evidence name ident dir)
  then show ?thesis using evidence_final(2) by simp
qed (simp_all add: operations_final [THEN evolves_final] create_final inv codec
    record_deferred_cancellation_def set_deferred_terminal_override_def persist_deferred_failure_def
    extend_deferred_expiry_def record_model_visible_result_def record_progress_notifications_def)

section \<open>What a restart recovers\<close>

lemma load_loop_entries:
  assumes "load_loop c ids dirs ix = (Inr ix', dirs')" and "distinct ids"
    and "fmlookup (entries ix') i \<noteq> None"
  shows "fmlookup (entries ix) i \<noteq> None \<or> manifest_present i dirs' \<and> i \<in> set ids"
  using assms
proof (induction ids arbitrary: dirs ix)
  case (Cons ident rest)
  show ?case
  proof (cases "fmlookup dirs ident")
    case None
    then show ?thesis using Cons.IH [of dirs ix] Cons.prems by auto
  next
    case (Some dir)
    show ?thesis
    proof (cases "fmlookup dir Manifest")
      case None
      then show ?thesis using Cons.IH [of "fmdrop ident dirs" ix] Cons.prems Some by auto
    next
      case bytes: (Some bytes)
      then obtain ix1 where ix1: "index_manifest_bytes c ident dir bytes ix = Inr ix1"
        using Cons.prems Some by (auto split: sum.splits)
      obtain e where e: "ix1 = index_insert ix ident e" using index_manifest_bytes_insert [OF ix1] by blast
      have run: "load_loop c rest dirs ix1 = (Inr ix', dirs')" using Cons.prems(1) Some bytes ix1 by simp
      have "fmlookup dirs' ident = Some dir"
        using load_loop_keeps [OF run, of ident] Some bytes by auto
      then have "manifest_present ident dirs'" using bytes by (simp add: manifest_present_def)
      then show ?thesis using Cons.IH [OF run] Cons.prems(2,3) e by (auto split: if_splits)
    qed
  qed
qed simp

lemma nonterminal_ids_iff:
  "i \<in> set (nonterminal_ids ix) \<longleftrightarrow>
     (\<exists>e. fmlookup (entries ix) i = Some e \<and> \<not> is_terminal (hd_state (en_record e)))"
  by (auto simp: nonterminal_ids_def sorted_list_of_fset.rep_eq fmlookup_dom_iff split: option.splits)

lemma store_open_recovers:
  assumes dirs: "\<And>ident dir. fmlookup (st_dirs st) ident = Some dir \<Longrightarrow> dir_ok c ident dir"
    and codec: "codec_ok c"
    and entry: "fmlookup (entries (st_index (snd (store_open c env publisher live st)))) ident = Some e"
  shows "is_terminal (hd_state (en_record e)) \<or> ident |\<in>| st_foreign st"
proof -
  obtain ix dirs' where load: "load_index c (st_dirs st) = (Inr ix, dirs')" "consistent c dirs' ix"
    using load_index_ok [of "st_dirs st" c] dirs by blast
  define changes where "changes = cleanup_stale_change_publishers (finsert publisher live)
      (fmupd publisher (env_change env) (st_changes st))"
  let ?st1 = "st\<lparr>st_trash := fmempty, st_leases := {||}, st_publisher := publisher,
      st_changes := changes, st_observed := changes, st_next_check_us := 0,
      st_index := index_default, st_io := io_stats_default, st_dirs := dirs', st_index := ix\<rparr>"
  obtain rec st2 where rec: "recover_ids c env (nonterminal_ids ix) ?st1 = (Inr rec, st2)"
    "\<forall>(i, e) \<in> set rec. is_terminal (hd_state (en_record e))"
    "\<forall>i \<in> set (nonterminal_ids ix). i |\<notin>| st_foreign ?st1 \<and> i |\<notin>| st_leases ?st1 \<and>
       manifest_present i (st_dirs ?st1) \<longrightarrow> i \<in> fst ` set rec"
    using recover_ids_inv [of c ?st1 ix env "nonterminal_ids ix"] load(2) codec by auto
  have "st_index (snd (store_open c env publisher live st)) = replace_recovered rec ix"
    using load(1) rec(1) by (simp add: store_open_def Let_def changes_def)
  then have "fmlookup (entries (replace_recovered rec ix)) ident = Some e" using entry by simp
  then consider (new) e' where "(ident, e') \<in> set rec" "hd_state (en_record e) = hd_state (en_record e')"
    | (old) "ident \<notin> fst ` set rec" "fmlookup (entries ix) ident = Some e"
    using replace_recovered_lookup by blast
  then show ?thesis
  proof cases
    case new
    then show ?thesis using rec(2) by auto
  next
    case old
    have "distinct (sorted_list_of_fset (fmdom (st_dirs st)))"
      by (simp add: sorted_list_of_fset.rep_eq)
    then have "manifest_present ident dirs'"
      using load_loop_entries [OF load(1) [unfolded load_index_def]] old(2)
      by (fastforce simp: index_default_def)
    then show ?thesis using rec(3) old nonterminal_ids_iff [of ident ix] by auto
  qed
qed

lemma store_open_keeps:
  assumes dirs: "\<And>ident dir. fmlookup (st_dirs st) ident = Some dir \<Longrightarrow> dir_ok c ident dir"
    and codec: "codec_ok c" and load: "load_index c (st_dirs st) = (Inr ix, dirs')"
    and entry: "fmlookup (entries ix) i \<noteq> None"
  shows "fmlookup (entries (st_index (snd (store_open c env publisher live st)))) i \<noteq> None"
proof -
  have ok: "consistent c dirs' ix" using load_index_ok [of "st_dirs st" c] dirs load by auto
  define changes where "changes = cleanup_stale_change_publishers (finsert publisher live)
      (fmupd publisher (env_change env) (st_changes st))"
  let ?st1 = "st\<lparr>st_trash := fmempty, st_leases := {||}, st_publisher := publisher,
      st_changes := changes, st_observed := changes, st_next_check_us := 0,
      st_index := index_default, st_io := io_stats_default, st_dirs := dirs', st_index := ix\<rparr>"
  obtain rec st2 where rec: "recover_ids c env (nonterminal_ids ix) ?st1 = (Inr rec, st2)"
    using recover_ids_inv [of c ?st1 ix env "nonterminal_ids ix"] ok codec by auto
  have "st_index (snd (store_open c env publisher live st)) = replace_recovered rec ix"
    using load rec by (simp add: store_open_def Let_def changes_def)
  then show ?thesis using replace_recovered_keys [OF entry] by simp
qed

section \<open>What is read back\<close>

lemma details_empty_default: "details_is_empty d \<longleftrightarrow> d = details_default"
  by (cases d) (auto simp: details_is_empty_def details_default_def)

lemma read_details_written:
  assumes "codec_ok c"
  shows "read_json_or_default (dec_details c) details_default (fmlookup (write_details c r dir) Details) =
    Inr (details_of r)"
  using assms details_empty_default [of "details_of r"]
  by (auto simp: read_json_or_default_def write_details_def codec_ok_def Let_def)

lemma refresh_index_present:
  assumes inv: "store_inv c st" and manifest: "manifest_present ident (st_dirs st)"
    and entry: "fmlookup (entries (st_index st)) ident \<noteq> None"
  obtains st1 where "refresh_index c force st = (Inr (), st1)"
    and "fmlookup (entries (st_index st1)) ident \<noteq> None"
    and "fmlookup (st_dirs st1) ident = fmlookup (st_dirs st) ident"
proof -
  obtain ix dirs where load: "load_index c (st_dirs st) = (Inr ix, dirs)"
    using load_index_ok [of "st_dirs st" c] inv by (auto simp: store_inv_def consistent_def)
  have d: "distinct (sorted_list_of_fset (fmdom (st_dirs st)))"
    "ident \<in> set (sorted_list_of_fset (fmdom (st_dirs st)))"
    using manifest
    by (auto simp: sorted_list_of_fset.rep_eq manifest_present_def fmlookup_dom_iff split: option.splits)
  have "fmlookup dirs ident = fmlookup (st_dirs st) ident"
    using load_loop_keeps [OF load [unfolded load_index_def], of ident] manifest
    by (auto simp: manifest_present_def)
  moreover have "fmlookup (entries (replace_from_disk (st_index st) ix)) ident \<noteq> None"
    using load_loop_indexed [OF load [unfolded load_index_def] d(1)] d(2) manifest
      merge_pending_keys [of "st_index st" ix ident] by blast
  ultimately show thesis
    using that load entry by (cases "\<not> force \<and> st_changes st = st_observed st") (auto simp: refresh_index_def)
qed

lemma ensure_invocation_present:
  assumes inv: "store_inv c st" and manifest: "manifest_present ident (st_dirs st)"
    and entry: "fmlookup (entries (st_index st)) ident \<noteq> None"
  obtains st1 where "ensure_invocation c env ident st = (Inr (), st1)"
    and "fmlookup (st_dirs st1) ident = fmlookup (st_dirs st) ident"
proof (cases "st_next_check_us st \<le> env_now_us env")
  case True
  let ?st = "st\<lparr>st_next_check_us := sat_add (env_now_us env) CHANGE_POLL_INTERVAL_US\<rparr>"
  obtain st1 where "refresh_index c False ?st = (Inr (), st1)"
    "fmlookup (entries (st_index st1)) ident \<noteq> None"
    "fmlookup (st_dirs st1) ident = fmlookup (st_dirs ?st) ident"
    using refresh_index_present [of c ?st ident False] inv manifest entry
    by (auto simp: store_inv_def)
  then show thesis
    using that True by (auto simp: ensure_invocation_def refresh_index_if_stale_def claim_check_def)
next
  case False
  then show thesis
    using that entry by (auto simp: ensure_invocation_def refresh_index_if_stale_def claim_check_def)
qed

text \<open>A record whose header and details are on disk is read back as it is.\<close>

lemma get_invocation_written:
  assumes inv: "store_inv c st" and codec: "codec_ok c"
    and entry: "fmlookup (entries (st_index st)) ident \<noteq> None"
    and dir: "fmlookup (st_dirs st) ident = Some dir" "manifest_of c dir = Some d"
    and header: "invocation d = header_of r"
    and details: "fmlookup dir Details = fmlookup (write_details c r dir') Details"
  shows "fst (get_invocation c env ident st) = Inr r"
proof -
  have "manifest_present ident (st_dirs st)"
    using dir by (auto simp: manifest_present_def manifest_of_def split: option.splits)
  then obtain st1 where st1: "ensure_invocation c env ident st = (Inr (), st1)"
    "fmlookup (st_dirs st1) ident = Some dir"
    using ensure_invocation_present [OF inv _ entry] dir(1) by metis
  obtain n where "read_durable c ident st1 = Inr (d, n)" using manifest_of_read [OF st1(2) dir(2)] by blast
  then show ?thesis
    using st1 details read_details_written [OF codec, of r dir'] header
    by (simp add: get_invocation_def read_hydrated_invocation_def hydrated_record)
qed

lemma finish_invocation_written:
  assumes inv: "store_inv c st" and codec: "codec_ok c"
    and run: "finish_invocation c env ident co st = (Inr r, st')"
  shows "\<exists>dir dir' d. fmlookup (st_dirs st') ident = Some dir \<and> manifest_of c dir = Some d \<and>
    invocation d = header_of r \<and> fmlookup dir Details = fmlookup (write_details c r dir') Details \<and>
    fmlookup (entries (st_index st')) ident \<noteq> None"
proof -
  have terminal: "is_terminal (co_state co)"
    using run by (auto simp: finish_invocation_def split: if_splits prod.splits sum.splits)
  show ?thesis
    using inv
  proof (cases rule: ensure_read_cases [where env = env and ident = ident])
    case (found st1 dir d n)
    show ?thesis
    proof (cases "transition (env_now_ms env) (co_state co) (into_record (invocation d))")
      case (Inl err)
      then show ?thesis using found terminal run by (simp add: finish_invocation_def)
    next
      case moved: (Inr r0)
      obtain g m where merged: "merge_index_telemetry (st_index st1) ident (co_metrics co) = (g, m)"
        by fastforce
      let ?r = "r0\<lparr>rec_termination := Some (co_termination co), summary := Some (co_summary co),
          run := co_run co, metrics := m, canonical_arguments := co_canonical_arguments co\<rparr>"
      let ?d = "d\<lparr>deferred := extend_deferred (finished_or_now env ?r) (deferred d),
          invocation := header_of ?r\<rparr>"
      let ?f = "\<lambda>dir. write_details c ?r (write_artifacts c (co_artifacts co) dir)"
      let ?st2 = "st1\<lparr>st_dirs := fmupd ident (?f dir) (st_dirs st1)\<rparr>"
      have w: "update_dir ident ?f st1 = (Inr (), ?st2)" using found(4) by (simp add: update_dir_def)
      show ?thesis
        using persist_durable_cases [of c ident ?d True ?st2]
      proof cases
        case missing
        then show ?thesis by simp
      next
        case (committed dir2 d2 k st2)
        have dir2: "dir2 = ?f dir" using committed(2) by simp
        have r: "r = ?r" and dirs: "st_dirs st' = st_dirs st2"
          and ix: "st_index st' = mark_telemetry_flushed
            (index_replace (st_index st2) ident (index_entry_of d2 k)) ident g"
          using run terminal found moved merged w committed(1)
          by (auto simp: finish_invocation_def Let_def release_owner_def publish_change_def)
        have "manifest_of c (fmupd Manifest (enc_durable c d2) dir2) = Some d2"
          using codec committed(7) found(6) by (simp add: manifest_of_written durable_ok_def)
        moreover have "fmlookup (entries (st_index st')) ident \<noteq> None"
          unfolding ix flushed_keys by simp
        ultimately show ?thesis
          using dirs committed(3,5) dir2 r
          by (intro exI [of _ "fmupd Manifest (enc_durable c d2) dir2"]
              exI [of _ "write_artifacts c (co_artifacts co) dir"] exI [of _ d2]) simp
      qed
    qed
  qed (use terminal run in \<open>simp_all add: finish_invocation_def\<close>)
qed

section \<open>A concrete store\<close>

text \<open>
  A store with one invocation, over the codec in memory, at which the properties below are
  applied.
\<close>

definition env_at :: "int \<Rightarrow> env" where
  "env_at now = \<lparr>env_now_ms = now, env_now_us = 0, env_change = 5\<rparr>"

definition empty_store :: "blob store" where
  "empty_store =
     \<lparr>st_dirs = fmempty, st_trash = fmempty, st_foreign = {||}, st_leases = {||}, st_publisher = 0,
      st_changes = fmupd 0 5 fmempty, st_observed = fmupd 0 5 fmempty, st_next_check_us = 0,
      st_index = index_default, st_io = io_stats_default\<rparr>"

definition demo_record :: "invocation_state \<Rightarrow> int option \<Rightarrow> invocation_record" where
  "demo_record s finished =
     (queued (request_new 7 5 ''/w'' Build []))\<lparr>state := s, finished_at_ms := finished\<rparr>"

definition demo_store :: "invocation_state \<Rightarrow> int option \<Rightarrow> blob store" where
  "demo_store s finished =
     snd (create_invocation_with_deferred memory_codec (env_at 10) (demo_record s finished) None empty_store)"

definition demo_durable :: "invocation_state \<Rightarrow> int option \<Rightarrow> durable_record" where
  "demo_durable s finished =
     \<lparr>schema_version = 1, invocation = header_of (demo_record s finished), deferred = None,
      payload_bytes = 0\<rparr>"

definition demo_dirs :: "invocation_state \<Rightarrow> int option \<Rightarrow> (invocation_id, blob directory) fmap" where
  "demo_dirs s finished = fmupd 7 (fmupd Manifest (ManifestBlob (demo_durable s finished)) fmempty) fmempty"

definition demo_index :: "invocation_state \<Rightarrow> int option \<Rightarrow> index" where
  "demo_index s finished = index_insert index_default 7 (index_entry_of (demo_durable s finished) 100)"

lemma demo_header [simp]:
  "hd_state (header_of (demo_record s f)) = s" "hd_finished_at_ms (header_of (demo_record s f)) = f"
  "req_id (hd_request (header_of (demo_record s f))) = 7"
  "requested_at_ms (hd_request (header_of (demo_record s f))) = 5"
  "req_workspace (hd_request (header_of (demo_record s f))) = ''/w''"
  "state (demo_record s f) = s" "req_id (request (demo_record s f)) = 7" "finished_at_ms (demo_record s f) = f"
  by (simp_all add: demo_record_def header_of_def queued_def request_new_def)

lemma demo_durable_simps [simp]:
  "schema_version (demo_durable s f) = 1" "invocation (demo_durable s f) = header_of (demo_record s f)"
  "deferred (demo_durable s f) = None" "payload_bytes (demo_durable s f) = 0"
  by (simp_all add: demo_durable_def)

lemma memory_codec_simps [simp]:
  "enc_durable memory_codec = ManifestBlob" "dec_durable memory_codec (ManifestBlob d) = Some d"
  "content_len memory_codec (ManifestBlob d) = 100"
  by (simp_all add: memory_codec_def)

lemma demo_store_eval:
  "demo_store s f = empty_store\<lparr>
     st_dirs := demo_dirs s f, st_leases := (if is_terminal s then {||} else {|7|}),
     st_next_check_us := 1000, st_index := demo_index s f,
     st_io := \<lparr>manifest_commits = 1, manifest_bytes_written = 100, payload_recounts = 1, gc_renames = 0,
               gc_unlinks = 0\<rparr>\<rparr>"
  by (simp add: demo_store_def empty_store_def env_at_def create_invocation_with_deferred_def
      refresh_index_if_stale_def refresh_index_def claim_check_def persist_durable_def persist_def
      evidence_payload_size_def files_size_def payload_files_def record_manifest_commit_def
      record_manifest_bytes_def fetch_add_def publish_change_def Let_def sat_add_def u64_max_def
      demo_durable_def demo_dirs_def demo_index_def CURRENT_SCHEMA_VERSION_def io_stats_default_def
      CHANGE_POLL_INTERVAL_US_def acquire_owner_def)
    (simp add: index_default_def)

lemma demo_index_eval:
  "entries (demo_index s f) = fmupd 7 (index_entry_of (demo_durable s f) 100) fmempty"
  "retained_bytes (demo_index s f) = 100"
  "terminal_by_finished (demo_index Cancelled (Some 9)) = {|(9, 7)|}"
  by (simp_all add: demo_index_def index_insert_def index_default_def add_secondary_indexes_def Let_def
      index_entry_of_def finished_key_def sat_add_def u64_max_def)

lemma demo_load: "load_index memory_codec (demo_dirs s f) = (Inr (demo_index s f), demo_dirs s f)"
  by (simp add: load_index_def index_manifest_bytes_def sorted_list_of_fset.rep_eq decode_manifest_def
      migrate_v1_def demo_dirs_def sat_add_def u64_max_def Let_def demo_index_def evidence_payload_size_def
      files_size_def payload_files_def)
    (simp add: demo_durable_def)

lemma replace_from_disk_same: "replace_from_disk ix ix = ix"
proof -
  have "carry_telemetry e e = e" for e by (simp add: carry_telemetry_def merge_telemetry_def)
  then have "fmmap_keys (\<lambda>ident e. case fmlookup (entries ix) ident of
      None \<Rightarrow> e | Some p \<Rightarrow> carry_telemetry p e) (entries ix) = entries ix"
  proof (intro fmap_ext)
    fix x
    assume "\<And>e. carry_telemetry e e = e"
    then show "fmlookup (fmmap_keys (\<lambda>ident e. case fmlookup (entries ix) ident of
        None \<Rightarrow> e | Some p \<Rightarrow> carry_telemetry p e) (entries ix)) x = fmlookup (entries ix) x"
      by (cases "fmlookup (entries ix) x") simp_all
  qed
  then show ?thesis by (simp add: replace_from_disk_def merge_pending_telemetry_def)
qed

lemma demo_entry [simp]:
  "en_record (index_entry_of (demo_durable s f) n) = header_of (demo_record s f)"
  "en_deferred (index_entry_of (demo_durable s f) n) = None"
  by (simp_all add: index_entry_of_def)

lemma demo_reachable: "record_inv (demo_record s f) \<Longrightarrow> reachable memory_codec (demo_store s f)"
proof -
  assume r: "record_inv (demo_record s f)"
  have "snd (store_open memory_codec (env_at 0) 0 {||} empty_store) = empty_store"
    by (simp add: store_open_def empty_store_def load_index_def sorted_list_of_fset.rep_eq
        nonterminal_ids_def index_default_def replace_recovered_def env_at_def Let_def
        cleanup_stale_change_publishers_def)
  moreover have "reachable memory_codec (snd (store_open memory_codec (env_at 0) 0 {||} empty_store))"
    by (rule reachable.opened) (simp add: empty_store_def)
  ultimately have "reachable memory_codec empty_store" by simp
  then show ?thesis
    unfolding demo_store_def by (rule reachable.step) (rule store_step.create [OF r])
qed

lemma demo_record_inv [simp]:
  "record_inv (demo_record Queued None)" "record_inv (demo_record Cancelled (Some 9))"
  by (simp_all add: record_inv_def demo_record_def queued_def)

lemma demo_inv:
  "store_inv memory_codec (demo_store Queued None)"
  "store_inv memory_codec (demo_store Cancelled (Some 9))"
  by (simp_all add: reachable_store_inv demo_reachable memory_codec_ok)

lemma demo_read: "read_durable memory_codec 7 (demo_store s f) = Inr (demo_durable s f, 100)"
  by (simp add: demo_store_eval demo_dirs_def read_durable_def decode_manifest_def migrate_v1_def)

definition demo_completion :: invocation_completion where
  "demo_completion =
     \<lparr>co_state = Cancelled, co_termination = CancelledTermination,
      co_summary = summary_default\<lparr>sum_targets := [\<lparr>tr_label = ''//a:b'', tr_success = True\<rparr>]\<rparr>,
      co_run = None, co_metrics = metrics_default, co_canonical_arguments = None, co_artifacts = []\<rparr>"

lemma demo_simps [simp]:
  "env_now_ms (env_at t) = t"
  "fmlookup (st_dirs (demo_store s f)) 7 = Some (fmupd Manifest (ManifestBlob (demo_durable s f)) fmempty)"
  by (simp_all add: env_at_def demo_store_eval demo_dirs_def)

lemma demo_ensure:
  "ensure_invocation memory_codec (env_at t) 7 (demo_store s f) = (Inr (), demo_store s f)"
  by (simp add: ensure_invocation_def refresh_index_if_stale_def claim_check_def demo_store_eval
      empty_store_def env_at_def demo_index_eval)

lemma demo_finish:
  "\<exists>r st'. finish_invocation memory_codec (env_at 20) 7 demo_completion (demo_store Queued None) = (Inr r, st')"
proof -
  obtain r where "transition 20 Cancelled (into_record (header_of (demo_record Queued None))) = Inr r"
    by (simp add: transition_def validate_transition_def into_record_def)
  then show ?thesis
    by (simp add: finish_invocation_def demo_completion_def demo_ensure demo_read Let_def
        case_prod_beta update_dir_def persist_durable_def)
qed

lemma demo_enforce:
  "\<exists>st'. enforce_retention memory_codec (env_at 20) True True 1000 1000 (demo_store Cancelled (Some 9)) =
      (Inr 0, st') \<and> st_dirs st' = demo_dirs Cancelled (Some 9)"
  by (simp add: demo_store_eval enforce_retention_def refresh_index_def demo_load replace_from_disk_same
      recover_orphaned_invocations_def nonterminal_ids_def demo_index_eval sorted_list_of_fset.rep_eq
      delete_expired_deferred_results_def refresh_index_if_stale_def claim_check_def env_at_def
      expired_deferred_ids_def empty_store_def reclaim_passes_def Let_def retention_cutoff_def
      retention_age_elapsed_def sat_sub_i64_def clamp_i64_def i64_max_def i64_min_def)

lemma demo_open_entry:
  "\<exists>e. fmlookup (entries (st_index (snd (store_open memory_codec env publisher live (demo_store Queued None))))) 7 =
     Some e"
proof -
  have load: "load_index memory_codec (st_dirs (demo_store Queued None)) =
      (Inr (demo_index Queued None), demo_dirs Queued None)"
    by (simp add: demo_store_eval demo_load)
  show ?thesis
    using store_open_keeps [OF store_inv_dirs [OF demo_inv(1)] memory_codec_ok load, of 7]
    by (simp add: demo_index_eval)
qed

section \<open>Properties of the store\<close>



text \<open>
  C2: A terminal result is final. No operation, and no restart, changes the state, the times,
  the termination, the summary or the run report of an invocation whose manifest is terminal;
  its directory may only go away.
\<close>

theorem terminal_result_final:
  assumes "reachable c st" and "codec_ok c" and "store_step c st st'"
    and "fmlookup (st_dirs st) ident = Some dir" and "manifest_of c dir = Some d"
    and "is_terminal (hd_state (invocation d))" and "fmlookup (st_dirs st') ident = Some dir'"
  shows "\<exists>d'. manifest_of c dir' = Some d' \<and> outcome_of (invocation d') = outcome_of (invocation d)"
  using store_step_final [OF assms(3) reachable_store_inv [OF assms(1,2)] assms(2)] assms(4-7)
  unfolding final_def by fastforce

theorem terminal_result_final_witness:
  "\<exists>d'. manifest_of memory_codec
      (fmupd Stdout (RawBlob 3) (fmupd Manifest (ManifestBlob (demo_durable Cancelled (Some 9))) fmempty)) =
      Some d' \<and>
    outcome_of (invocation d') = outcome_of (invocation (demo_durable Cancelled (Some 9)))"
proof (rule terminal_result_final [OF demo_reachable memory_codec_ok store_step.write_evidence])
  show "fmlookup (st_dirs (demo_store Cancelled (Some 9))) 7 =
      Some (fmupd Manifest (ManifestBlob (demo_durable Cancelled (Some 9))) fmempty)"
    by (simp add: demo_store_eval demo_dirs_def)
  then show "fmlookup (st_dirs (demo_store Cancelled (Some 9))) 7 =
      Some (fmupd Manifest (ManifestBlob (demo_durable Cancelled (Some 9))) fmempty)" .
qed (simp_all add: manifest_of_def decode_manifest_def migrate_v1_def)



text \<open>
  C5: What \<^verbatim>\<open>finish_invocation\<close> has returned is what \<^verbatim>\<open>get_invocation\<close> reads back, with all targets,
  tests and coverage files, although the manifest holds the compact header only.
\<close>

theorem finish_then_get:
  assumes "store_inv c st" and "codec_ok c" and "finish_invocation c env ident co st = (Inr r, st')"
  shows "fst (get_invocation c env' ident st') = Inr r"
proof -
  obtain dir dir' d where "fmlookup (st_dirs st') ident = Some dir" "manifest_of c dir = Some d"
    "invocation d = header_of r" "fmlookup dir Details = fmlookup (write_details c r dir') Details"
    "fmlookup (entries (st_index st')) ident \<noteq> None"
    using finish_invocation_written [OF assms] by blast
  moreover have "store_inv c st'" using finish_invocation_inv [OF assms(1,2), of env ident co] assms(3) by simp
  ultimately show ?thesis using get_invocation_written assms(2) by blast
qed

theorem finish_then_get_witness:
  "\<exists>r. fst (finish_invocation memory_codec (env_at 20) 7 demo_completion (demo_store Queued None)) = Inr r \<and>
    fst (get_invocation memory_codec (env_at 30) 7
      (snd (finish_invocation memory_codec (env_at 20) 7 demo_completion (demo_store Queued None)))) = Inr r"
proof -
  obtain r st' where
    run: "finish_invocation memory_codec (env_at 20) 7 demo_completion (demo_store Queued None) = (Inr r, st')"
    using demo_finish by blast
  show ?thesis using finish_then_get [OF demo_inv(1) memory_codec_ok run, of "env_at 30"] run by simp
qed

theorem enforce_retention_complete_witness:
  "fst (enforce_retention memory_codec (env_at 20) True True 1000 1000 (demo_store Cancelled (Some 9))) = Inr 0 \<and>
   (retention_protects (env_now_ms (env_at 20)) (demo_durable Cancelled (Some 9)) \<or>
    retention_cutoff (env_now_ms (env_at 20)) 1000 <
      (case hd_finished_at_ms (invocation (demo_durable Cancelled (Some 9))) of Some t \<Rightarrow> t | None \<Rightarrow> i64_min) \<and>
    retained_bytes (st_index (snd (enforce_retention memory_codec (env_at 20) True True 1000 1000
      (demo_store Cancelled (Some 9))))) \<le> 1000)"
proof -
  obtain st' where
    run: "enforce_retention memory_codec (env_at 20) True True 1000 1000 (demo_store Cancelled (Some 9)) = (Inr 0, st')"
    and dirs: "st_dirs st' = demo_dirs Cancelled (Some 9)"
    using demo_enforce by blast
  have "read_durable memory_codec 7 st' = Inr (demo_durable Cancelled (Some 9), 100)"
    using dirs by (simp add: demo_dirs_def read_durable_def decode_manifest_def migrate_v1_def)
  from enforce_retention_complete [OF demo_inv(2) memory_codec_ok run this]
  show ?thesis using run by simp
qed

theorem reclaim_passes_preserves_witness:
  "\<exists>dir' d'. fmlookup (st_dirs (snd (reclaim_passes memory_codec (env_at 20) True 100 0
      (demo_store Queued None)))) 7 = Some dir' \<and>
    manifest_of memory_codec dir' = Some d' \<and> invocation d' = invocation (demo_durable Queued None) \<and>
    deferred d' = deferred (demo_durable Queued None) \<and>
    fmlookup dir' Details =
      fmlookup (fmupd Manifest (ManifestBlob (demo_durable Queued None)) fmempty) Details"
  by (rule reclaim_passes_preserves [OF demo_inv(1) memory_codec_ok])
    (simp_all add: demo_store_eval demo_dirs_def manifest_of_def decode_manifest_def migrate_v1_def
      retention_protects_def)

end
