(* ===== verification/Paged_Listing.thy ===== *)
theory Paged_Listing
  imports Domain_Types
begin

text \<open>
  The contract of everything that is delivered in pages, and what a client gets who follows the
  cursors: listings of invocations, pages of records and pages of a query result file are
  instances of one interface.
\<close>

text \<open>A client that asks for page after page; the fuel bounds the number of pages.\<close>

fun follow_pages ::
  "(page_request \<Rightarrow> ('a page, 'e) result option) \<Rightarrow> nat \<Rightarrow> page_request \<Rightarrow> ('a list, 'e) result option"
where
  "follow_pages page 0 req = None"
| "follow_pages page (Suc fuel) req =
     (case page req of
        None \<Rightarrow> None
      | Some (Inl e) \<Rightarrow> Some (Inl e)
      | Some (Inr pg) \<Rightarrow>
          (case pg_next_cursor pg of
             None \<Rightarrow> Some (Inr (pg_items pg))
           | Some cur \<Rightarrow>
               (case follow_pages page fuel (req\<lparr>pr_cursor := Some cur\<rparr>) of
                  None \<Rightarrow> None
                | Some (Inl e) \<Rightarrow> Some (Inl e)
                | Some (Inr others) \<Rightarrow> Some (Inr (pg_items pg @ others)))))"

text \<open>
  The provider has a list of rows and a text for every position in it. The page from a position
  holds the matches among the next rows and, unless no match is left, the position behind them.
\<close>

locale paged_listing =
  fixes page :: "page_request \<Rightarrow> ('a page, 'e) result option"
    and rows :: "'k list"
    and matches :: "'k \<Rightarrow> bool"
    and item :: "'k \<Rightarrow> 'a"
    and position_text :: "nat \<Rightarrow> string"
    and accepts :: "page_request \<Rightarrow> bool"
  assumes accepts_cursor: "accepts req \<Longrightarrow> accepts (req\<lparr>pr_cursor := cur\<rparr>)"
    and page_law: "accepts req \<Longrightarrow> pos \<le> length rows \<Longrightarrow>
      pr_cursor req = (if pos = 0 then None else Some (position_text pos)) \<Longrightarrow>
      \<exists>pg k. page req = Some (Inr pg) \<and> pos + k \<le> length rows \<and>
        pg_items pg = map item (filter matches (take k (drop pos rows))) \<and>
        (pg_next_cursor pg = None \<and> filter matches (drop (pos + k) rows) = [] \<or>
         0 < k \<and> pg_next_cursor pg = Some (position_text (pos + k)))"
begin

lemma follow_from:
  "accepts req \<Longrightarrow> pos \<le> length rows \<Longrightarrow>
   pr_cursor req = (if pos = 0 then None else Some (position_text pos)) \<Longrightarrow>
   length rows - pos < fuel \<Longrightarrow>
   follow_pages page fuel req = Some (Inr (map item (filter matches (drop pos rows))))"
proof (induction fuel arbitrary: req pos)
  case (Suc fuel)
  obtain pg k where pg: "page req = Some (Inr pg)" "pos + k \<le> length rows"
    "pg_items pg = map item (filter matches (take k (drop pos rows)))"
    and more: "pg_next_cursor pg = None \<and> filter matches (drop (pos + k) rows) = [] \<or>
      0 < k \<and> pg_next_cursor pg = Some (position_text (pos + k))"
    using page_law [OF Suc.prems(1-3)] by blast
  have split: "filter matches (drop pos rows) =
      filter matches (take k (drop pos rows)) @ filter matches (drop (pos + k) rows)"
    using filter_take_append_drop [of matches k "drop pos rows"] by (simp add: add.commute)
  from more show ?case
  proof
    assume "0 < k \<and> pg_next_cursor pg = Some (position_text (pos + k))"
    moreover from this have "follow_pages page fuel (req\<lparr>pr_cursor := Some (position_text (pos + k))\<rparr>) =
        Some (Inr (map item (filter matches (drop (pos + k) rows))))"
      using pg(2) Suc.prems(4) accepts_cursor [OF Suc.prems(1)] by (intro Suc.IH) auto
    ultimately show ?thesis using pg split by simp
  qed (use pg split in simp)
qed simp

text \<open>Following the cursors delivers every match exactly once, in the order of the rows.\<close>

lemma follow_all:
  "accepts req \<Longrightarrow> pr_cursor req = None \<Longrightarrow> length rows < fuel \<Longrightarrow>
   follow_pages page fuel req = Some (Inr (map item (filter matches rows)))"
  using follow_from [of req 0 fuel] by simp

end

end
