(* ===== verification/Store_Cursor.thy ===== *)
theory Store_Cursor
  imports Store_Record
begin

text \<open>
  Opaque continuation cursors, \<^verbatim>\<open>bazel-mcp-store/src/cursor.rs\<close>: four kinds, each a fixed binary
  layout with a version, a kind and a digest of the listing it belongs to. Base64, SHA-256 and
  the text of a UUID are library code: the fields of \<^verbatim>\<open>cursor_lib\<close>.
\<close>

section \<open>Bytes of integers\<close>

fun le_bytes :: "nat \<Rightarrow> nat \<Rightarrow> byte list" where
  "le_bytes 0 n = []"
| "le_bytes (Suc k) n = word_of_nat n # le_bytes k (n div 256)"

fun of_le_bytes :: "byte list \<Rightarrow> nat" where
  "of_le_bytes [] = 0"
| "of_le_bytes (b # bs) = unat b + 256 * of_le_bytes bs"

definition be_bytes :: "nat \<Rightarrow> nat \<Rightarrow> byte list" where
  "be_bytes k n = rev (le_bytes k n)"

definition i64_le_bytes :: "int \<Rightarrow> byte list" where
  "i64_le_bytes x = le_bytes 8 (nat (x mod 2 ^ 64))"

definition i64_of_le_bytes :: "byte list \<Rightarrow> int" where
  "i64_of_le_bytes bs =
     (let n = int (of_le_bytes bs) in if n < 2 ^ 63 then n else n - 2 ^ 64)"

definition str_bytes :: "string \<Rightarrow> byte list" where
  "str_bytes s = map of_char s"

text \<open>The order of \<^verbatim>\<open>str\<close> and of \<^verbatim>\<open>[u8]\<close>.\<close>

fun bytes_less :: "byte list \<Rightarrow> byte list \<Rightarrow> bool" where
  "bytes_less _ [] = False"
| "bytes_less [] (_ # _) = True"
| "bytes_less (a # as) (b # bs) = (a < b \<or> a = b \<and> bytes_less as bs)"

definition str_less :: "string \<Rightarrow> string \<Rightarrow> bool" where
  "str_less s t = bytes_less (str_bytes s) (str_bytes t)"

lemma length_le_bytes [simp]: "length (le_bytes k n) = k"
  by (induction k arbitrary: n) auto

lemma length_be_bytes [simp]: "length (be_bytes k n) = k"
  by (simp add: be_bytes_def)

lemma of_le_bytes_le_bytes: "of_le_bytes (le_bytes k n) = n mod 256 ^ k"
proof (induction k arbitrary: n)
  case (Suc k)
  have "unat (word_of_nat n :: byte) = n mod 256" by (simp add: unat_of_nat)
  then show ?case using Suc by (simp add: mod_mult2_eq)
qed simp

lemma u64_le_bytes: "n \<le> u64_max \<Longrightarrow> of_le_bytes (le_bytes 8 n) = n"
  by (simp add: of_le_bytes_le_bytes u64_max_def)

lemma length_i64_le_bytes [simp]: "length (i64_le_bytes x) = 8"
  by (simp add: i64_le_bytes_def)

lemma i64_le_bytes_inverse:
  assumes "in_i64 x"
  shows "i64_of_le_bytes (i64_le_bytes x) = x"
proof -
  have "of_le_bytes (le_bytes 8 (nat (x mod 2 ^ 64))) = nat (x mod 2 ^ 64)"
    using pos_mod_bound [of "2 ^ 64" x] by (simp add: of_le_bytes_le_bytes)
  then have n: "int (of_le_bytes (i64_le_bytes x)) = x mod 2 ^ 64" by (simp add: i64_le_bytes_def)
  show ?thesis
  proof (cases "0 \<le> x")
    case True
    then have "x mod 2 ^ 64 = x" using assms by (simp add: sat_simps)
    then show ?thesis using n True assms by (simp add: i64_of_le_bytes_def Let_def sat_simps)
  next
    case False
    have "x mod 2 ^ 64 = (x + 2 ^ 64) mod 2 ^ 64" by simp
    also have "\<dots> = x + 2 ^ 64" using False assms by (intro mod_pos_pos_trivial) (simp_all add: sat_simps)
    finally show ?thesis using n False assms by (simp add: i64_of_le_bytes_def Let_def sat_simps)
  qed
qed

text \<open>Big-endian bytes are ordered as the numbers are.\<close>

lemma bytes_less_append:
  "length as = length bs \<Longrightarrow>
     bytes_less (as @ [a]) (bs @ [b]) = (bytes_less as bs \<or> as = bs \<and> a < b)"
  by (induction as bs rule: list_induct2) auto

lemma be_bytes_Suc: "be_bytes (Suc k) n = be_bytes k (n div 256) @ [word_of_nat n]"
  by (simp add: be_bytes_def)

lemma be_bytes_eq:
  "be_bytes k m = be_bytes k n \<longleftrightarrow> m mod 256 ^ k = n mod 256 ^ k"
  unfolding be_bytes_def rev_is_rev_conv
proof
  assume "le_bytes k m = le_bytes k n"
  then show "m mod 256 ^ k = n mod 256 ^ k" using of_le_bytes_le_bytes by metis
next
  have step: "le_bytes k n = le_bytes k (n mod 256 ^ k)" for n
  proof (induction k arbitrary: n)
    case (Suc k)
    have "(n mod 256 ^ Suc k) div 256 = (n div 256) mod 256 ^ k"
      by (simp add: mod_mult2_eq)
    moreover have "(word_of_nat (n mod 256 ^ Suc k) :: byte) = word_of_nat n"
      by (simp add: word_unat_eq_iff unat_of_nat mod_mod_cancel)
    ultimately show ?case using Suc [of "n div 256"] Suc [of "(n mod 256 ^ Suc k) div 256"] by simp
  qed simp
  assume "m mod 256 ^ k = n mod 256 ^ k"
  then show "le_bytes k m = le_bytes k n" using step by metis
qed

lemma be_bytes_less:
  "m < 256 ^ k \<Longrightarrow> n < 256 ^ k \<Longrightarrow> bytes_less (be_bytes k m) (be_bytes k n) \<longleftrightarrow> m < n"
proof (induction k arbitrary: m n)
  case (Suc k)
  have d: "m div 256 < 256 ^ k" "n div 256 < 256 ^ k" using Suc.prems by (simp_all add: less_mult_imp_div_less)
  have w: "(word_of_nat m :: byte) < word_of_nat n \<longleftrightarrow> m mod 256 < n mod 256"
    by (simp add: word_less_nat_alt unat_of_nat)
  have e: "be_bytes k (m div 256) = be_bytes k (n div 256) \<longleftrightarrow> m div 256 = n div 256"
    using d by (simp add: be_bytes_eq)
  have "bytes_less (be_bytes (Suc k) m) (be_bytes (Suc k) n) \<longleftrightarrow>
      m div 256 < n div 256 \<or> m div 256 = n div 256 \<and> m mod 256 < n mod 256"
    using Suc.IH [OF d] by (simp add: be_bytes_Suc bytes_less_append e w)
  also have "\<dots> \<longleftrightarrow> m < n"
  proof -
    have "m = 256 * (m div 256) + m mod 256" "n = 256 * (n div 256) + n mod 256" by simp_all
    moreover have "m mod 256 < 256" "n mod 256 < 256" by simp_all
    ultimately show ?thesis by linarith
  qed
  finally show ?case .
qed (simp add: be_bytes_def)

section \<open>Cursors\<close>

definition VERSION :: nat where "VERSION = 1"

definition INVOCATION_KIND :: nat where "INVOCATION_KIND = 1"

definition DEFERRED_KIND :: nat where "DEFERRED_KIND = 2"

definition ORDINAL_KIND :: nat where "ORDINAL_KIND = 3"

definition FILE_KIND :: nat where "FILE_KIND = 4"

definition CONTEXT_BYTES :: nat where "CONTEXT_BYTES = 16"

record cursor_lib =
  b64_encode :: "byte list \<Rightarrow> string"
  b64_decode :: "string \<Rightarrow> byte list option"
  sha256 :: "byte list \<Rightarrow> byte list"
  uuid_text :: "byte list \<Rightarrow> string"
  uuid_parse :: "string \<Rightarrow> byte list option"

text \<open>
  Documented behaviour: Base64 decodes what it encodes, the digest has 32 bytes, a UUID has 16
  bytes, parses from its text, and its hyphenated lower-case text orders as its bytes do.
\<close>

definition cursor_lib_ok :: "cursor_lib \<Rightarrow> bool" where
  "cursor_lib_ok lib \<longleftrightarrow>
     (\<forall>bs. b64_decode lib (b64_encode lib bs) = Some bs) \<and>
     (\<forall>bs. length (sha256 lib bs) = 32) \<and>
     (\<forall>s u. uuid_parse lib s = Some u \<longrightarrow> length u = 16) \<and>
     (\<forall>u. length u = 16 \<longrightarrow> uuid_parse lib (uuid_text lib u) = Some u) \<and>
     (\<forall>u v. length u = 16 \<longrightarrow> length v = 16 \<longrightarrow>
        str_less (uuid_text lib u) (uuid_text lib v) = bytes_less u v)"

text \<open>\<^verbatim>\<open>InvocationId::to_string\<close>: the text of the 16 bytes of the identifier.\<close>

definition id_text :: "cursor_lib \<Rightarrow> invocation_id \<Rightarrow> string" where
  "id_text lib ident = uuid_text lib (be_bytes 16 ident)"

definition cursor_context :: "cursor_lib \<Rightarrow> string list \<Rightarrow> byte list" where
  "cursor_context lib parts =
     take CONTEXT_BYTES
       (sha256 lib
          (concat (map (\<lambda>part. le_bytes 8 (min (length part) u64_max) @ str_bytes part) parts)))"

record invocation_cursor =
  ic_context :: "byte list"
  ic_requested_at_ms :: int
  ic_id :: string

record deferred_cursor =
  dc_context :: "byte list"
  dc_created_at_ms :: int
  dc_id :: string

record ordinal_cursor =
  oc_context :: "byte list"
  oc_ordinal :: int

record file_cursor =
  fc_context :: "byte list"
  fc_offset :: nat
  fc_ordinal :: nat
  fc_total_scanned :: nat
  fc_filtered_scanned :: nat

definition encode_timestamp_cursor ::
  "cursor_lib \<Rightarrow> nat \<Rightarrow> byte list \<Rightarrow> int \<Rightarrow> string \<Rightarrow> (string, store_error) result"
where
  "encode_timestamp_cursor lib kind context timestamp ident =
     (case uuid_parse lib ident of
        None \<Rightarrow> Inl InvalidCursor
      | Some uuid \<Rightarrow>
          Inr (b64_encode lib
                 ([word_of_nat VERSION, word_of_nat kind] @ context @ i64_le_bytes timestamp @ uuid)))"

definition decode_exact ::
  "cursor_lib \<Rightarrow> string \<Rightarrow> nat \<Rightarrow> nat \<Rightarrow> (byte list, store_error) result"
where
  "decode_exact lib value expected_len kind =
     (case b64_decode lib value of
        None \<Rightarrow> Inl InvalidCursor
      | Some bytes \<Rightarrow>
          if length bytes \<noteq> expected_len \<or> bytes ! 0 \<noteq> word_of_nat VERSION \<or>
             bytes ! 1 \<noteq> word_of_nat kind
          then Inl InvalidCursor else Inr bytes)"

text \<open>A byte range \<^verbatim>\<open>bytes[a..b]\<close> within the checked length.\<close>

definition byte_range :: "byte list \<Rightarrow> nat \<Rightarrow> nat \<Rightarrow> byte list" where
  "byte_range bytes a b = take (b - a) (drop a bytes)"

definition decode_timestamp_cursor ::
  "cursor_lib \<Rightarrow> string \<Rightarrow> nat \<Rightarrow> (byte list \<times> int \<times> string, store_error) result"
where
  "decode_timestamp_cursor lib value kind =
     and_then (decode_exact lib value 42 kind)
       (\<lambda>bytes.
          Inr (byte_range bytes 2 18, i64_of_le_bytes (byte_range bytes 18 26),
               uuid_text lib (byte_range bytes 26 42)))"

subsection \<open>Invocation listings\<close>

definition or_empty :: "string option \<Rightarrow> string" where
  "or_empty x = (case x of None \<Rightarrow> '''' | Some s \<Rightarrow> s)"

definition invocation_cursor_new ::
  "cursor_lib \<Rightarrow> string option \<Rightarrow> string option \<Rightarrow> string option \<Rightarrow> int \<Rightarrow> string \<Rightarrow> invocation_cursor"
where
  "invocation_cursor_new lib workspace st command requested_at ident =
     \<lparr>ic_context =
        cursor_context lib [''invocations'', or_empty workspace, or_empty st, or_empty command],
      ic_requested_at_ms = requested_at, ic_id = ident\<rparr>"

definition invocation_cursor_encode ::
  "cursor_lib \<Rightarrow> invocation_cursor \<Rightarrow> (string, store_error) result"
where
  "invocation_cursor_encode lib cur =
     encode_timestamp_cursor lib INVOCATION_KIND (ic_context cur) (ic_requested_at_ms cur) (ic_id cur)"

definition invocation_cursor_decode ::
  "cursor_lib \<Rightarrow> string \<Rightarrow> (invocation_cursor, store_error) result"
where
  "invocation_cursor_decode lib value =
     and_then (decode_timestamp_cursor lib value INVOCATION_KIND)
       (\<lambda>(context, requested_at, ident).
          Inr \<lparr>ic_context = context, ic_requested_at_ms = requested_at, ic_id = ident\<rparr>)"

definition invocation_cursor_decode_for ::
  "cursor_lib \<Rightarrow> string \<Rightarrow> string option \<Rightarrow> string option \<Rightarrow> string option
     \<Rightarrow> (invocation_cursor, store_error) result"
where
  "invocation_cursor_decode_for lib value workspace st command =
     and_then (invocation_cursor_decode lib value)
       (\<lambda>cur.
          if ic_context cur \<noteq>
             cursor_context lib [''invocations'', or_empty workspace, or_empty st, or_empty command]
          then Inl InvalidCursor else Inr cur)"

subsection \<open>Deferred results\<close>

definition deferred_cursor_new :: "cursor_lib \<Rightarrow> string \<Rightarrow> int \<Rightarrow> string \<Rightarrow> deferred_cursor" where
  "deferred_cursor_new lib retrieval created_at ident =
     \<lparr>dc_context = cursor_context lib [''deferred'', retrieval], dc_created_at_ms = created_at,
      dc_id = ident\<rparr>"

definition deferred_cursor_encode :: "cursor_lib \<Rightarrow> deferred_cursor \<Rightarrow> (string, store_error) result" where
  "deferred_cursor_encode lib cur =
     encode_timestamp_cursor lib DEFERRED_KIND (dc_context cur) (dc_created_at_ms cur) (dc_id cur)"

definition deferred_cursor_decode :: "cursor_lib \<Rightarrow> string \<Rightarrow> (deferred_cursor, store_error) result" where
  "deferred_cursor_decode lib value =
     and_then (decode_timestamp_cursor lib value DEFERRED_KIND)
       (\<lambda>(context, created_at, ident).
          Inr \<lparr>dc_context = context, dc_created_at_ms = created_at, dc_id = ident\<rparr>)"

definition deferred_cursor_decode_for ::
  "cursor_lib \<Rightarrow> string \<Rightarrow> string \<Rightarrow> (deferred_cursor, store_error) result"
where
  "deferred_cursor_decode_for lib value retrieval =
     and_then (deferred_cursor_decode lib value)
       (\<lambda>cur. if dc_context cur \<noteq> cursor_context lib [''deferred'', retrieval]
              then Inl InvalidCursor else Inr cur)"

subsection \<open>Query files\<close>

definition file_cursor_new ::
  "cursor_lib \<Rightarrow> string \<Rightarrow> string \<Rightarrow> string option \<Rightarrow> nat \<Rightarrow> nat \<Rightarrow> nat \<Rightarrow> nat \<Rightarrow> file_cursor"
where
  "file_cursor_new lib scope ident flt offset ordinal total_scanned filtered_scanned =
     \<lparr>fc_context = cursor_context lib [scope, ident, or_empty flt], fc_offset = offset,
      fc_ordinal = ordinal, fc_total_scanned = total_scanned, fc_filtered_scanned = filtered_scanned\<rparr>"

definition file_cursor_encode :: "cursor_lib \<Rightarrow> file_cursor \<Rightarrow> (string, store_error) result" where
  "file_cursor_encode lib cur =
     Inr (b64_encode lib
            ([word_of_nat VERSION, word_of_nat FILE_KIND] @ fc_context cur @
             le_bytes 8 (fc_offset cur) @ le_bytes 8 (fc_ordinal cur) @
             le_bytes 8 (fc_total_scanned cur) @ le_bytes 8 (fc_filtered_scanned cur)))"

definition file_cursor_decode :: "cursor_lib \<Rightarrow> string \<Rightarrow> (file_cursor, store_error) result" where
  "file_cursor_decode lib value =
     and_then (decode_exact lib value 50 FILE_KIND)
       (\<lambda>bytes.
          Inr \<lparr>fc_context = byte_range bytes 2 18,
               fc_offset = of_le_bytes (byte_range bytes 18 26),
               fc_ordinal = of_le_bytes (byte_range bytes 26 34),
               fc_total_scanned = of_le_bytes (byte_range bytes 34 42),
               fc_filtered_scanned = of_le_bytes (byte_range bytes 42 50)\<rparr>)"

definition file_cursor_decode_for ::
  "cursor_lib \<Rightarrow> string \<Rightarrow> string \<Rightarrow> string \<Rightarrow> string option \<Rightarrow> (file_cursor, store_error) result"
where
  "file_cursor_decode_for lib value scope ident flt =
     and_then (file_cursor_decode lib value)
       (\<lambda>cur. if fc_context cur \<noteq> cursor_context lib [scope, ident, or_empty flt]
              then Inl InvalidCursor else Inr cur)"

subsection \<open>Records in memory\<close>

definition ordinal_cursor_new ::
  "cursor_lib \<Rightarrow> string \<Rightarrow> string \<Rightarrow> string option \<Rightarrow> int \<Rightarrow> ordinal_cursor"
where
  "ordinal_cursor_new lib scope ident flt ordinal =
     \<lparr>oc_context = cursor_context lib [scope, ident, or_empty flt], oc_ordinal = ordinal\<rparr>"

definition ordinal_cursor_encode :: "cursor_lib \<Rightarrow> ordinal_cursor \<Rightarrow> (string, store_error) result" where
  "ordinal_cursor_encode lib cur =
     Inr (b64_encode lib
            ([word_of_nat VERSION, word_of_nat ORDINAL_KIND] @ oc_context cur @
             i64_le_bytes (oc_ordinal cur)))"

definition ordinal_cursor_decode :: "cursor_lib \<Rightarrow> string \<Rightarrow> (ordinal_cursor, store_error) result" where
  "ordinal_cursor_decode lib value =
     and_then (decode_exact lib value 26 ORDINAL_KIND)
       (\<lambda>bytes. Inr \<lparr>oc_context = byte_range bytes 2 18,
                     oc_ordinal = i64_of_le_bytes (byte_range bytes 18 26)\<rparr>)"

definition ordinal_cursor_decode_for ::
  "cursor_lib \<Rightarrow> string \<Rightarrow> string \<Rightarrow> string \<Rightarrow> string option \<Rightarrow> (ordinal_cursor, store_error) result"
where
  "ordinal_cursor_decode_for lib value scope ident flt =
     and_then (ordinal_cursor_decode lib value)
       (\<lambda>cur. if oc_context cur \<noteq> cursor_context lib [scope, ident, or_empty flt]
              then Inl InvalidCursor else Inr cur)"

section \<open>Round trips\<close>

lemma length_cursor_context:
  "cursor_lib_ok lib \<Longrightarrow> length (cursor_context lib parts) = 16"
  by (simp add: cursor_lib_ok_def cursor_context_def CONTEXT_BYTES_def)

lemma decode_exact_encoded:
  assumes "cursor_lib_ok lib" and "length payload + 2 = n"
  shows "decode_exact lib (b64_encode lib ([word_of_nat VERSION, word_of_nat kind] @ payload)) n kind' =
    (if (word_of_nat kind :: byte) = word_of_nat kind'
     then Inr ([word_of_nat VERSION, word_of_nat kind] @ payload) else Inl InvalidCursor)"
  using assms by (simp add: decode_exact_def cursor_lib_ok_def)

lemma byte_range_skip:
  "length xs \<le> a \<Longrightarrow> byte_range (xs @ ys) a b = byte_range ys (a - length xs) (b - length xs)"
  by (simp add: byte_range_def)

lemma byte_range_here:
  "length xs = b \<Longrightarrow> byte_range (xs @ ys) 0 b = xs" "length xs = b \<Longrightarrow> byte_range xs 0 b = xs"
  by (simp_all add: byte_range_def)

lemma decode_timestamp_encoded:
  assumes lib: "cursor_lib_ok lib" and context_len: "length context = 16"
    and parse: "uuid_parse lib ident = Some uuid" and ts: "in_i64 timestamp"
  shows "\<exists>text. encode_timestamp_cursor lib kind context timestamp ident = Inr text \<and>
    decode_timestamp_cursor lib text kind' =
      (if (word_of_nat kind :: byte) = word_of_nat kind'
       then Inr (context, timestamp, uuid_text lib uuid) else Inl InvalidCursor)"
proof -
  have u: "length uuid = 16" using lib parse by (auto simp: cursor_lib_ok_def)
  let ?payload = "context @ i64_le_bytes timestamp @ uuid"
  have "length ?payload + 2 = 42" using context_len u by simp
  moreover have "byte_range (a # b # ?payload) 2 18 = context"
    "byte_range (a # b # ?payload) 18 26 = i64_le_bytes timestamp"
    "byte_range (a # b # ?payload) 26 42 = uuid" for a b
    using context_len u by (simp_all add: byte_range_def)
  ultimately show ?thesis
    using parse decode_exact_encoded [OF lib, of ?payload 42 kind kind'] i64_le_bytes_inverse [OF ts]
    by (simp add: encode_timestamp_cursor_def decode_timestamp_cursor_def)
qed

lemma id_text_parse:
  "cursor_lib_ok lib \<Longrightarrow> uuid_parse lib (id_text lib ident) = Some (be_bytes 16 ident)"
  by (simp add: cursor_lib_ok_def id_text_def)

text \<open>Identifiers are 128 bits; their texts order as they do.\<close>

lemma id_text_less:
  assumes "cursor_lib_ok lib" and "i < 2 ^ 128" and "j < 2 ^ 128"
  shows "str_less (id_text lib i) (id_text lib j) \<longleftrightarrow> i < j"
  using assms be_bytes_less [of i 16 j] by (simp add: cursor_lib_ok_def id_text_def)

lemma invocation_cursor_roundtrip:
  assumes lib: "cursor_lib_ok lib" and ts: "in_i64 requested_at"
  shows "\<exists>text. invocation_cursor_encode lib
      (invocation_cursor_new lib w s cmd requested_at (id_text lib ident)) = Inr text \<and>
    invocation_cursor_decode_for lib text w s cmd =
      Inr (invocation_cursor_new lib w s cmd requested_at (id_text lib ident))"
  using decode_timestamp_encoded [OF lib length_cursor_context [OF lib] id_text_parse [OF lib] ts,
      where kind = INVOCATION_KIND and kind' = INVOCATION_KIND]
  by (fastforce simp: invocation_cursor_encode_def invocation_cursor_new_def
      invocation_cursor_decode_for_def invocation_cursor_decode_def id_text_def)

lemma deferred_cursor_roundtrip:
  assumes lib: "cursor_lib_ok lib" and ts: "in_i64 created_at"
  shows "\<exists>text. deferred_cursor_encode lib
      (deferred_cursor_new lib retrieval created_at (id_text lib ident)) = Inr text \<and>
    deferred_cursor_decode_for lib text retrieval =
      Inr (deferred_cursor_new lib retrieval created_at (id_text lib ident))"
  using decode_timestamp_encoded [OF lib length_cursor_context [OF lib] id_text_parse [OF lib] ts,
      where kind = DEFERRED_KIND and kind' = DEFERRED_KIND]
  by (fastforce simp: deferred_cursor_encode_def deferred_cursor_new_def
      deferred_cursor_decode_for_def deferred_cursor_decode_def id_text_def)

lemma ordinal_cursor_roundtrip:
  assumes lib: "cursor_lib_ok lib" and ts: "in_i64 ordinal"
  shows "\<exists>text. ordinal_cursor_encode lib (ordinal_cursor_new lib scope ident flt ordinal) = Inr text \<and>
    ordinal_cursor_decode_for lib text scope ident flt = Inr (ordinal_cursor_new lib scope ident flt ordinal)"
proof -
  let ?payload = "cursor_context lib [scope, ident, or_empty flt] @ i64_le_bytes ordinal"
  have len: "length (cursor_context lib [scope, ident, or_empty flt]) = 16"
    by (rule length_cursor_context [OF lib])
  have "byte_range (a # b # ?payload) 2 18 = cursor_context lib [scope, ident, or_empty flt]"
    "byte_range (a # b # ?payload) 18 26 = i64_le_bytes ordinal" for a b
    using len by (simp_all add: byte_range_def)
  then show ?thesis
    using decode_exact_encoded [OF lib, of ?payload 26 ORDINAL_KIND ORDINAL_KIND] len
      i64_le_bytes_inverse [OF ts]
    by (simp add: ordinal_cursor_encode_def ordinal_cursor_new_def ordinal_cursor_decode_for_def
        ordinal_cursor_decode_def)
qed

lemma file_cursor_roundtrip:
  assumes lib: "cursor_lib_ok lib" and "offset \<le> u64_max" "ordinal \<le> u64_max" "seen \<le> u64_max"
    "filtered \<le> u64_max"
  shows "\<exists>text. file_cursor_encode lib
      (file_cursor_new lib scope ident flt offset ordinal seen filtered) = Inr text \<and>
    file_cursor_decode_for lib text scope ident flt =
      Inr (file_cursor_new lib scope ident flt offset ordinal seen filtered)"
proof -
  let ?digest = "cursor_context lib [scope, ident, or_empty flt]"
  let ?payload = "?digest @ le_bytes 8 offset @ le_bytes 8 ordinal @ le_bytes 8 seen @ le_bytes 8 filtered"
  have len: "length ?digest = 16" by (rule length_cursor_context [OF lib])
  have "byte_range (a # b # ?payload) 2 18 = ?digest"
    "byte_range (a # b # ?payload) 18 26 = le_bytes 8 offset"
    "byte_range (a # b # ?payload) 26 34 = le_bytes 8 ordinal"
    "byte_range (a # b # ?payload) 34 42 = le_bytes 8 seen"
    "byte_range (a # b # ?payload) 42 50 = le_bytes 8 filtered" for a b
    using len by (simp_all add: byte_range_def)
  then show ?thesis
    using decode_exact_encoded [OF lib, of ?payload 50 FILE_KIND FILE_KIND] len assms(2-)
    by (simp add: file_cursor_encode_def file_cursor_new_def file_cursor_decode_for_def
        file_cursor_decode_def u64_le_bytes)
qed

lemma kinds_distinct [simp]:
  "(word_of_nat INVOCATION_KIND :: byte) \<noteq> word_of_nat DEFERRED_KIND"
  "(word_of_nat DEFERRED_KIND :: byte) \<noteq> word_of_nat INVOCATION_KIND"
  by (simp_all add: INVOCATION_KIND_def DEFERRED_KIND_def)

section \<open>A library in memory\<close>

text \<open>Functions that meet the contract, with texts that are the bytes themselves.\<close>

definition memory_lib :: cursor_lib where
  "memory_lib =
     \<lparr>b64_encode = map (\<lambda>b. char_of (unat b)), b64_decode = (\<lambda>s. Some (str_bytes s)),
      sha256 = (\<lambda>bs. le_bytes 32 (of_le_bytes bs)), uuid_text = map (\<lambda>b. char_of (unat b)),
      uuid_parse = (\<lambda>s. if length s = 16 then Some (str_bytes s) else None)\<rparr>"

lemma of_char_byte [simp]: "(of_char (char_of (unat b)) :: byte) = b"
proof -
  have "(of_char (char_of (unat b)) :: byte) = of_nat (of_char (char_of (unat b)))"
    by (simp only: of_nat_of_char)
  also have "of_char (char_of (unat b)) = unat b mod 256" by simp
  also have "\<dots> = unat b" using unsigned_less [of b, where 'a = nat] by simp
  finally show ?thesis by simp
qed

lemma str_bytes_text [simp]: "str_bytes (map (\<lambda>b. char_of (unat b)) bs) = bs"
  by (induction bs) (simp_all add: str_bytes_def)

lemma memory_lib_ok: "cursor_lib_ok memory_lib"
  by (auto simp: cursor_lib_ok_def memory_lib_def str_less_def str_bytes_def [of "[]"])
    (auto simp: str_bytes_def)

section \<open>Properties\<close>

text \<open>
  C14: A cursor of an invocation listing carries its position through the text: it decodes for the
  listing it was made for, to the same position. For a listing with another digest it is
  refused, and so it is wherever a cursor of deferred results is expected.
\<close>

theorem invocation_cursor_bound:
  assumes lib: "cursor_lib_ok lib" and ts: "in_i64 requested_at"
  shows "\<exists>text. invocation_cursor_encode lib
      (invocation_cursor_new lib w s cmd requested_at (id_text lib ident)) = Inr text \<and>
    invocation_cursor_decode_for lib text w' s' cmd' =
      (if cursor_context lib [''invocations'', or_empty w, or_empty s, or_empty cmd] =
          cursor_context lib [''invocations'', or_empty w', or_empty s', or_empty cmd']
       then Inr (invocation_cursor_new lib w s cmd requested_at (id_text lib ident))
       else Inl InvalidCursor) \<and>
    deferred_cursor_decode_for lib text retrieval = Inl InvalidCursor"
proof -
  let ?c = "cursor_context lib [''invocations'', or_empty w, or_empty s, or_empty cmd]"
  note enc = decode_timestamp_encoded [OF lib length_cursor_context [OF lib,
        of "[''invocations'', or_empty w, or_empty s, or_empty cmd]"] id_text_parse [OF lib, of ident] ts,
      where kind = INVOCATION_KIND]
  obtain encoded where enc1: "encode_timestamp_cursor lib INVOCATION_KIND ?c requested_at (id_text lib ident) = Inr encoded"
    "decode_timestamp_cursor lib encoded INVOCATION_KIND = Inr (?c, requested_at, id_text lib ident)"
    using enc [where kind' = INVOCATION_KIND] by (fastforce simp: id_text_def)
  moreover have "decode_timestamp_cursor lib encoded DEFERRED_KIND = Inl InvalidCursor"
    using enc [where kind' = DEFERRED_KIND] enc1(1) by fastforce
  ultimately show ?thesis
    by (intro exI [of _ encoded])
      (auto simp: invocation_cursor_encode_def invocation_cursor_new_def invocation_cursor_decode_for_def
        invocation_cursor_decode_def deferred_cursor_decode_for_def deferred_cursor_decode_def)
qed

theorem invocation_cursor_bound_witness:
  "\<exists>text. invocation_cursor_encode memory_lib
      (invocation_cursor_new memory_lib (Some ''/w'') None None 123 (id_text memory_lib 7)) = Inr text \<and>
    invocation_cursor_decode_for memory_lib text (Some ''/w'') None None =
      (if cursor_context memory_lib [''invocations'', or_empty (Some ''/w''), or_empty None, or_empty None] =
          cursor_context memory_lib [''invocations'', or_empty (Some ''/w''), or_empty None, or_empty None]
       then Inr (invocation_cursor_new memory_lib (Some ''/w'') None None 123 (id_text memory_lib 7))
       else Inl InvalidCursor) \<and>
    deferred_cursor_decode_for memory_lib text ''inline'' = Inl InvalidCursor"
  by (rule invocation_cursor_bound [OF memory_lib_ok]) (simp add: sat_simps)

end
