(* ===== verification/Store_Paging.thy ===== *)
theory Store_Paging
  imports Paged_Listing Store_Cursor Store_Storage
begin

text \<open>
  Bounded pages: the listings of invocations and of deferred results by descending key, pages of
  records in memory (\<^verbatim>\<open>query_paging.rs\<close>, \<^verbatim>\<open>page_records\<close>) and pages of a query result file
  (\<^verbatim>\<open>page_query_file\<close>). Following the cursors of any of them delivers every match once.

  A listing is \<^const>\<open>None\<close> where \<^verbatim>\<open>clamp\<close> panics: its lower bound is the item limit of the request,
  which no caller of the store may let exceed the upper one.
\<close>

section \<open>Listings by key\<close>

record 'a scan_state =
  ss_items :: "'a list"
  ss_item_cursors :: "string list"
  ss_continuation :: "string option"
  ss_scanned :: nat
  ss_truncated :: bool

definition scan_start :: "'a scan_state" where
  "scan_start =
     \<lparr>ss_items = [], ss_item_cursors = [], ss_continuation = None, ss_scanned = 0,
      ss_truncated = False\<rparr>"

definition page_limits :: "nat \<Rightarrow> nat \<Rightarrow> page_request \<Rightarrow> (nat \<times> nat) option" where
  "page_limits most_items most_scanned req =
     (case clamp_checked (pr_item_limit req) 1 most_items of
        None \<Rightarrow> None
      | Some items \<Rightarrow>
          (case clamp_checked (pr_scan_limit req) (max (pr_item_limit req) 1) most_scanned of
             None \<Rightarrow> None
           | Some scanned \<Rightarrow> Some (items, scanned)))"

definition finish_scan :: "'a scan_state \<Rightarrow> 'a page" where
  "finish_scan ss =
     \<lparr>pg_items = ss_items ss, pg_total_count = None, pg_filtered_count = None,
      pg_next_cursor = (if ss_truncated ss then ss_continuation ss else None),
      pg_truncated = ss_truncated ss, pg_item_cursors = ss_item_cursors ss\<rparr>"

text \<open>One scanned entry: it becomes the continuation, and an item if it matches.\<close>

definition scan_entry :: "bool \<Rightarrow> 'a \<Rightarrow> string \<Rightarrow> 'a scan_state \<Rightarrow> 'a scan_state" where
  "scan_entry matches item encoded ss =
     (let ss1 = ss\<lparr>ss_scanned := sat_add (ss_scanned ss) 1, ss_continuation := Some encoded\<rparr>
      in if matches
         then ss1\<lparr>ss_items := ss_items ss1 @ [item],
                  ss_item_cursors := ss_item_cursors ss1 @ [encoded]\<rparr>
         else ss1)"

definition before_invocation_cursor :: "cursor_lib \<Rightarrow> invocation_cursor option \<Rightarrow> time_key \<Rightarrow> bool" where
  "before_invocation_cursor lib cursor key =
     (case cursor of
        None \<Rightarrow> True
      | Some cur \<Rightarrow>
          fst key < ic_requested_at_ms cur \<or>
          fst key = ic_requested_at_ms cur \<and> str_less (id_text lib (snd key)) (ic_id cur))"

definition invocation_matches ::
  "invocation_state option \<Rightarrow> bazel_command option \<Rightarrow> index_entry \<Rightarrow> bool"
where
  "invocation_matches st command entry \<longleftrightarrow>
     (case st of None \<Rightarrow> True | Some s \<Rightarrow> hd_state (en_record entry) = s) \<and>
     (case command of None \<Rightarrow> True | Some cmd \<Rightarrow> req_command (hd_request (en_record entry)) = cmd)"

fun list_invocations_loop ::
  "cursor_lib \<Rightarrow> index \<Rightarrow> string option \<Rightarrow> invocation_state option \<Rightarrow> bazel_command option
     \<Rightarrow> invocation_cursor option \<Rightarrow> nat \<Rightarrow> nat \<Rightarrow> time_key list \<Rightarrow> invocation_header scan_state
     \<Rightarrow> (invocation_header scan_state, store_error) result"
where
  "list_invocations_loop lib ix w st cmd cursor item_limit scan_limit [] ss = Inr ss"
| "list_invocations_loop lib ix w st cmd cursor item_limit scan_limit (key # rest) ss =
     (if \<not> before_invocation_cursor lib cursor key
      then list_invocations_loop lib ix w st cmd cursor item_limit scan_limit rest ss
      else if ss_scanned ss = scan_limit then Inr (ss\<lparr>ss_truncated := True\<rparr>)
      else case fmlookup (entries ix) (snd key) of
             None \<Rightarrow> list_invocations_loop lib ix w st cmd cursor item_limit scan_limit rest ss
           | Some entry \<Rightarrow>
               if invocation_matches st cmd entry \<and> length (ss_items ss) = item_limit
               then Inr (ss\<lparr>ss_truncated := True\<rparr>)
               else
                 and_then
                   (invocation_cursor_encode lib
                      (invocation_cursor_new lib w (map_option state_as_str st)
                         (map_option command_as_str cmd) (fst key) (id_text lib (snd key))))
                   (\<lambda>encoded.
                      list_invocations_loop lib ix w st cmd cursor item_limit scan_limit rest
                        (scan_entry (invocation_matches st cmd entry) (en_record entry) encoded ss)))"

definition invocation_keys :: "index \<Rightarrow> string option \<Rightarrow> time_key list" where
  "invocation_keys ix workspace =
     (case workspace of
        Some w \<Rightarrow>
          (case fmlookup (by_workspace ix) w of
             None \<Rightarrow> [] | Some ordered \<Rightarrow> rev (sorted_list_of_fset ordered))
      | None \<Rightarrow> rev (sorted_list_of_fset (by_requested ix)))"

text \<open>The page of a request over an index that is up to date.\<close>

definition list_invocations_page ::
  "cursor_lib \<Rightarrow> index \<Rightarrow> string option \<Rightarrow> invocation_state option \<Rightarrow> bazel_command option
     \<Rightarrow> page_request \<Rightarrow> (invocation_header page, store_error) result option"
where
  "list_invocations_page lib ix w st cmd req =
     (case page_limits 200 20000 req of
        None \<Rightarrow> None
      | Some (item_limit, scan_limit) \<Rightarrow>
          Some
            (and_then
               (case pr_cursor req of
                  None \<Rightarrow> Inr None
                | Some value \<Rightarrow>
                    and_then
                      (invocation_cursor_decode_for lib value w (map_option state_as_str st)
                         (map_option command_as_str cmd))
                      (\<lambda>cur. Inr (Some cur)))
               (\<lambda>cursor.
                  and_then
                    (list_invocations_loop lib ix w st cmd cursor item_limit scan_limit
                       (invocation_keys ix w) scan_start)
                    (\<lambda>ss. Inr (finish_scan ss)))))"

definition list_invocations ::
  "cursor_lib \<Rightarrow> 'b codec \<Rightarrow> env \<Rightarrow> string option \<Rightarrow> invocation_state option \<Rightarrow> bazel_command option
     \<Rightarrow> page_request \<Rightarrow> 'b store \<Rightarrow> (invocation_header page, store_error) result option \<times> 'b store"
where
  "list_invocations lib c env w st cmd req store =
     (case refresh_index_if_stale c env store of
        (Inl e, store1) \<Rightarrow> (Some (Inl e), store1)
      | (Inr _, store1) \<Rightarrow> (list_invocations_page lib (st_index store1) w st cmd req, store1))"

definition before_deferred_cursor :: "cursor_lib \<Rightarrow> deferred_cursor option \<Rightarrow> deferred_record \<Rightarrow> bool" where
  "before_deferred_cursor lib cursor d =
     (case cursor of
        None \<Rightarrow> True
      | Some cur \<Rightarrow>
          dr_created_at_ms d < dc_created_at_ms cur \<or>
          dr_created_at_ms d = dc_created_at_ms cur \<and>
            str_less (id_text lib (dr_invocation_id d)) (dc_id cur))"

fun list_deferred_loop ::
  "cursor_lib \<Rightarrow> index \<Rightarrow> deferred_retrieval \<Rightarrow> int \<Rightarrow> deferred_cursor option \<Rightarrow> nat \<Rightarrow> nat
     \<Rightarrow> time_key list \<Rightarrow> deferred_view scan_state \<Rightarrow> (deferred_view scan_state, store_error) result"
where
  "list_deferred_loop lib ix retrieval now cursor item_limit scan_limit [] ss = Inr ss"
| "list_deferred_loop lib ix retrieval now cursor item_limit scan_limit (key # rest) ss =
     (case fmlookup (entries ix) (snd key) of
        None \<Rightarrow> list_deferred_loop lib ix retrieval now cursor item_limit scan_limit rest ss
      | Some entry \<Rightarrow>
          (case en_deferred entry of
             None \<Rightarrow> list_deferred_loop lib ix retrieval now cursor item_limit scan_limit rest ss
           | Some d \<Rightarrow>
               if \<not> before_deferred_cursor lib cursor d
               then list_deferred_loop lib ix retrieval now cursor item_limit scan_limit rest ss
               else if ss_scanned ss = scan_limit then Inr (ss\<lparr>ss_truncated := True\<rparr>)
               else
                 (let matches =
                        (dr_retrieval d = retrieval \<and>
                         \<not> is_expired now (is_terminal (hd_state (en_record entry))) d)
                  in if matches \<and> length (ss_items ss) = item_limit
                     then Inr (ss\<lparr>ss_truncated := True\<rparr>)
                     else
                       and_then
                         (deferred_cursor_encode lib
                            (deferred_cursor_new lib (retrieval_as_str retrieval) (dr_created_at_ms d)
                               (id_text lib (dr_invocation_id d))))
                         (\<lambda>encoded.
                            list_deferred_loop lib ix retrieval now cursor item_limit scan_limit rest
                              (scan_entry matches
                                 \<lparr>dv_deferred = d, dv_invocation = into_record (en_record entry)\<rparr>
                                 encoded ss)))))"

definition list_deferred_page ::
  "cursor_lib \<Rightarrow> index \<Rightarrow> deferred_retrieval \<Rightarrow> int \<Rightarrow> page_request
     \<Rightarrow> (deferred_view page, store_error) result option"
where
  "list_deferred_page lib ix retrieval now req =
     (case page_limits 200 20000 req of
        None \<Rightarrow> None
      | Some (item_limit, scan_limit) \<Rightarrow>
          Some
            (and_then
               (case pr_cursor req of
                  None \<Rightarrow> Inr None
                | Some value \<Rightarrow>
                    and_then (deferred_cursor_decode_for lib value (retrieval_as_str retrieval))
                      (\<lambda>cur. Inr (Some cur)))
               (\<lambda>cursor.
                  and_then
                    (list_deferred_loop lib ix retrieval now cursor item_limit scan_limit
                       (rev (sorted_list_of_fset (deferred_by_created ix))) scan_start)
                    (\<lambda>ss. Inr (finish_scan ss)))))"

definition list_deferred_results ::
  "cursor_lib \<Rightarrow> 'b codec \<Rightarrow> env \<Rightarrow> deferred_retrieval \<Rightarrow> int \<Rightarrow> page_request \<Rightarrow> 'b store
     \<Rightarrow> (deferred_view page, store_error) result option \<times> 'b store"
where
  "list_deferred_results lib c env retrieval now req store =
     (case refresh_index_if_stale c env store of
        (Inl e, store1) \<Rightarrow> (Some (Inl e), store1)
      | (Inr _, store1) \<Rightarrow> (list_deferred_page lib (st_index store1) retrieval now req, store1))"

section \<open>Records in memory\<close>

record 'a record_scan =
  rs_filtered :: nat
  rs_selected :: "'a list"
  rs_item_cursors :: "string list"
  rs_last_scanned :: "int option"
  rs_scanned :: nat
  rs_truncated :: bool

definition record_matches :: "('a \<Rightarrow> string) \<Rightarrow> string option \<Rightarrow> 'a \<Rightarrow> bool" where
  "record_matches searchable normalized_filter r =
     (case normalized_filter of
        None \<Rightarrow> True
      | Some flt \<Rightarrow> str_contains (to_ascii_lowercase (searchable r)) flt)"

fun page_records_loop ::
  "cursor_lib \<Rightarrow> string \<Rightarrow> string \<Rightarrow> string option \<Rightarrow> ('a \<Rightarrow> string) \<Rightarrow> int \<Rightarrow> nat \<Rightarrow> nat
     \<Rightarrow> nat \<Rightarrow> 'a list \<Rightarrow> 'a record_scan \<Rightarrow> ('a record_scan, store_error) result"
where
  "page_records_loop lib scope ident flt searchable after item_limit scan_limit position [] rs = Inr rs"
| "page_records_loop lib scope ident flt searchable after item_limit scan_limit position (r # rest) rs =
     (let ordinal = min (int position) i64_max
      in if ordinal \<le> after
         then page_records_loop lib scope ident flt searchable after item_limit scan_limit
                (position + 1) rest rs
         else if rs_scanned rs = scan_limit then Inr (rs\<lparr>rs_truncated := True\<rparr>)
         else
           (let matches = record_matches searchable (map_option to_ascii_lowercase flt) r;
                rs1 = rs\<lparr>rs_filtered := sat_add (rs_filtered rs) (if matches then 1 else 0)\<rparr>
            in if matches \<and> length (rs_selected rs1) = item_limit
               then Inr (rs1\<lparr>rs_truncated := True\<rparr>)
               else
                 (let rs2 = rs1\<lparr>rs_scanned := sat_add (rs_scanned rs1) 1,
                                rs_last_scanned := Some ordinal\<rparr>
                  in if matches
                     then and_then
                            (ordinal_cursor_encode lib (ordinal_cursor_new lib scope ident flt ordinal))
                            (\<lambda>encoded.
                               page_records_loop lib scope ident flt searchable after item_limit
                                 scan_limit (position + 1) rest
                                 (rs2\<lparr>rs_item_cursors := rs_item_cursors rs2 @ [encoded],
                                      rs_selected := rs_selected rs2 @ [r]\<rparr>))
                     else page_records_loop lib scope ident flt searchable after item_limit scan_limit
                            (position + 1) rest rs2)))"

definition page_records_finish ::
  "cursor_lib \<Rightarrow> string \<Rightarrow> string \<Rightarrow> string option \<Rightarrow> int \<Rightarrow> nat \<Rightarrow> 'a record_scan
     \<Rightarrow> ('a page, store_error) result"
where
  "page_records_finish lib scope ident flt after n rs =
     and_then
       (if rs_truncated rs
        then (case rs_last_scanned rs of
                None \<Rightarrow> Inr None
              | Some ordinal \<Rightarrow>
                  and_then (ordinal_cursor_encode lib (ordinal_cursor_new lib scope ident flt ordinal))
                    (\<lambda>encoded. Inr (Some encoded)))
        else Inr None)
       (\<lambda>next_cursor.
          Inr \<lparr>pg_items = rs_selected rs, pg_total_count = Some n,
               pg_filtered_count =
                 (if flt = None then Some n
                  else if after < 0 \<and> \<not> rs_truncated rs then Some (rs_filtered rs)
                  else None),
               pg_next_cursor = next_cursor, pg_truncated = rs_truncated rs,
               pg_item_cursors = rs_item_cursors rs\<rparr>)"

definition page_records ::
  "cursor_lib \<Rightarrow> string \<Rightarrow> invocation_id \<Rightarrow> string option \<Rightarrow> page_request \<Rightarrow> 'a list
     \<Rightarrow> ('a \<Rightarrow> string) \<Rightarrow> ('a page, store_error) result option"
where
  "page_records lib scope ident flt req records searchable =
     (case page_limits 100 10000 req of
        None \<Rightarrow> None
      | Some (item_limit, scan_limit) \<Rightarrow>
          Some
            (let invocation_id = id_text lib ident
             in and_then
                  (case pr_cursor req of
                     None \<Rightarrow> Inr (- 1)
                   | Some value \<Rightarrow>
                       and_then (ordinal_cursor_decode_for lib value scope invocation_id flt)
                         (\<lambda>cur. Inr (oc_ordinal cur)))
                  (\<lambda>after.
                     and_then
                       (page_records_loop lib scope invocation_id flt searchable after item_limit
                          scan_limit 0 records
                          \<lparr>rs_filtered = 0, rs_selected = [], rs_item_cursors = [],
                           rs_last_scanned = None, rs_scanned = 0, rs_truncated = False\<rparr>)
                       (page_records_finish lib scope invocation_id flt after (length records)))))"

definition page_diagnostics ::
  "cursor_lib \<Rightarrow> 'b codec \<Rightarrow> env \<Rightarrow> invocation_id \<Rightarrow> string option \<Rightarrow> page_request \<Rightarrow> 'b store
     \<Rightarrow> (diagnostic page, store_error) result option \<times> 'b store"
where
  "page_diagnostics lib c env ident flt req store =
     (case get_invocation_header c env ident store of
        (Inl e, store1) \<Rightarrow> (Some (Inl e), store1)
      | (Inr h, store1) \<Rightarrow>
          (page_records lib ''diagnostics'' ident flt req
             (case hd_summary h of None \<Rightarrow> [] | Some s \<Rightarrow> sh_diagnostics s)
             (\<lambda>item. diag_message item @ '' '' @ or_empty (diag_target item)),
           store1))"

definition read_details ::
  "'b codec \<Rightarrow> env \<Rightarrow> invocation_id \<Rightarrow> 'b store
     \<Rightarrow> (invocation_details, store_error) result \<times> 'b store"
where
  "read_details c env ident store =
     (case ensure_invocation c env ident store of
        (Inl e, store1) \<Rightarrow> (Inl e, store1)
      | (Inr _, store1) \<Rightarrow>
          (read_json_or_default (dec_details c) details_default
             (Option.bind (fmlookup (st_dirs store1) ident) (\<lambda>dir. fmlookup dir Details)),
           store1))"

definition page_tests ::
  "cursor_lib \<Rightarrow> 'b codec \<Rightarrow> env \<Rightarrow> invocation_id \<Rightarrow> string option \<Rightarrow> page_request \<Rightarrow> 'b store
     \<Rightarrow> (test_result page, store_error) result option \<times> 'b store"
where
  "page_tests lib c env ident flt req store =
     (case read_details c env ident store of
        (Inl e, store1) \<Rightarrow> (Some (Inl e), store1)
      | (Inr d, store1) \<Rightarrow>
          (page_records lib ''test_results'' ident flt req (det_tests d) test_label, store1))"

definition page_artifacts ::
  "cursor_lib \<Rightarrow> 'b codec \<Rightarrow> env \<Rightarrow> invocation_id \<Rightarrow> string option \<Rightarrow> page_request \<Rightarrow> 'b store
     \<Rightarrow> (artifact page, store_error) result option \<times> 'b store"
where
  "page_artifacts lib c env ident flt req store =
     (case ensure_invocation c env ident store of
        (Inl e, store1) \<Rightarrow> (Some (Inl e), store1)
      | (Inr _, store1) \<Rightarrow>
          (case read_json_or_default (dec_artifacts c) []
                  (Option.bind (fmlookup (st_dirs store1) ident) (\<lambda>dir. fmlookup dir Artifacts)) of
             Inl e \<Rightarrow> (Some (Inl e), store1)
           | Inr items \<Rightarrow>
               (page_records lib ''artifacts'' ident flt req items
                  (\<lambda>item. art_name item @ '' '' @ art_uri item),
                store1)))"

definition page_coverage ::
  "cursor_lib \<Rightarrow> 'b codec \<Rightarrow> env \<Rightarrow> invocation_id \<Rightarrow> string option \<Rightarrow> page_request \<Rightarrow> 'b store
     \<Rightarrow> (coverage_file page, store_error) result option \<times> 'b store"
where
  "page_coverage lib c env ident flt req store =
     (case read_details c env ident store of
        (Inl e, store1) \<Rightarrow> (Some (Inl e), store1)
      | (Inr d, store1) \<Rightarrow>
          (page_records lib ''coverage_files'' ident flt req (det_coverage_files d) cov_path, store1))"

section \<open>Scanning in bounded pages\<close>

text \<open>
  The scheme of all pages: select matches until one more would exceed the item limit, examine
  at most so many elements, and say how many were examined and whether something is left.
\<close>

fun bounded_scan :: "('a \<Rightarrow> bool) \<Rightarrow> nat \<Rightarrow> nat \<Rightarrow> 'a list \<Rightarrow> 'a list \<times> nat \<times> bool" where
  "bounded_scan p items left [] = ([], 0, False)"
| "bounded_scan p items left (x # xs) =
     (if left = 0 \<or> p x \<and> items = 0 then ([], 0, True)
      else case bounded_scan p (if p x then items - 1 else items) (left - 1) xs of
             (sel, k, t) \<Rightarrow> (if p x then x # sel else sel, Suc k, t))"

lemma scan_selects:
  "bounded_scan p items left xs = (sel, k, t) \<Longrightarrow> sel = filter p (take k xs) \<and> k \<le> length xs"
  by (induction p items left xs arbitrary: sel k t rule: bounded_scan.induct)
    (fastforce split: if_splits prod.splits)+

lemma scan_truncated:
  "bounded_scan p items left xs = (sel, k, t) \<Longrightarrow> t = (k < length xs)"
  by (induction p items left xs arbitrary: sel k t rule: bounded_scan.induct)
    (fastforce split: if_splits prod.splits)+

lemma scan_bounded:
  "bounded_scan p items left xs = (sel, k, t) \<Longrightarrow> length sel \<le> items \<and> k \<le> left"
  by (induction p items left xs arbitrary: sel k t rule: bounded_scan.induct)
    (fastforce split: if_splits prod.splits)+

lemma scan_progress:
  "bounded_scan p items left xs = (sel, k, t) \<Longrightarrow> 0 < items \<Longrightarrow> 0 < left \<Longrightarrow> xs \<noteq> [] \<Longrightarrow> 0 < k"
  by (cases xs) (auto split: if_splits prod.splits)

text \<open>What is below a key of a descending list is what comes after it.\<close>

lemma filter_below_nth:
  "sorted_wrt (\<lambda>x y. y < x) ks \<Longrightarrow> i < length ks \<Longrightarrow> filter (\<lambda>k. k < ks ! i) ks = drop (Suc i) ks"
  for ks :: "'a::linorder list"
proof (induction ks arbitrary: i)
  case (Cons a ks)
  show ?case
  proof (cases i)
    case 0
    then show ?thesis using Cons.prems by (auto simp: filter_id_conv)
  next
    case (Suc j)
    then have "ks ! j < a" using Cons.prems nth_mem [of j ks] by simp
    then have "\<not> a < ks ! j" by simp
    then show ?thesis using Suc Cons by simp
  qed
qed simp

lemma descending_keys: "sorted_wrt (\<lambda>x y. y < x) (rev (sorted_list_of_fset s))"
  for s :: "'a::linorder fset"
proof -
  have "sorted_wrt (<) (sorted_list_of_fset s)"
    by (simp add: sorted_list_of_fset.rep_eq strict_sorted_iff)
  then show ?thesis by (simp add: sorted_wrt_rev)
qed

lemma page_limits_bounds:
  assumes "page_limits most_items most_scanned req = Some (items, scanned)" and "0 < most_items"
  shows "0 < items" and "0 < scanned" and "scanned \<le> most_scanned"
  using assms by (auto simp: page_limits_def clamp_checked_def split: option.splits if_splits)

lemma page_limits_cursor [simp]: "page_limits a b (req\<lparr>pr_cursor := c\<rparr>) = page_limits a b req"
  by (simp add: page_limits_def split: option.split)

section \<open>All pages of a listing\<close>

definition invocation_key_text ::
  "cursor_lib \<Rightarrow> string option \<Rightarrow> invocation_state option \<Rightarrow> bazel_command option \<Rightarrow> time_key \<Rightarrow> string"
where
  "invocation_key_text lib w st cmd key =
     projr (invocation_cursor_encode lib
       (invocation_cursor_new lib w (map_option state_as_str st) (map_option command_as_str cmd)
          (fst key) (id_text lib (snd key))))"

text \<open>Keys of the index: 64-bit times and 128-bit identifiers.\<close>

definition key_ok :: "time_key \<Rightarrow> bool" where
  "key_ok key \<longleftrightarrow> in_i64 (fst key) \<and> snd key < 2 ^ 128"

definition key_matches ::
  "index \<Rightarrow> invocation_state option \<Rightarrow> bazel_command option \<Rightarrow> time_key \<Rightarrow> bool"
where
  "key_matches ix st cmd key =
     (case fmlookup (entries ix) (snd key) of
        None \<Rightarrow> False | Some entry \<Rightarrow> invocation_matches st cmd entry)"

definition key_record :: "index \<Rightarrow> time_key \<Rightarrow> invocation_header" where
  "key_record ix key = en_record (the (fmlookup (entries ix) (snd key)))"

lemma invocation_key_text:
  assumes "cursor_lib_ok lib" and "key_ok key"
  shows "invocation_cursor_encode lib
      (invocation_cursor_new lib w (map_option state_as_str st) (map_option command_as_str cmd)
         (fst key) (id_text lib (snd key))) = Inr (invocation_key_text lib w st cmd key)"
    and "invocation_cursor_decode_for lib (invocation_key_text lib w st cmd key) w
        (map_option state_as_str st) (map_option command_as_str cmd) =
      Inr (invocation_cursor_new lib w (map_option state_as_str st) (map_option command_as_str cmd)
         (fst key) (id_text lib (snd key)))"
proof -
  let ?s = "map_option state_as_str st" and ?c = "map_option command_as_str cmd"
  obtain encoded where "invocation_cursor_encode lib
      (invocation_cursor_new lib w ?s ?c (fst key) (id_text lib (snd key))) = Inr encoded"
    "invocation_cursor_decode_for lib encoded w ?s ?c =
      Inr (invocation_cursor_new lib w ?s ?c (fst key) (id_text lib (snd key)))"
    using invocation_cursor_roundtrip [OF assms(1), where requested_at = "fst key" and ident = "snd key"]
      assms(2) unfolding key_ok_def by blast
  then show "invocation_cursor_encode lib
      (invocation_cursor_new lib w ?s ?c (fst key) (id_text lib (snd key))) =
      Inr (invocation_key_text lib w st cmd key)"
    "invocation_cursor_decode_for lib (invocation_key_text lib w st cmd key) w ?s ?c =
      Inr (invocation_cursor_new lib w ?s ?c (fst key) (id_text lib (snd key)))"
    by (simp_all add: invocation_key_text_def)
qed

lemma before_cursor_key:
  assumes "cursor_lib_ok lib" and "key_ok key" and "key_ok at"
  shows "before_invocation_cursor lib
      (Some (invocation_cursor_new lib w s c (fst at) (id_text lib (snd at)))) key \<longleftrightarrow> key < at"
  using assms id_text_less [of lib "snd key" "snd at"]
  by (cases key; cases at) (auto simp: before_invocation_cursor_def invocation_cursor_new_def key_ok_def)

lemma list_invocations_loop_filter:
  "list_invocations_loop lib ix w st cmd cursor il sl keys ss =
     list_invocations_loop lib ix w st cmd None il sl (filter (before_invocation_cursor lib cursor) keys) ss"
  by (induction lib ix w st cmd cursor il sl keys ss rule: list_invocations_loop.induct)
    (auto simp: before_invocation_cursor_def [of lib None for lib] and_then_def split: option.split
      intro!: arg_cong2 [where f = and_then])

lemma list_invocations_loop_scan:
  assumes lib: "cursor_lib_ok lib" and keys: "\<And>key. key \<in> set keys \<Longrightarrow> key_ok key"
    "\<And>key. key \<in> set keys \<Longrightarrow> fmlookup (entries ix) (snd key) \<noteq> None"
    and "ss_scanned ss \<le> sl" and "length (ss_items ss) \<le> il" and "sl < u64_max"
    and "\<not> ss_truncated ss"
    and "bounded_scan (key_matches ix st cmd) (il - length (ss_items ss)) (sl - ss_scanned ss) keys = (sel, k, t)"
  shows "\<exists>ss'. list_invocations_loop lib ix w st cmd None il sl keys ss = Inr ss' \<and>
    ss_items ss' = ss_items ss @ map (key_record ix) sel \<and> ss_truncated ss' = t \<and>
    ss_continuation ss' =
      (if k = 0 then ss_continuation ss else Some (invocation_key_text lib w st cmd (keys ! (k - 1))))"
  using assms(2-)
proof (induction keys arbitrary: ss sel k)
  case (Cons key rest)
  obtain entry where entry: "fmlookup (entries ix) (snd key) = Some entry" using Cons.prems(2) by fastforce
  have m: "key_matches ix st cmd key = invocation_matches st cmd entry"
    using entry by (simp add: key_matches_def)
  show ?case
  proof (cases "ss_scanned ss = sl \<or> invocation_matches st cmd entry \<and> length (ss_items ss) = il")
    case True
    then show ?thesis
      using Cons.prems(3-) entry m by (auto simp: before_invocation_cursor_def split: if_splits prod.splits)
  next
    case False
    let ?enc = "invocation_key_text lib w st cmd key"
    let ?ss = "scan_entry (invocation_matches st cmd entry) (en_record entry) ?enc ss"
    have next_ss: "ss_scanned ?ss = Suc (ss_scanned ss)" "\<not> ss_truncated ?ss"
      "ss_continuation ?ss = Some ?enc"
      "ss_items ?ss = ss_items ss @ (if invocation_matches st cmd entry then [en_record entry] else [])"
      using Cons.prems(3,5,6) False by (auto simp: scan_entry_def Let_def)
    obtain sel' k' where s: "bounded_scan (key_matches ix st cmd) (il - length (ss_items ?ss)) (sl - ss_scanned ?ss) rest
        = (sel', k', t)" and sel: "sel = (if invocation_matches st cmd entry then key # sel' else sel')"
      and k: "k = Suc k'"
      using Cons.prems(3,4,7) False m next_ss
      by (auto split: if_splits prod.splits)
    have step: "list_invocations_loop lib ix w st cmd None il sl (key # rest) ss =
        list_invocations_loop lib ix w st cmd None il sl rest ?ss"
      using False entry invocation_key_text(1) [OF lib Cons.prems(1)]
      by (auto simp: before_invocation_cursor_def)
    have "\<exists>ss'. list_invocations_loop lib ix w st cmd None il sl rest ?ss = Inr ss' \<and>
        ss_items ss' = ss_items ?ss @ map (key_record ix) sel' \<and> ss_truncated ss' = t \<and>
        ss_continuation ss' =
          (if k' = 0 then ss_continuation ?ss else Some (invocation_key_text lib w st cmd (rest ! (k' - 1))))"
    proof (rule Cons.IH [OF _ _ _ _ Cons.prems(5) next_ss(2) s])
      show "ss_scanned ?ss \<le> sl" using next_ss(1) False Cons.prems(3) by simp
      show "length (ss_items ?ss) \<le> il" using next_ss(4) False Cons.prems(4) by auto
    qed (use Cons.prems in auto)
    then show ?thesis
      using step next_ss sel k entry by (auto simp: key_record_def)
  qed
qed simp

definition list_all_invocations ::
  "cursor_lib \<Rightarrow> index \<Rightarrow> string option \<Rightarrow> invocation_state option \<Rightarrow> bazel_command option
     \<Rightarrow> page_request \<Rightarrow> nat \<Rightarrow> (invocation_header list, store_error) result option"
where
  "list_all_invocations lib ix w st cmd req fuel =
     follow_pages (list_invocations_page lib ix w st cmd) fuel req"

text \<open>One page from a position in the listing.\<close>

lemma list_invocations_page_at:
  assumes lib: "cursor_lib_ok lib" and keys: "\<And>key. key \<in> set (invocation_keys ix w) \<Longrightarrow> key_ok key"
    "\<And>key. key \<in> set (invocation_keys ix w) \<Longrightarrow> fmlookup (entries ix) (snd key) \<noteq> None"
    and limits: "page_limits 200 20000 req = Some (il, sl)"
    and cursor: "pos = 0 \<and> pr_cursor req = None \<or>
      0 < pos \<and> pos \<le> length (invocation_keys ix w) \<and>
      pr_cursor req = Some (invocation_key_text lib w st cmd (invocation_keys ix w ! (pos - 1)))"
    and scan: "bounded_scan (key_matches ix st cmd) il sl (drop pos (invocation_keys ix w)) = (sel, k, t)"
  shows "\<exists>pg. list_invocations_page lib ix w st cmd req = Some (Inr pg) \<and>
    pg_items pg = map (key_record ix) sel \<and>
    pg_next_cursor pg =
      (if t then Some (invocation_key_text lib w st cmd (invocation_keys ix w ! (pos + k - 1))) else None)"
proof -
  let ?keys = "invocation_keys ix w"
  define cur where "cur = (if pos = 0 then None else
    Some (invocation_cursor_new lib w (map_option state_as_str st) (map_option command_as_str cmd)
      (fst (?keys ! (pos - 1))) (id_text lib (snd (?keys ! (pos - 1))))))"
  have desc: "sorted_wrt (\<lambda>x y. y < x) ?keys"
    by (auto simp: invocation_keys_def descending_keys split: option.split)
  have dec: "(case pr_cursor req of None \<Rightarrow> Inr None
      | Some value \<Rightarrow> and_then (invocation_cursor_decode_for lib value w (map_option state_as_str st)
          (map_option command_as_str cmd)) (\<lambda>cur. Inr (Some cur))) = Inr cur"
    using cursor invocation_key_text(2) [OF lib keys(1) [OF nth_mem]] by (auto simp: cur_def)
  have rest: "filter (before_invocation_cursor lib cur) ?keys = drop pos ?keys"
  proof (cases "pos = 0")
    case True
    then show ?thesis by (simp add: cur_def before_invocation_cursor_def)
  next
    case False
    then have pos: "pos - 1 < length ?keys" using cursor by auto
    have "filter (before_invocation_cursor lib cur) ?keys = filter (\<lambda>k. k < ?keys ! (pos - 1)) ?keys"
      using False before_cursor_key [OF lib keys(1) keys(1) [OF nth_mem [OF pos]]]
      by (intro filter_cong) (simp_all add: cur_def)
    then show ?thesis using filter_below_nth [OF desc pos] False by simp
  qed
  have bounds: "0 < il" "0 < sl" "sl \<le> 20000" using page_limits_bounds [OF limits] by auto
  have "\<exists>ss'. list_invocations_loop lib ix w st cmd None il sl (drop pos ?keys) scan_start = Inr ss' \<and>
      ss_items ss' = ss_items scan_start @ map (key_record ix) sel \<and> ss_truncated ss' = t \<and>
      ss_continuation ss' =
        (if k = 0 then ss_continuation (scan_start :: invocation_header scan_state)
         else Some (invocation_key_text lib w st cmd (drop pos ?keys ! (k - 1))))"
    by (rule list_invocations_loop_scan [OF lib])
      (use keys bounds scan in \<open>auto simp: scan_start_def u64_max_def dest: in_set_dropD\<close>)
  then obtain ss' where ss': "list_invocations_loop lib ix w st cmd cur il sl ?keys scan_start = Inr ss'"
    "ss_items ss' = map (key_record ix) sel" "ss_truncated ss' = t"
    "ss_continuation ss' = (if k = 0 then None
        else Some (invocation_key_text lib w st cmd (drop pos ?keys ! (k - 1))))"
    using rest by (auto simp: list_invocations_loop_filter [of _ _ _ _ _ cur] scan_start_def)
  have "k \<le> length (drop pos ?keys)" using scan_selects [OF scan] by simp
  moreover have "t \<Longrightarrow> 0 < k"
    using scan_progress [OF scan bounds(1,2)] scan_truncated [OF scan] by fastforce
  ultimately have "ss_truncated ss' \<Longrightarrow> ss_continuation ss' =
      Some (invocation_key_text lib w st cmd (?keys ! (pos + k - 1)))"
    using ss' by simp
  then show ?thesis
    using ss' limits dec by (simp add: list_invocations_page_def finish_scan_def)
qed

lemma invocation_keys_entries:
  assumes "index_wf ix"
  shows "(t, ident) \<in> set (invocation_keys ix w) \<longleftrightarrow>
    (\<exists>e. fmlookup (entries ix) ident = Some e \<and> requested_at_ms (hd_request (en_record e)) = t \<and>
       (w = None \<or> w = Some (req_workspace (hd_request (en_record e)))))"
proof (cases w)
  case None
  have "in_step requested_key by_requested ix" using assms by (simp add: index_wf_def)
  then show ?thesis
    using None
    by (auto simp: invocation_keys_def in_step_def requested_key_def sorted_list_of_fset.rep_eq)
next
  case (Some v)
  have "in_step (workspace_key v) (workspace_index v) ix" using assms by (simp add: index_wf_def)
  moreover have "set (invocation_keys ix w) = fset (workspace_index v ix)"
    using Some
    by (auto simp: invocation_keys_def workspace_index_def sorted_list_of_fset.rep_eq split: option.split)
  ultimately show ?thesis
    using Some by (auto simp: in_step_def workspace_key_def split: if_splits)
qed

lemma page_limits_Some:
  assumes "pr_item_limit req \<le> most_scanned" and "0 < most_items" and "0 < most_scanned"
  shows "\<exists>il sl. page_limits most_items most_scanned req = Some (il, sl)"
  using assms by (auto simp: page_limits_def clamp_checked_def)

definition listing_ok :: "cursor_lib \<Rightarrow> index \<Rightarrow> string option \<Rightarrow> page_request \<Rightarrow> bool" where
  "listing_ok lib ix w req \<longleftrightarrow>
     cursor_lib_ok lib \<and> index_wf ix \<and> list_all key_ok (invocation_keys ix w) \<and> pr_item_limit req \<le> 20000"

interpretation invocation_pages: paged_listing
  "list_invocations_page lib ix w st cmd" "invocation_keys ix w" "key_matches ix st cmd" "key_record ix"
  "\<lambda>pos. invocation_key_text lib w st cmd (invocation_keys ix w ! (pos - 1))" "listing_ok lib ix w"
  for lib ix w st cmd
proof
  fix req pos
  assume ok: "listing_ok lib ix w req" and pos: "pos \<le> length (invocation_keys ix w)"
    and cursor: "pr_cursor req =
      (if pos = 0 then None else Some (invocation_key_text lib w st cmd (invocation_keys ix w ! (pos - 1))))"
  let ?keys = "invocation_keys ix w" and ?p = "key_matches ix st cmd"
  obtain il sl where limits: "page_limits 200 20000 req = Some (il, sl)"
    using page_limits_Some [of req 20000 200] ok by (auto simp: listing_ok_def)
  obtain sel k t where scan: "bounded_scan ?p il sl (drop pos ?keys) = (sel, k, t)" by (metis prod_cases3)
  have keys: "key \<in> set ?keys \<Longrightarrow> key_ok key" "key \<in> set ?keys \<Longrightarrow> fmlookup (entries ix) (snd key) \<noteq> None" for key
    using ok invocation_keys_entries [of ix "fst key" "snd key" w] by (auto simp: listing_ok_def list_all_iff)
  have at: "pos = 0 \<and> pr_cursor req = None \<or> 0 < pos \<and> pos \<le> length ?keys \<and>
      pr_cursor req = Some (invocation_key_text lib w st cmd (?keys ! (pos - 1)))"
    using pos cursor by auto
  have lib: "cursor_lib_ok lib" using ok by (simp add: listing_ok_def)
  have "\<exists>pg. list_invocations_page lib ix w st cmd req = Some (Inr pg) \<and> pg_items pg = map (key_record ix) sel \<and>
      pg_next_cursor pg =
        (if t then Some (invocation_key_text lib w st cmd (?keys ! (pos + k - 1))) else None)"
    by (rule list_invocations_page_at [OF lib keys limits at scan])
  moreover have "sel = filter ?p (take k (drop pos ?keys))" "pos + k \<le> length ?keys"
    using scan_selects [OF scan] pos by auto
  moreover have "0 < k" if "t"
  proof (rule scan_progress [OF scan])
    show "drop pos ?keys \<noteq> []" using that scan_truncated [OF scan] by auto
  qed (use page_limits_bounds [OF limits] in simp_all)
  moreover have "filter ?p (drop (pos + k) ?keys) = []" if "\<not> t"
    using that scan_truncated [OF scan] by simp
  ultimately show "\<exists>pg k. list_invocations_page lib ix w st cmd req = Some (Inr pg) \<and> pos + k \<le> length ?keys \<and>
      pg_items pg = map (key_record ix) (filter ?p (take k (drop pos ?keys))) \<and>
      (pg_next_cursor pg = None \<and> filter ?p (drop (pos + k) ?keys) = [] \<or>
       0 < k \<and> pg_next_cursor pg = Some (invocation_key_text lib w st cmd (?keys ! (pos + k - 1))))"
    by (cases t) auto
qed (simp add: listing_ok_def)

text \<open>
  C8: Following the cursors of a listing of invocations delivers every invocation of the
  workspace in the requested state with the requested command exactly once, newest first,
  whatever the limits of the request: the pages neither overlap nor leave a gap. The keys of
  the listing are the invocations of the index, in strictly descending order.
\<close>

theorem list_invocations_complete:
  assumes lib: "cursor_lib_ok lib" and wf: "index_wf ix"
    and keys: "list_all key_ok (invocation_keys ix w)"
    and req: "pr_cursor req = None" "pr_item_limit req \<le> 20000"
    and fuel: "length (invocation_keys ix w) < fuel"
  shows "list_all_invocations lib ix w st cmd req fuel =
      Some (Inr (map (key_record ix) (filter (key_matches ix st cmd) (invocation_keys ix w)))) \<and>
    sorted_wrt (\<lambda>x y. y < x) (invocation_keys ix w) \<and>
    (\<forall>t ident. (t, ident) \<in> set (invocation_keys ix w) =
       (\<exists>e. fmlookup (entries ix) ident = Some e \<and> requested_at_ms (hd_request (en_record e)) = t \<and>
          (w = None \<or> w = Some (req_workspace (hd_request (en_record e))))))"
proof -
  have "list_all_invocations lib ix w st cmd req fuel =
      Some (Inr (map (key_record ix) (filter (key_matches ix st cmd) (invocation_keys ix w))))"
    unfolding list_all_invocations_def
    using lib wf keys req fuel by (intro invocation_pages.follow_all) (simp_all add: listing_ok_def)
  moreover have "sorted_wrt (\<lambda>x y. y < x) (invocation_keys ix w)"
    by (auto simp: invocation_keys_def descending_keys split: option.split)
  ultimately show ?thesis using invocation_keys_entries [OF wf] by simp
qed

theorem list_invocations_complete_witness:
  "list_all_invocations memory_lib
      (run_index [Commit 7 (sample_entry 30), Commit 8 (sample_entry 12)] index_default)
      None None None (page_request_new None 1) 3 =
    Some (Inr (map (key_record (run_index [Commit 7 (sample_entry 30), Commit 8 (sample_entry 12)] index_default))
      (filter (key_matches (run_index [Commit 7 (sample_entry 30), Commit 8 (sample_entry 12)] index_default)
         None None)
        (invocation_keys (run_index [Commit 7 (sample_entry 30), Commit 8 (sample_entry 12)] index_default)
           None)))) \<and>
   invocation_keys (run_index [Commit 7 (sample_entry 30), Commit 8 (sample_entry 12)] index_default) None =
     [(5, 8), (5, 7)]"
proof -
  let ?ix = "run_index [Commit 7 (sample_entry 30), Commit 8 (sample_entry 12)] index_default"
  have wf: "index_wf ?ix" by (simp add: index_wf_replace index_wf_default)
  have keys: "invocation_keys ?ix None = [(5, 8), (5, 7)]"
    by (simp add: invocation_keys_def index_replace_alt index_insert_def index_remove_def index_default_def
        add_secondary_indexes_def sample_entry_def index_entry_of_def header_of_def queued_def request_new_def
        Let_def sorted_list_of_fset.rep_eq)
  then show ?thesis
    using list_invocations_complete [OF memory_lib_ok wf, of None "page_request_new None 1" 3 None None]
    by (simp add: key_ok_def page_request_new_def page_request_default_def sat_simps)
qed

section \<open>All pages of records in memory\<close>

definition ordinal_text :: "cursor_lib \<Rightarrow> string \<Rightarrow> string \<Rightarrow> string option \<Rightarrow> nat \<Rightarrow> string" where
  "ordinal_text lib scope ident flt pos =
     projr (ordinal_cursor_encode lib (ordinal_cursor_new lib scope ident flt (int pos - 1)))"

lemma ordinal_text:
  assumes "cursor_lib_ok lib" and "int pos \<le> i64_max" and "0 < pos"
  shows "ordinal_cursor_encode lib (ordinal_cursor_new lib scope ident flt (int pos - 1)) =
      Inr (ordinal_text lib scope ident flt pos)"
    and "ordinal_cursor_decode_for lib (ordinal_text lib scope ident flt pos) scope ident flt =
      Inr (ordinal_cursor_new lib scope ident flt (int pos - 1))"
proof -
  have "in_i64 (int pos - 1)" using assms(2,3) by (simp add: sat_simps)
  then obtain encoded where
    "ordinal_cursor_encode lib (ordinal_cursor_new lib scope ident flt (int pos - 1)) = Inr encoded"
    "ordinal_cursor_decode_for lib encoded scope ident flt = Inr (ordinal_cursor_new lib scope ident flt (int pos - 1))"
    using ordinal_cursor_roundtrip [OF assms(1)] by blast
  then show "ordinal_cursor_encode lib (ordinal_cursor_new lib scope ident flt (int pos - 1)) =
      Inr (ordinal_text lib scope ident flt pos)"
    and "ordinal_cursor_decode_for lib (ordinal_text lib scope ident flt pos) scope ident flt =
      Inr (ordinal_cursor_new lib scope ident flt (int pos - 1))"
    by (simp_all add: ordinal_text_def)
qed

lemma page_records_loop_skip:
  "after = int pos - 1 \<Longrightarrow> n + length xs \<le> pos \<Longrightarrow> int pos \<le> i64_max \<Longrightarrow>
   page_records_loop lib scope ident flt searchable after il sl n (xs @ ys) rs =
   page_records_loop lib scope ident flt searchable after il sl (n + length xs) ys rs"
proof (induction xs arbitrary: n)
  case (Cons x xs)
  have "min (int n) i64_max \<le> after" using Cons.prems by simp
  then show ?case using Cons.prems Cons.IH [of "n + 1"] by (simp add: Let_def)
qed simp

lemma page_records_loop_scan:
  assumes lib: "cursor_lib_ok lib"
    and "bounded_scan (record_matches searchable (map_option to_ascii_lowercase flt))
      (il - length (rs_selected rs)) (sl - rs_scanned rs) xs = (sel, k, t)"
    and "after < int n" and "int (n + length xs) \<le> i64_max"
    and "length (rs_selected rs) \<le> il" and "rs_scanned rs \<le> sl" and "sl \<le> u64_max"
    and "\<not> rs_truncated rs"
  shows "\<exists>rs'. page_records_loop lib scope ident flt searchable after il sl n xs rs = Inr rs' \<and>
    rs_selected rs' = rs_selected rs @ sel \<and> rs_truncated rs' = t \<and>
    rs_last_scanned rs' = (if k = 0 then rs_last_scanned rs else Some (int (n + k) - 1))"
  using assms(2-)
proof (induction xs arbitrary: n rs sel k)
  case Nil
  then show ?case by simp
next
  case (Cons x xs)
  let ?p = "record_matches searchable (map_option to_ascii_lowercase flt)"
  have ord: "min (int n) i64_max = int n" "\<not> int n \<le> after" using Cons.prems(2,3) by auto
  show ?case
  proof (cases "rs_scanned rs = sl \<or> ?p x \<and> length (rs_selected rs) = il")
    case True
    then have "sel = []" "k = 0" "t" using Cons.prems(1) by auto
    then show ?thesis using True ord by (auto simp: Let_def)
  next
    case False
    define rs1 where "rs1 = rs\<lparr>rs_filtered := sat_add (rs_filtered rs) (if ?p x then 1 else 0),
      rs_scanned := sat_add (rs_scanned rs) 1, rs_last_scanned := Some (int n)\<rparr>"
    define rs2 where "rs2 = (if ?p x
      then rs1\<lparr>rs_item_cursors := rs_item_cursors rs1 @ [ordinal_text lib scope ident flt (n + 1)],
               rs_selected := rs_selected rs1 @ [x]\<rparr>
      else rs1)"
    have enc: "ordinal_cursor_encode lib (ordinal_cursor_new lib scope ident flt (int n)) =
        Inr (ordinal_text lib scope ident flt (n + 1))"
      using ordinal_text(1) [OF lib, of "n + 1"] Cons.prems(3) by simp
    have run: "page_records_loop lib scope ident flt searchable after il sl n (x # xs) rs =
        page_records_loop lib scope ident flt searchable after il sl (n + 1) xs rs2"
      using False ord enc by (simp add: Let_def rs1_def rs2_def)
    have scanned: "rs_scanned rs2 = rs_scanned rs + 1"
      using False Cons.prems(5,6) by (simp add: rs1_def rs2_def)
    obtain sel' k' where scan: "bounded_scan ?p (il - length (rs_selected rs2)) (sl - rs_scanned rs2) xs =
        (sel', k', t)" "sel = (if ?p x then x # sel' else sel')" "k = Suc k'"
    proof -
      have "\<not> (sl - rs_scanned rs = 0 \<or> ?p x \<and> il - length (rs_selected rs) = 0)"
        using False Cons.prems(4,5) by auto
      moreover have "il - length (rs_selected rs2) =
          (if ?p x then il - length (rs_selected rs) - 1 else il - length (rs_selected rs))"
        by (simp add: rs1_def rs2_def)
      moreover have "sl - rs_scanned rs2 = sl - rs_scanned rs - 1" using scanned by simp
      ultimately show thesis using that Cons.prems(1) by (auto split: prod.splits if_splits)
    qed
    have "\<exists>rs'. page_records_loop lib scope ident flt searchable after il sl (n + 1) xs rs2 = Inr rs' \<and>
        rs_selected rs' = rs_selected rs2 @ sel' \<and> rs_truncated rs' = t \<and>
        rs_last_scanned rs' = (if k' = 0 then rs_last_scanned rs2 else Some (int (n + 1 + k') - 1))"
      by (rule Cons.IH [OF scan(1)]) (use Cons.prems False scanned in \<open>auto simp: rs1_def rs2_def\<close>)
    then show ?thesis using run scan(2,3) by (auto simp: rs1_def rs2_def)
  qed
qed

definition records_ok :: "cursor_lib \<Rightarrow> 'a list \<Rightarrow> page_request \<Rightarrow> bool" where
  "records_ok lib records req \<longleftrightarrow>
     cursor_lib_ok lib \<and> int (length records) \<le> i64_max \<and> pr_item_limit req \<le> 10000"

interpretation record_pages: paged_listing
  "\<lambda>req. page_records lib scope ident flt req records searchable" records
  "record_matches searchable (map_option to_ascii_lowercase flt)" "\<lambda>r. r"
  "ordinal_text lib scope (id_text lib ident) flt" "records_ok lib records"
  for lib scope ident flt records searchable
proof
  fix req pos
  assume ok: "records_ok lib records req" and pos: "pos \<le> length records"
    and cursor: "pr_cursor req =
      (if pos = 0 then None else Some (ordinal_text lib scope (id_text lib ident) flt pos))"
  let ?p = "record_matches searchable (map_option to_ascii_lowercase flt)"
  have lib: "cursor_lib_ok lib" and i64: "int (length records) \<le> i64_max"
    using ok by (simp_all add: records_ok_def)
  obtain il sl where limits: "page_limits 100 10000 req = Some (il, sl)"
    using page_limits_Some [of req 10000 100] ok by (auto simp: records_ok_def)
  have bounds: "0 < il" "0 < sl" "sl \<le> 10000" using page_limits_bounds [OF limits] by simp_all
  obtain sel k t where scan: "bounded_scan ?p il sl (drop pos records) = (sel, k, t)" by (metis prod_cases3)
  define rs0 :: "'a record_scan" where "rs0 = \<lparr>rs_filtered = 0, rs_selected = [], rs_item_cursors = [],
      rs_last_scanned = None, rs_scanned = 0, rs_truncated = False\<rparr>"
  let ?loop = "page_records_loop lib scope (id_text lib ident) flt searchable (int pos - 1) il sl"
  have "?loop 0 records rs0 = ?loop pos (drop pos records) rs0"
    using page_records_loop_skip [where after = "int pos - 1" and pos = pos and n = 0 and xs = "take pos records" and
        ys = "drop pos records" and rs = rs0] pos i64
    by simp
  moreover have "\<exists>rs'. ?loop pos (drop pos records) rs0 = Inr rs' \<and>
      rs_selected rs' = rs_selected rs0 @ sel \<and> rs_truncated rs' = t \<and>
      rs_last_scanned rs' = (if k = 0 then rs_last_scanned rs0 else Some (int (pos + k) - 1))"
    by (rule page_records_loop_scan [OF lib])
      (use scan bounds i64 pos in \<open>auto simp: rs0_def u64_max_def\<close>)
  ultimately obtain rs' where rs': "?loop 0 records rs0 = Inr rs'" "rs_selected rs' = sel" "rs_truncated rs' = t"
    "rs_last_scanned rs' = (if k = 0 then None else Some (int (pos + k) - 1))"
    by (auto simp: rs0_def)
  have "(case pr_cursor req of None \<Rightarrow> Inr (- 1)
      | Some v \<Rightarrow> and_then (ordinal_cursor_decode_for lib v scope (id_text lib ident) flt)
          (\<lambda>cur. Inr (oc_ordinal cur))) = Inr (int pos - 1)"
    using cursor ordinal_text(2) [OF lib, of pos] pos i64
    by (auto simp: ordinal_cursor_new_def)
  then have run: "page_records lib scope ident flt req records searchable =
      Some (page_records_finish lib scope (id_text lib ident) flt (int pos - 1) (length records) rs')"
    using limits rs'(1) by (simp add: page_records_def Let_def rs0_def)
  have sel: "sel = filter ?p (take k (drop pos records))" "pos + k \<le> length records"
    using scan_selects [OF scan] pos by auto
  show "\<exists>pg k. page_records lib scope ident flt req records searchable = Some (Inr pg) \<and>
      pos + k \<le> length records \<and> pg_items pg = map (\<lambda>r. r) (filter ?p (take k (drop pos records))) \<and>
      (pg_next_cursor pg = None \<and> filter ?p (drop (pos + k) records) = [] \<or>
       0 < k \<and> pg_next_cursor pg = Some (ordinal_text lib scope (id_text lib ident) flt (pos + k)))"
  proof (cases t)
    case True
    have "0 < k"
      by (rule scan_progress [OF scan bounds(1,2)]) (use True scan_truncated [OF scan] in auto)
    then show ?thesis
      using run rs' True sel i64 ordinal_text(1) [OF lib, of "pos + k" scope "id_text lib ident" flt]
      by (auto simp: page_records_finish_def)
  next
    case False
    then have "filter ?p (drop (pos + k) records) = []" using scan_truncated [OF scan] by simp
    then show ?thesis using run rs' False sel by (auto simp: page_records_finish_def)
  qed
qed (simp add: records_ok_def)

text \<open>
  C25: Following the cursors of a page of diagnostics, tests, artifacts or coverage files delivers
  every record whose text contains the filter, without regard to case, exactly once and in order,
  whatever the limits of the request.
\<close>

theorem page_records_complete:
  assumes "cursor_lib_ok lib" and "int (length records) \<le> i64_max"
    and "pr_cursor req = None" and "pr_item_limit req \<le> 10000" and "length records < fuel"
  shows "follow_pages (\<lambda>req. page_records lib scope ident flt req records searchable) fuel req =
    Some (Inr (filter (\<lambda>r. case flt of None \<Rightarrow> True
      | Some f \<Rightarrow> sublist (to_ascii_lowercase f) (to_ascii_lowercase (searchable r))) records))"
proof -
  have "record_matches searchable (map_option to_ascii_lowercase flt) =
      (\<lambda>r. case flt of None \<Rightarrow> True
        | Some f \<Rightarrow> sublist (to_ascii_lowercase f) (to_ascii_lowercase (searchable r)))"
    by (auto simp: record_matches_def str_contains_iff_sublist fun_eq_iff split: option.split)
  then show ?thesis
    using record_pages.follow_all [of lib records req fuel scope ident flt searchable] assms
    by (simp add: records_ok_def)
qed

theorem page_records_complete_witness:
  "follow_pages (\<lambda>req. page_records memory_lib ''tests'' 7 (Some ''B'') req [''ab'', ''c'', ''Bd''] (\<lambda>r. r)) 4
     (page_request_new None 1) = Some (Inr [''ab'', ''Bd''])"
proof -
  have "to_ascii_lowercase ''B'' = ''b''" "to_ascii_lowercase ''ab'' = ''ab''" "to_ascii_lowercase ''c'' = ''c''"
    "to_ascii_lowercase ''Bd'' = ''bd''"
    by code_simp+
  then show ?thesis
    using page_records_complete [OF memory_lib_ok, of "[''ab'', ''c'', ''Bd'']" "page_request_new None 1" 4
        "''tests''" 7 "Some ''B''" "\<lambda>r. r"]
    by (simp add: i64_max_def page_request_new_def page_request_default_def sublist_code)
qed

end
