(* ===== verification/Rust_Utf8.thy ===== *)
theory Rust_Utf8
  imports Rust_Prelude
begin

text \<open>
  \<^verbatim>\<open>String::from_utf8_lossy\<close>: the longest prefix of each ill-formed sequence is replaced by one
  U+FFFD. A byte is a \<^typ>\<open>char\<close>.
\<close>

fun utf8_tail :: "(nat \<times> nat) list \<Rightarrow> nat list \<Rightarrow> nat \<Rightarrow> bool \<times> nat" where
  "utf8_tail [] bs n = (True, n)"
| "utf8_tail (r # rs) [] n = (False, n)"
| "utf8_tail ((lo, hi) # rs) (b # bs) n =
     (if lo \<le> b \<and> b \<le> hi then utf8_tail rs bs (Suc n) else (False, n))"

text \<open>The ranges of the bytes that must follow a first byte; none is a first byte on its own.\<close>

definition utf8_ranges :: "nat \<Rightarrow> (nat \<times> nat) list option" where
  "utf8_ranges b =
     (if b < 128 then Some []
      else if b < 194 then None
      else if b < 224 then Some [(128, 191)]
      else if b = 224 then Some [(160, 191), (128, 191)]
      else if b = 237 then Some [(128, 159), (128, 191)]
      else if b < 240 then Some [(128, 191), (128, 191)]
      else if b = 240 then Some [(144, 191), (128, 191), (128, 191)]
      else if b < 244 then Some [(128, 191), (128, 191), (128, 191)]
      else if b = 244 then Some [(128, 143), (128, 191), (128, 191)]
      else None)"

definition utf8_step :: "nat \<Rightarrow> nat list \<Rightarrow> bool \<times> nat" where
  "utf8_step b bs =
     (case utf8_ranges b of None \<Rightarrow> (False, 1) | Some rs \<Rightarrow> utf8_tail rs bs 1)"

definition REPLACEMENT_CHARACTER :: string where
  "REPLACEMENT_CHARACTER = [CHR 0xEF, CHR 0xBF, CHR 0xBD]"

function from_utf8_lossy :: "string \<Rightarrow> string" where
  "from_utf8_lossy [] = []"
| "from_utf8_lossy (b # bs) =
     (case utf8_step (of_char b) (map of_char bs) of
        (ok, n) \<Rightarrow>
          (if ok then b # take (n - 1) bs else REPLACEMENT_CHARACTER) @ from_utf8_lossy (drop (n - 1) bs))"
  by pat_completeness auto

termination
  by (relation "measure length") auto

text \<open>Well-formed text: every step succeeds.\<close>

function utf8_valid :: "string \<Rightarrow> bool" where
  "utf8_valid [] = True"
| "utf8_valid (b # bs) =
     (case utf8_step (of_char b) (map of_char bs) of
        (ok, n) \<Rightarrow> ok \<and> utf8_valid (drop (n - 1) bs))"
  by pat_completeness auto

termination
  by (relation "measure length") auto

lemma from_utf8_lossy_valid: "utf8_valid s \<Longrightarrow> from_utf8_lossy s = s"
  by (induction s rule: from_utf8_lossy.induct) (auto split: prod.splits)

lemma utf8_tail_append:
  "utf8_tail rs bs n = (True, m) \<Longrightarrow> n \<le> m \<and> m - n \<le> length bs \<and> utf8_tail rs (take (m - n) bs @ cs) n = (True, m)"
proof (induction rs bs n rule: utf8_tail.induct)
  case (3 lo hi rs b bs n)
  then show ?case by (auto split: if_splits simp: take_Cons')
qed auto

text \<open>The result is always well-formed, so that it is a \<^verbatim>\<open>String\<close>.\<close>

lemma utf8_valid_replacement: "utf8_valid (REPLACEMENT_CHARACTER @ s) = utf8_valid s"
  by (simp add: REPLACEMENT_CHARACTER_def utf8_step_def utf8_ranges_def)

lemma from_utf8_lossy_is_valid: "utf8_valid (from_utf8_lossy s)"
proof (induction s rule: from_utf8_lossy.induct)
  case (2 b bs)
  obtain ok n where step: "utf8_step (of_char b) (map of_char bs) = (ok, n)" by fastforce
  show ?case
  proof (cases ok)
    case True
    then obtain rs where "utf8_ranges (of_char b) = Some rs" "utf8_tail rs (map of_char bs) 1 = (True, n)"
      using step by (auto simp: utf8_step_def split: option.splits)
    then have "utf8_step (of_char b) (map of_char (take (n - 1) bs @ from_utf8_lossy (drop (n - 1) bs))) = (True, n)"
      "n - 1 \<le> length bs"
      using utf8_tail_append [of rs "map of_char bs" 1 n]
      by (auto simp: utf8_step_def take_map)
    then show ?thesis using True step 2 by simp
  next
    case False
    then show ?thesis using step 2 by (simp add: utf8_valid_replacement)
  qed
qed simp

end
