(* ===== verification/Store_Query.thy ===== *)
theory Store_Query
  imports Store_Paging Rust_Utf8
begin

text \<open>
  Pages of a query result file (\<^verbatim>\<open>query_paging.rs\<close>): the rows are the lines of the captured output,
  read through a buffer and cut at 64 KiB, and a cursor is the byte offset behind a row. A reader
  is the list of the pieces its buffer will be filled with; an empty piece is the end of the file.
  Errors of reading an open file are not modelled.
\<close>

definition QUERY_LINE_LIMIT :: nat where
  "QUERY_LINE_LIMIT = 64 * 1024"

definition newline :: char where
  "newline = CHR 0x0A"

fun position :: "('a \<Rightarrow> bool) \<Rightarrow> 'a list \<Rightarrow> nat option" where
  "position p [] = None"
| "position p (x # xs) = (if p x then Some 0 else map_option Suc (position p xs))"

section \<open>Lines\<close>

fun fill_buf :: "string list \<Rightarrow> string" where
  "fill_buf [] = []"
| "fill_buf (piece # rest) = piece"

fun consume :: "nat \<Rightarrow> string list \<Rightarrow> string list" where
  "consume n [] = []"
| "consume n (piece # rest) = (if length piece \<le> n then rest else drop n piece # rest)"

record line_reader =
  lr_pieces :: "string list"
  lr_offset :: nat
  lr_ordinal :: nat
  lr_limit :: nat

record bounded_line =
  bl_end_offset :: nat
  bl_ordinal :: nat
  bl_value :: string

definition with_position :: "string list \<Rightarrow> nat \<Rightarrow> nat \<Rightarrow> nat \<Rightarrow> line_reader" where
  "with_position pieces limit offset ordinal =
     \<lparr>lr_pieces = pieces, lr_offset = offset, lr_ordinal = ordinal, lr_limit = limit\<rparr>"

text \<open>The loop of \<^verbatim>\<open>next_line\<close>: the bytes of the line within the limit, its end and what is left.\<close>

function next_line_loop ::
  "nat \<Rightarrow> string list \<Rightarrow> string \<Rightarrow> bool \<Rightarrow> nat \<Rightarrow> (string \<times> nat \<times> string list) option"
where
  "next_line_loop limit pieces acc saw_bytes offset =
     (let available = fill_buf pieces
      in if available = []
         then (if saw_bytes then Some (acc, offset, pieces) else None)
         else (case position (\<lambda>byte. byte = newline) available of
                 Some pos \<Rightarrow>
                   Some (acc @ take (min pos (sat_sub limit (length acc))) available,
                         sat_add offset (pos + 1), consume (pos + 1) pieces)
               | None \<Rightarrow>
                   next_line_loop limit (consume (length available) pieces)
                     (acc @ take (min (length available) (sat_sub limit (length acc))) available)
                     True (sat_add offset (length available))))"
  by pat_completeness auto

termination
proof (relation "measure (\<lambda>(limit, pieces, acc, saw_bytes, offset). length pieces)")
  fix limit pieces acc saw_bytes offset available
  assume "available = fill_buf pieces" "available \<noteq> []"
  then show "((limit, consume (length available) pieces,
      acc @ take (min (length available) (sat_sub limit (length acc))) available, True,
      sat_add offset (length available)), limit, pieces, acc, saw_bytes, offset)
      \<in> measure (\<lambda>(limit, pieces, acc, saw_bytes, offset). length pieces)"
    by (cases pieces) auto
qed simp

declare next_line_loop.simps [simp del]

definition strip_return :: "string \<Rightarrow> string" where
  "strip_return s = (if s \<noteq> [] \<and> last s = CHR 0x0D then butlast s else s)"

definition next_line :: "line_reader \<Rightarrow> (bounded_line \<times> line_reader) option" where
  "next_line r =
     (case next_line_loop (lr_limit r) (lr_pieces r) [] False (lr_offset r) of
        None \<Rightarrow> None
      | Some (raw, offset, pieces) \<Rightarrow>
          Some (\<lparr>bl_end_offset = offset, bl_ordinal = lr_ordinal r,
                 bl_value = from_utf8_lossy (strip_return raw)\<rparr>,
                r\<lparr>lr_pieces := pieces, lr_offset := offset,
                  lr_ordinal := sat_add (lr_ordinal r) 1\<rparr>))"

section \<open>Counting rows\<close>

fun count_loop :: "string list \<Rightarrow> nat \<Rightarrow> bool \<Rightarrow> char \<Rightarrow> nat" where
  "count_loop [] rows saw_bytes last_byte =
     (if saw_bytes \<and> last_byte \<noteq> newline then sat_add rows 1 else rows)"
| "count_loop (piece # rest) rows saw_bytes last_byte =
     (if piece = []
      then (if saw_bytes \<and> last_byte \<noteq> newline then sat_add rows 1 else rows)
      else count_loop rest
             (sat_add rows (min (length (filter (\<lambda>byte. byte = newline) piece)) u64_max))
             True (last piece))"

definition count_query_file :: "string list option \<Rightarrow> nat" where
  "count_query_file file =
     (case file of None \<Rightarrow> 0 | Some pieces \<Rightarrow> count_loop pieces 0 False newline)"

section \<open>Pages\<close>

definition contains_ignore_ascii_case :: "string \<Rightarrow> string \<Rightarrow> bool" where
  "contains_ignore_ascii_case s needle \<longleftrightarrow>
     needle = [] \<or>
     list_ex (\<lambda>i. eq_ignore_ascii_case (take (length needle) (drop i s)) needle)
       [0..<length s + 1 - length needle]"

record query_file_page =
  qp_start_offset :: nat
  qp_start_ordinal :: nat
  qp_prior_total :: nat
  qp_prior_filtered :: nat
  qp_item_limit :: nat
  qp_scan_limit :: nat
  qp_known_total :: "nat option"

record query_scan =
  qs_total :: nat
  qs_filtered :: nat
  qs_selected :: "query_row list"
  qs_item_cursors :: "string list"
  qs_truncated :: bool
  qs_scan_exhausted :: bool
  qs_continuation :: "(nat \<times> nat \<times> nat \<times> nat) option"
  qs_scanned :: nat

definition query_cursor ::
  "cursor_lib \<Rightarrow> string \<Rightarrow> string option \<Rightarrow> nat \<times> nat \<times> nat \<times> nat \<Rightarrow> (string, store_error) result"
where
  "query_cursor lib ident flt at =
     (case at of (offset, ordinal, seen, filtered) \<Rightarrow>
        file_cursor_encode lib
          (file_cursor_new lib ''query_rows'' ident flt offset ordinal seen filtered))"

definition row_matches :: "(string \<Rightarrow> string) \<Rightarrow> string option \<Rightarrow> bounded_line \<Rightarrow> bool" where
  "row_matches transform flt line =
     (case flt of
        None \<Rightarrow> True
      | Some f \<Rightarrow> contains_ignore_ascii_case (transform (bl_value line)) f)"

text \<open>A row that is transformed and examined: the body of the loop after its two early exits.\<close>

definition query_row_step ::
  "cursor_lib \<Rightarrow> string \<Rightarrow> string option \<Rightarrow> query_file_page \<Rightarrow> (string \<Rightarrow> string) \<Rightarrow> bounded_line
     \<Rightarrow> query_scan \<Rightarrow> (query_scan, store_error) result"
where
  "query_row_step lib ident flt req transform line qs =
     (let qs1 = qs\<lparr>qs_scanned := sat_add (qs_scanned qs) 1, qs_total := sat_add (qs_total qs) 1\<rparr>
      in if row_matches transform flt line
         then
           (let qs2 = qs1\<lparr>qs_filtered := sat_add (qs_filtered qs1) 1\<rparr>;
                at = (bl_end_offset line, bl_ordinal line, qs_total qs2, qs_filtered qs2)
            in if length (qs_selected qs2) = qp_item_limit req then Inr (qs2\<lparr>qs_truncated := True\<rparr>)
               else and_then (query_cursor lib ident flt at)
                      (\<lambda>encoded.
                         Inr (qs2\<lparr>qs_item_cursors := qs_item_cursors qs2 @ [encoded],
                                  qs_selected := qs_selected qs2 @
                                    [\<lparr>qr_ordinal = bl_ordinal line, qr_value = transform (bl_value line)\<rparr>],
                                  qs_continuation := Some at\<rparr>)))
         else if length (qs_selected qs1) < qp_item_limit req
         then Inr (qs1\<lparr>qs_continuation :=
                     Some (bl_end_offset line, bl_ordinal line, qs_total qs1, qs_filtered qs1)\<rparr>)
         else Inr qs1)"

lemma consume_bytes:
  "n \<le> length (fill_buf pieces) \<Longrightarrow> length (concat (consume n pieces)) + n = length (concat pieces)"
  by (cases pieces) auto

lemma position_less: "position p xs = Some i \<Longrightarrow> i < length xs"
  by (induction xs arbitrary: i) (auto split: if_splits)

lemma next_line_loop_shrinks:
  "next_line_loop limit pieces acc saw offset = Some (raw, offset', pieces') \<Longrightarrow>
     length (concat pieces') + (if saw then 0 else 1) \<le> length (concat pieces)"
proof (induction limit pieces acc saw offset rule: next_line_loop.induct)
  case (1 limit pieces acc saw offset)
  let ?a = "fill_buf pieces"
  show ?case
  proof (cases "?a = []")
    case True
    then show ?thesis using 1(2) by (subst (asm) next_line_loop.simps) (auto simp: Let_def split: if_splits)
  next
    case a: False
    show ?thesis
    proof (cases "position (\<lambda>byte. byte = newline) ?a")
      case None
      then have "length (concat pieces') \<le> length (concat (consume (length ?a) pieces))"
        using 1 a by (subst (asm) (2) next_line_loop.simps) (auto simp: Let_def)
      then show ?thesis using consume_bytes [of "length ?a" pieces] a by (cases "?a") auto
    next
      case (Some i)
      then have "pieces' = consume (i + 1) pieces"
        using 1(2) a by (subst (asm) next_line_loop.simps) (auto simp: Let_def)
      then show ?thesis using consume_bytes [of "i + 1" pieces] position_less [OF Some] by auto
    qed
  qed
qed

lemma next_line_shrinks:
  "next_line r = Some (line, r') \<Longrightarrow> length (concat (lr_pieces r')) < length (concat (lr_pieces r))"
  using next_line_loop_shrinks [of "lr_limit r" "lr_pieces r" "[]" False "lr_offset r"]
  by (fastforce simp: next_line_def split: option.splits)

function page_query_loop ::
  "cursor_lib \<Rightarrow> string \<Rightarrow> string option \<Rightarrow> query_file_page \<Rightarrow> (string \<Rightarrow> string) \<Rightarrow> line_reader
     \<Rightarrow> query_scan \<Rightarrow> (query_scan, store_error) result"
where
  "page_query_loop lib ident flt req transform r qs =
     (case next_line r of
        None \<Rightarrow> Inr qs
      | Some (line, r1) \<Rightarrow>
          if qs_scanned qs = qp_scan_limit req
          then Inr (qs\<lparr>qs_truncated := True, qs_scan_exhausted := True\<rparr>)
          else if flt = None \<and> length (qs_selected qs) = qp_item_limit req
          then (case qp_known_total req of
                  Some known_total \<Rightarrow> Inr (qs\<lparr>qs_truncated := qs_total qs < known_total\<rparr>)
                | None \<Rightarrow>
                    page_query_loop lib ident flt req transform r1
                      (qs\<lparr>qs_scanned := sat_add (qs_scanned qs) 1, qs_total := sat_add (qs_total qs) 1,
                          qs_filtered := sat_add (qs_filtered qs) 1, qs_truncated := True\<rparr>))
          else and_then (query_row_step lib ident flt req transform line qs)
                 (page_query_loop lib ident flt req transform r1))"
  by pat_completeness auto

termination
  by (relation "measure (\<lambda>(lib, ident, flt, req, transform, r, qs). length (concat (lr_pieces r)))")
    (use next_line_shrinks in auto)

declare page_query_loop.simps [simp del]

definition page_query_finish ::
  "cursor_lib \<Rightarrow> string \<Rightarrow> string option \<Rightarrow> query_file_page \<Rightarrow> query_scan
     \<Rightarrow> (query_row page, store_error) result"
where
  "page_query_finish lib ident flt req qs =
     (let total_count =
            (case qp_known_total req of
               Some known_total \<Rightarrow> Some (max known_total (qs_total qs))
             | None \<Rightarrow> if qs_scan_exhausted qs then None else Some (qs_total qs));
          filtered_count =
            (if flt = None then total_count
             else if qs_scan_exhausted qs then None
             else Some (qs_filtered qs))
      in and_then
           (if qs_truncated qs
            then (case qs_continuation qs of
                    None \<Rightarrow> Inr None
                  | Some at \<Rightarrow> and_then (query_cursor lib ident flt at) (\<lambda>encoded. Inr (Some encoded)))
            else Inr None)
           (\<lambda>next_cursor.
              Inr \<lparr>pg_items = qs_selected qs, pg_total_count = total_count,
                   pg_filtered_count = filtered_count, pg_next_cursor = next_cursor,
                   pg_truncated = qs_truncated qs, pg_item_cursors = qs_item_cursors qs\<rparr>))"

definition query_scan_start :: "query_file_page \<Rightarrow> query_scan" where
  "query_scan_start req =
     \<lparr>qs_total = qp_prior_total req, qs_filtered = qp_prior_filtered req, qs_selected = [],
      qs_item_cursors = [], qs_truncated = False, qs_scan_exhausted = False, qs_continuation = None,
      qs_scanned = 0\<rparr>"

text \<open>How the reads of a file cut its content into pieces is up to the operating system.\<close>

definition page_query_file_from_cursor ::
  "cursor_lib \<Rightarrow> (string \<Rightarrow> string list) \<Rightarrow> string \<Rightarrow> string \<Rightarrow> string option \<Rightarrow> query_file_page
     \<Rightarrow> (string \<Rightarrow> string) \<Rightarrow> (query_row page, store_error) result"
where
  "page_query_file_from_cursor lib pieces_of content ident flt req transform =
     and_then
       (page_query_loop lib ident flt req transform
          (with_position (pieces_of (drop (qp_start_offset req) content)) QUERY_LINE_LIMIT
             (qp_start_offset req) (qp_start_ordinal req))
          (query_scan_start req))
       (page_query_finish lib ident flt req)"

definition page_query_file ::
  "cursor_lib \<Rightarrow> (string \<Rightarrow> string list) \<Rightarrow> string option \<Rightarrow> string \<Rightarrow> string option \<Rightarrow> query_file_page
     \<Rightarrow> (string \<Rightarrow> string) \<Rightarrow> (query_row page, store_error) result"
where
  "page_query_file lib pieces_of file ident flt req transform =
     (case file of
        None \<Rightarrow>
          Inr \<lparr>pg_items = [], pg_total_count = Some 0, pg_filtered_count = Some 0,
               pg_next_cursor = None, pg_truncated = False, pg_item_cursors = []\<rparr>
      | Some content \<Rightarrow> page_query_file_from_cursor lib pieces_of content ident flt req transform)"

text \<open>The page of a request on a file, for a known total.\<close>

definition query_rows_page ::
  "cursor_lib \<Rightarrow> (string \<Rightarrow> string list) \<Rightarrow> string option \<Rightarrow> string \<Rightarrow> string option \<Rightarrow> nat option
     \<Rightarrow> page_request \<Rightarrow> (string \<Rightarrow> string) \<Rightarrow> (query_row page, store_error) result option"
where
  "query_rows_page lib pieces_of file ident flt known_total req transform =
     (case (case pr_cursor req of
              None \<Rightarrow> Inr None
            | Some encoded \<Rightarrow>
                and_then (file_cursor_decode_for lib encoded ''query_rows'' ident flt)
                  (\<lambda>cur. Inr (Some cur))) of
        Inl e \<Rightarrow> Some (Inl e)
      | Inr cursor \<Rightarrow>
          (case page_limits 100 10000 req of
             None \<Rightarrow> None
           | Some (item_limit, scan_limit) \<Rightarrow>
               Some
                 (page_query_file lib pieces_of file ident flt
                    \<lparr>qp_start_offset = (case cursor of None \<Rightarrow> 0 | Some cur \<Rightarrow> fc_offset cur),
                     qp_start_ordinal =
                       (case cursor of None \<Rightarrow> 0 | Some cur \<Rightarrow> sat_add (fc_ordinal cur) 1),
                     qp_prior_total = (case cursor of None \<Rightarrow> 0 | Some cur \<Rightarrow> fc_total_scanned cur),
                     qp_prior_filtered =
                       (case cursor of None \<Rightarrow> 0 | Some cur \<Rightarrow> fc_filtered_scanned cur),
                     qp_item_limit = item_limit, qp_scan_limit = scan_limit,
                     qp_known_total = known_total\<rparr>
                    transform)))"

text \<open>The bytes of a stored file are an argument: the store holds files it does not interpret.\<close>

definition stdout_bytes :: "('b \<Rightarrow> string) \<Rightarrow> invocation_id \<Rightarrow> 'b store \<Rightarrow> string option" where
  "stdout_bytes bytes_of ident store =
     map_option bytes_of (Option.bind (fmlookup (st_dirs store) ident) (\<lambda>dir. fmlookup dir Stdout))"

definition count_query_rows ::
  "('b \<Rightarrow> string) \<Rightarrow> (string \<Rightarrow> string list) \<Rightarrow> 'b codec \<Rightarrow> env \<Rightarrow> invocation_id \<Rightarrow> 'b store
     \<Rightarrow> (nat, store_error) result \<times> 'b store"
where
  "count_query_rows bytes_of pieces_of c env ident store =
     (case ensure_invocation c env ident store of
        (Inl e, store1) \<Rightarrow> (Inl e, store1)
      | (Inr _, store1) \<Rightarrow>
          (Inr (count_query_file (map_option pieces_of (stdout_bytes bytes_of ident store1))), store1))"

definition known_query_total :: "string option \<Rightarrow> index_entry \<Rightarrow> nat option" where
  "known_query_total flt entry =
     (if flt = None \<and> is_terminal (hd_state (en_record entry))
      then Option.bind (hd_summary (en_record entry)) sh_query_result_count
      else None)"

definition page_query_rows_mapped_into ::
  "cursor_lib \<Rightarrow> ('b \<Rightarrow> string) \<Rightarrow> (string \<Rightarrow> string list) \<Rightarrow> 'b codec \<Rightarrow> env \<Rightarrow> invocation_id
     \<Rightarrow> string option \<Rightarrow> page_request \<Rightarrow> (string \<Rightarrow> string) \<Rightarrow> 'b store
     \<Rightarrow> (query_row page, store_error) result option \<times> 'b store"
where
  "page_query_rows_mapped_into lib bytes_of pieces_of c env ident flt req transform store =
     (case ensure_invocation c env ident store of
        (Inl e, store1) \<Rightarrow> (Some (Inl e), store1)
      | (Inr _, store1) \<Rightarrow>
          (case fmlookup (entries (st_index store1)) ident of
             None \<Rightarrow> (Some (Inl (NotFoundError ident)), store1)
           | Some entry \<Rightarrow>
               (query_rows_page lib pieces_of (stdout_bytes bytes_of ident store1) (id_text lib ident) flt
                  (known_query_total flt entry) req transform,
                store1)))"

definition page_query_rows ::
  "cursor_lib \<Rightarrow> ('b \<Rightarrow> string) \<Rightarrow> (string \<Rightarrow> string list) \<Rightarrow> 'b codec \<Rightarrow> env \<Rightarrow> invocation_id
     \<Rightarrow> string option \<Rightarrow> page_request \<Rightarrow> 'b store
     \<Rightarrow> (query_row page, store_error) result option \<times> 'b store"
where
  "page_query_rows lib bytes_of pieces_of c env ident flt req store =
     page_query_rows_mapped_into lib bytes_of pieces_of c env ident flt req (\<lambda>s. s) store"

section \<open>The rows of a file\<close>

text \<open>What the reader is meant to deliver: the lines of the bytes, cut, numbered and with their ends.\<close>

definition row_text :: "nat \<Rightarrow> string \<Rightarrow> string" where
  "row_text limit raw = from_utf8_lossy (strip_return (take limit raw))"

function rows_from :: "nat \<Rightarrow> nat \<Rightarrow> nat \<Rightarrow> string \<Rightarrow> bounded_line list" where
  "rows_from limit ordinal offset bs =
     (if bs = [] then []
      else (case position (\<lambda>byte. byte = newline) bs of
              Some pos \<Rightarrow>
                \<lparr>bl_end_offset = offset + (pos + 1), bl_ordinal = ordinal,
                 bl_value = row_text limit (take pos bs)\<rparr> #
                rows_from limit (ordinal + 1) (offset + (pos + 1)) (drop (pos + 1) bs)
            | None \<Rightarrow>
                [\<lparr>bl_end_offset = offset + length bs, bl_ordinal = ordinal, bl_value = row_text limit bs\<rparr>]))"
  by pat_completeness auto

termination
  by (relation "measure (\<lambda>(limit, ordinal, offset, bs). length bs)") auto

declare rows_from.simps [simp del]

definition file_rows :: "string \<Rightarrow> bounded_line list" where
  "file_rows content = rows_from QUERY_LINE_LIMIT 0 0 content"

lemma rows_from_Nil [simp]: "rows_from limit ordinal offset [] = []"
  by (simp add: rows_from.simps)

lemma position_append:
  "position p (xs @ ys) =
     (case position p xs of Some i \<Rightarrow> Some i | None \<Rightarrow> map_option ((+) (length xs)) (position p ys))"
  by (induction xs) (auto simp: option.map_comp comp_def option.map_ident split: option.split cong: option.map_cong)

definition pieces_ok :: "string list \<Rightarrow> bool" where
  "pieces_ok pieces \<longleftrightarrow> [] \<notin> set pieces"

lemma pieces_ok_consume: "pieces_ok pieces \<Longrightarrow> pieces_ok (consume n pieces)"
  by (cases pieces) (auto simp: pieces_ok_def)

lemma concat_consume: "n \<le> length (fill_buf pieces) \<Longrightarrow> concat (consume n pieces) = drop n (concat pieces)"
  by (cases pieces) auto

lemma fill_buf_Nil: "pieces_ok pieces \<Longrightarrow> fill_buf pieces = [] \<longleftrightarrow> concat pieces = []"
  by (cases pieces) (auto simp: pieces_ok_def)

lemma fill_buf_prefix: "\<exists>rest. concat pieces = fill_buf pieces @ rest"
  by (cases pieces) auto

text \<open>The loop sees the bytes only, not the pieces they come in.\<close>

lemma next_line_loop_spec:
  assumes "pieces_ok pieces" and "offset + length (concat pieces) \<le> u64_max" and "length acc \<le> limit"
  shows "\<exists>rest. pieces_ok rest \<and>
    concat rest = (case position (\<lambda>byte. byte = newline) (concat pieces) of
       Some pos \<Rightarrow> drop (pos + 1) (concat pieces) | None \<Rightarrow> []) \<and>
    next_line_loop limit pieces acc saw offset =
    (if concat pieces = [] then (if saw then Some (acc, offset, rest) else None)
     else (case position (\<lambda>byte. byte = newline) (concat pieces) of
             Some pos \<Rightarrow>
               Some (acc @ take (limit - length acc) (take pos (concat pieces)), offset + (pos + 1), rest)
           | None \<Rightarrow>
               Some (acc @ take (limit - length acc) (concat pieces), offset + length (concat pieces), rest)))"
  using assms
proof (induction limit pieces acc saw offset rule: next_line_loop.induct)
  case (1 limit pieces acc saw offset)
  let ?a = "fill_buf pieces" and ?nl = "\<lambda>byte. byte = newline"
  show ?case
  proof (cases "?a = []")
    case True
    then have "pieces = []" using 1(2) by (cases pieces) (auto simp: pieces_ok_def)
    then show ?thesis
      by (intro exI [of _ "[]"]) (subst next_line_loop.simps, simp add: pieces_ok_def)
  next
    case a: False
    obtain rest where rest: "concat pieces = ?a @ rest" using fill_buf_prefix by blast
    show ?thesis
    proof (cases "position ?nl ?a")
      case (Some pos)
      have less: "pos < length ?a" using position_less [OF Some] .
      have run: "next_line_loop limit pieces acc saw offset =
          Some (acc @ take (min pos (limit - length acc)) ?a, offset + (pos + 1), consume (pos + 1) pieces)"
        using Some a less rest 1(3) by (subst next_line_loop.simps) (auto simp: Let_def)
      have "take (limit - length acc) (take pos (concat pieces)) = take (min pos (limit - length acc)) ?a"
        using less rest by (simp add: min.commute)
      then show ?thesis
        using run Some rest less a pieces_ok_consume [OF 1(2)] concat_consume [of "pos + 1" pieces]
        by (intro exI [of _ "consume (pos + 1) pieces"]) (simp add: position_append del: take_take)
    next
      case None
      let ?pieces = "consume (length ?a) pieces"
      let ?acc = "acc @ take (min (length ?a) (limit - length acc)) ?a"
      have sat: "sat_add offset (length ?a) = offset + length ?a" using rest 1(3) by simp
      have run: "next_line_loop limit pieces acc saw offset =
          next_line_loop limit ?pieces ?acc True (offset + length ?a)"
        using None a sat by (subst next_line_loop.simps) (auto simp: Let_def)
      have bytes: "concat ?pieces = rest" using concat_consume [of "length ?a" pieces] rest by simp
      note ih = 1(1) [OF refl a None, unfolded sat bytes sat_sub_eq_minus if_True]
      have bounds: "offset + length ?a + length rest \<le> u64_max" "length ?acc \<le> limit"
        using rest 1(3,4) by simp_all
      obtain rst where rst: "pieces_ok rst"
        "concat rst = (case position ?nl rest of Some pos \<Rightarrow> drop (pos + 1) rest | None \<Rightarrow> [])"
        "next_line_loop limit ?pieces ?acc True (offset + length ?a) =
          (if rest = [] then Some (?acc, offset + length ?a, rst)
           else (case position ?nl rest of
             Some pos \<Rightarrow> Some (?acc @ take (limit - length ?acc) (take pos rest), offset + length ?a + (pos + 1), rst)
           | None \<Rightarrow> Some (?acc @ take (limit - length ?acc) rest, offset + length ?a + length rest, rst)))"
        using ih [OF pieces_ok_consume [OF 1(2)] bounds] by blast
      have acc: "?acc @ take (limit - length ?acc) xs = acc @ take (limit - length acc) (?a @ xs)" for xs
        by (simp add: min_def)
      have accNil: "?acc = acc @ take (limit - length acc) ?a" by (simp add: min_def)
      show ?thesis
      proof (intro exI [of _ rst] conjI)
        show "concat rst = (case position ?nl (concat pieces) of
            Some pos \<Rightarrow> drop (pos + 1) (concat pieces) | None \<Rightarrow> [])"
          using rst(2) rest None by (simp add: position_append split: option.split)
        show "next_line_loop limit pieces acc saw offset =
          (if concat pieces = [] then (if saw then Some (acc, offset, rst) else None)
           else (case position ?nl (concat pieces) of
             Some pos \<Rightarrow>
               Some (acc @ take (limit - length acc) (take pos (concat pieces)), offset + (pos + 1), rst)
           | None \<Rightarrow>
               Some (acc @ take (limit - length acc) (concat pieces), offset + length (concat pieces), rst)))"
          unfolding run rst(3) acc rest using a None accNil
          by (cases "position ?nl rest"; cases rest) (simp_all add: position_append add.assoc)
      qed (rule rst(1))
    qed
  qed
qed

definition reader_rows :: "line_reader \<Rightarrow> bounded_line list" where
  "reader_rows r = rows_from (lr_limit r) (lr_ordinal r) (lr_offset r) (concat (lr_pieces r))"

definition reader_ok :: "line_reader \<Rightarrow> bool" where
  "reader_ok r \<longleftrightarrow>
     pieces_ok (lr_pieces r) \<and> lr_offset r + length (concat (lr_pieces r)) \<le> u64_max \<and>
     lr_ordinal r + length (concat (lr_pieces r)) \<le> u64_max"

lemma next_line_None: "reader_ok r \<Longrightarrow> reader_rows r = [] \<Longrightarrow> next_line r = None"
proof -
  assume ok: "reader_ok r" and "reader_rows r = []"
  then have bytes: "concat (lr_pieces r) = []"
    unfolding reader_rows_def by (subst (asm) rows_from.simps) (auto split: if_splits option.splits)
  then have "lr_pieces r = []" using ok by (cases "lr_pieces r") (auto simp: reader_ok_def pieces_ok_def)
  then show ?thesis by (simp add: next_line_def next_line_loop.simps)
qed

lemma next_line_Some:
  assumes ok: "reader_ok r" and rows: "reader_rows r = row # rest"
  shows "\<exists>r'. next_line r = Some (row, r') \<and> reader_ok r' \<and> reader_rows r' = rest"
proof -
  let ?bs = "concat (lr_pieces r)" and ?pos = "position (\<lambda>byte. byte = newline) (concat (lr_pieces r))"
  have bs: "?bs \<noteq> []" using rows by (metis reader_rows_def rows_from_Nil list.distinct(1))
  obtain left where left: "pieces_ok left"
    "concat left = (case ?pos of Some pos \<Rightarrow> drop (pos + 1) ?bs | None \<Rightarrow> [])"
    "next_line_loop (lr_limit r) (lr_pieces r) [] False (lr_offset r) =
      (case ?pos of
         Some pos \<Rightarrow> Some (take (lr_limit r) (take pos ?bs), lr_offset r + (pos + 1), left)
       | None \<Rightarrow> Some (take (lr_limit r) ?bs, lr_offset r + length ?bs, left))"
    using next_line_loop_spec [of "lr_pieces r" "lr_offset r" "[]" "lr_limit r" False,
        unfolded append_Nil list.size(3) diff_zero] ok bs
    by (auto simp: reader_ok_def simp del: concat_eq_Nil_conv)
  have ord: "sat_add (lr_ordinal r) 1 = lr_ordinal r + 1"
    using ok bs unfolding reader_ok_def by (cases ?bs) auto
  note unfold_rows = rows [unfolded reader_rows_def rows_from.simps [of _ _ _ ?bs] if_not_P [OF bs]]
  show ?thesis
  proof (cases ?pos)
    case None
    then have "concat left = []" "rest = []"
      "row = \<lparr>bl_end_offset = lr_offset r + length ?bs, bl_ordinal = lr_ordinal r,
        bl_value = row_text (lr_limit r) ?bs\<rparr>"
      using left(2) unfold_rows by simp_all
    then show ?thesis using None left(1,3) ok ord bs
      by (cases ?bs) (auto simp: next_line_def reader_rows_def reader_ok_def row_text_def simp del: concat_eq_Nil_conv)
  next
    case (Some pos)
    have "pos < length ?bs" using position_less [OF Some] .
    moreover have "concat left = drop (pos + 1) ?bs"
      "rest = rows_from (lr_limit r) (lr_ordinal r + 1) (lr_offset r + (pos + 1)) (drop (pos + 1) ?bs)"
      "row = \<lparr>bl_end_offset = lr_offset r + (pos + 1), bl_ordinal = lr_ordinal r,
        bl_value = row_text (lr_limit r) (take pos ?bs)\<rparr>"
      using Some left(2) unfold_rows by simp_all
    ultimately show ?thesis using Some left(1,3) ok ord
      by (simp add: next_line_def reader_rows_def reader_ok_def row_text_def del: concat_eq_Nil_conv take_take)
        linarith
  qed
qed

text \<open>Behind a row the rows that follow it are read.\<close>

lemma rows_from_drop:
  "n < length (rows_from limit ordinal offset bs) \<Longrightarrow>
   \<exists>d. bl_end_offset (rows_from limit ordinal offset bs ! n) = offset + d \<and> d \<le> length bs \<and>
     bl_ordinal (rows_from limit ordinal offset bs ! n) = ordinal + n \<and>
     rows_from limit (ordinal + Suc n) (offset + d) (drop d bs) =
       drop (Suc n) (rows_from limit ordinal offset bs)"
proof (induction limit ordinal offset bs arbitrary: n rule: rows_from.induct)
  case (1 limit ordinal offset bs)
  then have bs: "bs \<noteq> []" by auto
  show ?case
  proof (cases "position (\<lambda>byte. byte = newline) bs")
    case None
    then show ?thesis using 1(2) bs
      by (auto simp: rows_from.simps [of _ _ _ bs] intro!: exI [of _ "length bs"])
  next
    case (Some pos)
    have less: "pos < length bs" using position_less [OF Some] .
    let ?rest = "rows_from limit (ordinal + 1) (offset + (pos + 1)) (drop (pos + 1) bs)"
    have rows: "rows_from limit ordinal offset bs =
        \<lparr>bl_end_offset = offset + (pos + 1), bl_ordinal = ordinal, bl_value = row_text limit (take pos bs)\<rparr> # ?rest"
      using Some bs by (simp add: rows_from.simps [of _ _ _ bs])
    show ?thesis
    proof (cases n)
      case 0
      then show ?thesis using rows less by (intro exI [of _ "pos + 1"]) simp
    next
      case (Suc k)
      then obtain d where d: "bl_end_offset (?rest ! k) = offset + (pos + 1) + d"
        "d \<le> length (drop (pos + 1) bs)" "bl_ordinal (?rest ! k) = ordinal + 1 + k"
        "rows_from limit (ordinal + 1 + Suc k) (offset + (pos + 1) + d) (drop d (drop (pos + 1) bs)) =
          drop (Suc k) ?rest"
        using 1(1) [OF bs Some, of k] 1(2) rows by auto
      then show ?thesis using rows Suc less
        by (intro exI [of _ "pos + 1 + d"]) (simp add: add.assoc add.commute [of d])
    qed
  qed
qed

lemma length_rows_from: "length (rows_from limit ordinal offset bs) \<le> length bs"
proof (induction limit ordinal offset bs rule: rows_from.induct)
  case (1 limit ordinal offset bs)
  show ?case
  proof (cases "bs = []")
    case bs: False
    show ?thesis
    proof (cases "position (\<lambda>byte. byte = newline) bs")
      case None
      then show ?thesis using bs by (subst rows_from.simps) (cases bs; simp)
    next
      case (Some pos)
      then show ?thesis using 1 [OF bs Some] bs position_less [OF Some] by (subst rows_from.simps) simp
    qed
  qed simp
qed

section \<open>One page\<close>

definition row_of :: "(string \<Rightarrow> string) \<Rightarrow> bounded_line \<Rightarrow> query_row" where
  "row_of transform line = \<lparr>qr_ordinal = bl_ordinal line, qr_value = transform (bl_value line)\<rparr>"

text \<open>
  The state of a page after \<^verbatim>\<open>j\<close> of its rows: \<^verbatim>\<open>c\<close> of them are behind the continuation, the matches
  among these are selected, and a match among the others has been seen if the page is truncated.
  The rows before the page and the matches among them are counted by \<^verbatim>\<open>i\<close> and \<^verbatim>\<open>f\<close>.
\<close>

definition continuation_at ::
  "(bounded_line \<Rightarrow> bool) \<Rightarrow> bounded_line list \<Rightarrow> nat \<Rightarrow> nat \<Rightarrow> nat \<Rightarrow> (nat \<times> nat \<times> nat \<times> nat) option"
where
  "continuation_at p rows i f c =
     (if c = 0 then None
      else Some (bl_end_offset (rows ! (c - 1)), bl_ordinal (rows ! (c - 1)), i + c,
                 f + length (filter p (take c rows))))"

definition page_inv ::
  "(string \<Rightarrow> string) \<Rightarrow> (bounded_line \<Rightarrow> bool) \<Rightarrow> bounded_line list \<Rightarrow> nat \<Rightarrow> nat \<Rightarrow> nat \<Rightarrow> nat \<Rightarrow> nat
     \<Rightarrow> query_scan \<Rightarrow> bool"
where
  "page_inv transform p rows i f item_limit j c qs \<longleftrightarrow>
     c \<le> j \<and> j \<le> length rows \<and>
     qs_selected qs = map (row_of transform) (filter p (take c rows)) \<and>
     length (qs_selected qs) \<le> item_limit \<and>
     (length (qs_selected qs) < item_limit \<longrightarrow> c = j) \<and>
     qs_continuation qs = continuation_at p rows i f c \<and>
     qs_scanned qs = j \<and> qs_total qs = i + j \<and> qs_filtered qs = f + length (filter p (take j rows)) \<and>
     qs_truncated qs = (filter p (drop c (take j rows)) \<noteq> []) \<and> \<not> qs_scan_exhausted qs"

definition page_result ::
  "(string \<Rightarrow> string) \<Rightarrow> (bounded_line \<Rightarrow> bool) \<Rightarrow> bounded_line list \<Rightarrow> nat \<Rightarrow> nat \<Rightarrow> query_scan \<Rightarrow> bool"
where
  "page_result transform p rows i f qs \<longleftrightarrow>
     (\<exists>c \<le> length rows.
        qs_selected qs = map (row_of transform) (filter p (take c rows)) \<and>
        qs_continuation qs = continuation_at p rows i f c \<and>
        (if qs_truncated qs then 0 < c else filter p (drop c rows) = []))"

lemma query_cursor_encodes: "\<exists>encoded. query_cursor lib ident flt at = Inr encoded"
  by (auto simp: query_cursor_def file_cursor_encode_def split: prod.split)

lemma page_invD:
  assumes "page_inv transform p rows i f item_limit j c qs"
  shows "c \<le> j" and "j \<le> length rows"
    and "qs_selected qs = map (row_of transform) (filter p (take c rows))"
    and "length (qs_selected qs) \<le> item_limit"
    and "length (qs_selected qs) < item_limit \<Longrightarrow> c = j"
    and "qs_continuation qs = continuation_at p rows i f c"
    and "qs_scanned qs = j" and "qs_total qs = i + j"
    and "qs_filtered qs = f + length (filter p (take j rows))"
    and "qs_truncated qs = (filter p (drop c (take j rows)) \<noteq> [])" and "\<not> qs_scan_exhausted qs"
  using assms unfolding page_inv_def by (elim conjE; assumption | iprover)+

lemma page_inv_full_pos:
  assumes "page_inv transform p rows i f item_limit j c qs" and "0 < length (qs_selected qs)"
  shows "0 < c"
  using assms(2) unfolding page_invD(3) [OF assms(1)] by (cases c) simp_all

lemma page_inv_selected_pos:
  assumes "page_inv transform p rows i f item_limit j c qs" and "0 < item_limit" and "0 < j"
  shows "0 < c"
  using page_inv_full_pos [OF assms(1)] page_invD(5) [OF assms(1)] assms(2,3)
  by (cases "length (qs_selected qs)") auto

lemma filter_take_Suc:
  "j < length rows \<Longrightarrow> filter p (take (Suc j) rows) = filter p (take j rows) @ (if p (rows ! j) then [rows ! j] else [])"
  by (simp add: take_Suc_conv_app_nth)

lemma filter_drop_take_Suc:
  "j < length rows \<Longrightarrow> c \<le> j \<Longrightarrow>
     filter p (drop c (take (Suc j) rows)) = filter p (drop c (take j rows)) @ (if p (rows ! j) then [rows ! j] else [])"
  by (simp add: take_Suc_conv_app_nth)

lemma length_filter_take_le: "length (filter p (take j rows)) \<le> j"
  using length_filter_le [of p "take j rows"] by simp

lemma page_inv_skip:
  assumes inv: "page_inv transform p rows i f item_limit j c qs" and j: "j < length rows"
    and full: "length (qs_selected qs) = item_limit" and u64: "i + f + length rows \<le> u64_max"
    and qs': "qs' = qs\<lparr>qs_scanned := sat_add (qs_scanned qs) 1, qs_total := sat_add (qs_total qs) 1,
      qs_filtered := (if p (rows ! j) then sat_add (qs_filtered qs) 1 else qs_filtered qs),
      qs_truncated := qs_truncated qs \<or> p (rows ! j)\<rparr>"
  shows "page_inv transform p rows i f item_limit (Suc j) c qs'"
  using inv j full u64 length_filter_take_le [of p j rows] unfolding qs' page_inv_def
  by (auto simp: filter_take_Suc filter_drop_take_Suc)

lemma page_inv_take:
  assumes inv: "page_inv transform p rows i f item_limit j c qs" and j: "j < length rows"
    and room: "length (qs_selected qs) < item_limit" and u64: "i + f + length rows \<le> u64_max"
    and qs': "qs' = qs\<lparr>qs_scanned := sat_add (qs_scanned qs) 1, qs_total := sat_add (qs_total qs) 1,
      qs_filtered := (if p (rows ! j) then sat_add (qs_filtered qs) 1 else qs_filtered qs),
      qs_item_cursors := cursors,
      qs_selected := qs_selected qs @ (if p (rows ! j) then [row_of transform (rows ! j)] else []),
      qs_continuation := Some (bl_end_offset (rows ! j), bl_ordinal (rows ! j), sat_add (qs_total qs) 1,
        (if p (rows ! j) then sat_add (qs_filtered qs) 1 else qs_filtered qs))\<rparr>"
  shows "page_inv transform p rows i f item_limit (Suc j) (Suc j) qs'"
  using inv j room u64 length_filter_take_le [of p j rows] unfolding qs' page_inv_def
  by (auto simp: filter_take_Suc filter_drop_take_Suc continuation_at_def)

lemma query_row_step_full:
  assumes "length (qs_selected qs) = qp_item_limit req"
  shows "query_row_step lib ident flt req transform line qs =
    Inr (qs\<lparr>qs_scanned := sat_add (qs_scanned qs) 1, qs_total := sat_add (qs_total qs) 1,
      qs_filtered := (if row_matches transform flt line then sat_add (qs_filtered qs) 1 else qs_filtered qs),
      qs_truncated := qs_truncated qs \<or> row_matches transform flt line\<rparr>)"
  using assms by (cases qs) (simp add: query_row_step_def Let_def)

lemma query_row_step_room:
  assumes "length (qs_selected qs) < qp_item_limit req"
  shows "\<exists>cursors. query_row_step lib ident flt req transform line qs =
    Inr (qs\<lparr>qs_scanned := sat_add (qs_scanned qs) 1, qs_total := sat_add (qs_total qs) 1,
      qs_filtered := (if row_matches transform flt line then sat_add (qs_filtered qs) 1 else qs_filtered qs),
      qs_item_cursors := cursors,
      qs_selected := qs_selected qs @ (if row_matches transform flt line then [row_of transform line] else []),
      qs_continuation := Some (bl_end_offset line, bl_ordinal line, sat_add (qs_total qs) 1,
        (if row_matches transform flt line then sat_add (qs_filtered qs) 1 else qs_filtered qs))\<rparr>)"
proof (cases "row_matches transform flt line")
  case True
  obtain encoded where "query_cursor lib ident flt (bl_end_offset line, bl_ordinal line,
      sat_add (qs_total qs) 1, sat_add (qs_filtered qs) 1) = Inr encoded"
    using query_cursor_encodes by blast
  then show ?thesis using True assms
    by (intro exI [of _ "qs_item_cursors qs @ [encoded]"]) (simp add: query_row_step_def Let_def row_of_def)
next
  case False
  then show ?thesis using assms
    by (intro exI [of _ "qs_item_cursors qs"]) (cases qs, simp add: query_row_step_def Let_def)
qed

lemma query_row_step_inv:
  assumes inv: "page_inv transform (row_matches transform flt) rows i f (qp_item_limit req) j c qs"
    and j: "j < length rows" and u64: "i + f + length rows \<le> u64_max"
  shows "\<exists>qs' c'. query_row_step lib ident flt req transform (rows ! j) qs = Inr qs' \<and>
    page_inv transform (row_matches transform flt) rows i f (qp_item_limit req) (Suc j) c' qs'"
proof (cases "length (qs_selected qs) = qp_item_limit req")
  case True
  show ?thesis
    unfolding query_row_step_full [OF True]
    by (intro exI conjI, rule refl, rule page_inv_skip [OF inv j True u64 refl])
next
  case False
  then have room: "length (qs_selected qs) < qp_item_limit req" using page_invD(4) [OF inv] by simp
  show ?thesis
    using query_row_step_room [OF room, of lib ident flt transform "rows ! j"]
      page_inv_take [OF inv j room u64 refl] by blast
qed

lemma page_resultI:
  assumes "page_inv transform p rows i f item_limit j c qs"
    and "qs_selected qs' = qs_selected qs" and "qs_continuation qs' = qs_continuation qs"
    and "qs_truncated qs' \<Longrightarrow> 0 < c" and "\<not> qs_truncated qs' \<Longrightarrow> filter p (drop c rows) = []"
  shows "page_result transform p rows i f qs'"
  unfolding page_result_def
proof (intro exI [of _ c] conjI)
  show "c \<le> length rows" using page_invD(1,2) [OF assms(1)] by simp
qed (use assms(2-5) page_invD(3,6) [OF assms(1)] in auto)

lemma page_query_loop_result:
  assumes "reader_ok r" and "reader_rows r = drop j rows"
    and "page_inv transform (row_matches transform flt) rows i f (qp_item_limit req) j c qs"
    and "i + f + length rows \<le> u64_max" and "0 < qp_item_limit req" and "0 < qp_scan_limit req"
    and "\<forall>k. qp_known_total req = Some k \<longrightarrow> k = i + length rows"
  shows "\<exists>qs'. page_query_loop lib ident flt req transform r qs = Inr qs' \<and>
    page_result transform (row_matches transform flt) rows i f qs'"
  using assms
proof (induction lib ident flt req transform r qs arbitrary: j c rule: page_query_loop.induct)
  case (1 lib ident flt req transform r qs)
  let ?p = "row_matches transform flt"
  note inv = 1(5) and u64 = 1(6)
  note run = page_query_loop.simps [of lib ident flt req transform r qs]
  show ?case
  proof (cases "j < length rows")
    case False
    then have j: "j = length rows" and "reader_rows r = []" using 1(4) page_invD(2) [OF inv] by simp_all
    then have "page_query_loop lib ident flt req transform r qs = Inr qs"
      using next_line_None [OF 1(3)] by (simp add: run)
    moreover have "page_result transform ?p rows i f qs"
    proof (rule page_resultI [OF inv refl refl])
      assume "qs_truncated qs"
      then have "0 < j" unfolding page_invD(10) [OF inv] by (cases j) simp_all
      then show "0 < c" using page_inv_selected_pos [OF inv 1(7)] by simp
    next
      assume "\<not> qs_truncated qs"
      then show "filter ?p (drop c rows) = []" unfolding page_invD(10) [OF inv] j by simp
    qed
    ultimately show ?thesis by blast
  next
    case j: True
    then obtain r' where r': "next_line r = Some (rows ! j, r')" "reader_ok r'" "reader_rows r' = drop (Suc j) rows"
      using next_line_Some [OF 1(3)] 1(4) by (metis Cons_nth_drop_Suc)
    show ?thesis
    proof (cases "qs_scanned qs = qp_scan_limit req")
      case True
      then have "0 < c" using page_inv_selected_pos [OF inv 1(7)] page_invD(7) [OF inv] 1(8) by simp
      then have "page_result transform ?p rows i f (qs\<lparr>qs_truncated := True, qs_scan_exhausted := True\<rparr>)"
        by (intro page_resultI [OF inv]) simp_all
      then show ?thesis using run r'(1) True by simp
    next
      case scan: False
      show ?thesis
      proof (cases "flt = None \<and> length (qs_selected qs) = qp_item_limit req")
        case full: True
        then have p: "?p (rows ! j)" by (simp add: row_matches_def)
        show ?thesis
        proof (cases "qp_known_total req")
          case (Some k)
          then have "qs_total qs < k" using 1(9) page_invD(8) [OF inv] j by simp
          moreover have "0 < c" using page_inv_full_pos [OF inv] full 1(7) by simp
          ultimately have "page_result transform ?p rows i f (qs\<lparr>qs_truncated := qs_total qs < k\<rparr>)"
            by (intro page_resultI [OF inv]) simp_all
          then show ?thesis using run r'(1) scan full Some by simp
        next
          case None
          let ?qs = "qs\<lparr>qs_scanned := sat_add (qs_scanned qs) 1, qs_total := sat_add (qs_total qs) 1,
            qs_filtered := sat_add (qs_filtered qs) 1, qs_truncated := True\<rparr>"
          have "page_inv transform ?p rows i f (qp_item_limit req) (Suc j) c ?qs"
            using page_inv_skip [OF inv j _ u64, of ?qs] full p by simp
          then show ?thesis
            using 1(1) [OF r'(1) refl scan full None r'(2,3) _ u64 1(7-9)] run r'(1) scan full None
            by simp
        qed
      next
        case step: False
        obtain qs' c' where qs': "query_row_step lib ident flt req transform (rows ! j) qs = Inr qs'"
          "page_inv transform ?p rows i f (qp_item_limit req) (Suc j) c' qs'"
          using query_row_step_inv [OF inv j u64] by blast
        then show ?thesis
          using 1(2) [OF r'(1) refl scan step r'(2,3) qs'(2) u64 1(7-9)] run r'(1) scan step by simp
      qed
    qed
  qed
qed

section \<open>All pages of a file\<close>

text \<open>What is assumed of reading a file: the pieces are not empty and make up the content.\<close>

definition reads_ok :: "(string \<Rightarrow> string list) \<Rightarrow> bool" where
  "reads_ok pieces_of \<longleftrightarrow> (\<forall>bs. pieces_ok (pieces_of bs) \<and> concat (pieces_of bs) = bs)"

definition query_text ::
  "cursor_lib \<Rightarrow> string \<Rightarrow> string option \<Rightarrow> (string \<Rightarrow> string) \<Rightarrow> string \<Rightarrow> nat \<Rightarrow> string"
where
  "query_text lib ident flt transform content pos =
     projr (query_cursor lib ident flt
       (the (continuation_at (row_matches transform flt) (file_rows content) 0 0 pos)))"

lemma continuation_at_drop:
  assumes "0 < k" and "pos + k \<le> length rows"
  shows "continuation_at p (drop pos rows) pos (length (filter p (take pos rows))) k =
    continuation_at p rows 0 0 (pos + k)"
  using assms by (simp add: continuation_at_def take_add)

lemma file_rows_at:
  assumes "0 < pos" and "pos \<le> length (file_rows content)"
  shows "bl_end_offset (file_rows content ! (pos - 1)) \<le> length content \<and>
    bl_ordinal (file_rows content ! (pos - 1)) = pos - 1 \<and>
    rows_from QUERY_LINE_LIMIT pos (bl_end_offset (file_rows content ! (pos - 1)))
      (drop (bl_end_offset (file_rows content ! (pos - 1))) content) = drop pos (file_rows content)"
  using rows_from_drop [of "pos - 1" QUERY_LINE_LIMIT 0 0 content] assms by (auto simp: file_rows_def)

lemma query_text_decodes:
  assumes lib: "cursor_lib_ok lib" and size: "int (length content) \<le> i64_max"
    and pos: "0 < pos" "pos \<le> length (file_rows content)"
  shows "file_cursor_decode_for lib (query_text lib ident flt transform content pos) ''query_rows'' ident flt =
    Inr (file_cursor_new lib ''query_rows'' ident flt (bl_end_offset (file_rows content ! (pos - 1))) (pos - 1) pos
      (length (filter (row_matches transform flt) (take pos (file_rows content)))))"
proof -
  let ?rows = "file_rows content" and ?p = "row_matches transform flt"
  have len: "length ?rows \<le> length content" using length_rows_from by (simp add: file_rows_def)
  have "length (filter ?p (take pos ?rows)) \<le> pos" by (rule length_filter_take_le)
  then have "bl_end_offset (?rows ! (pos - 1)) \<le> u64_max" "pos - 1 \<le> u64_max" "pos \<le> u64_max"
    "length (filter ?p (take pos ?rows)) \<le> u64_max"
    using file_rows_at [OF pos] len pos size by (simp_all add: i64_max_def u64_max_def)
  then obtain encoded where "file_cursor_encode lib (file_cursor_new lib ''query_rows'' ident flt
        (bl_end_offset (?rows ! (pos - 1))) (pos - 1) pos (length (filter ?p (take pos ?rows)))) = Inr encoded"
    "file_cursor_decode_for lib encoded ''query_rows'' ident flt =
      Inr (file_cursor_new lib ''query_rows'' ident flt (bl_end_offset (?rows ! (pos - 1))) (pos - 1) pos
        (length (filter ?p (take pos ?rows))))"
    using file_cursor_roundtrip [OF lib] by blast
  then show ?thesis
    using pos file_rows_at [OF pos] by (simp add: query_text_def continuation_at_def query_cursor_def)
qed

lemma page_inv_start:
  assumes "qp_prior_total req = i" and "qp_prior_filtered req = f"
  shows "page_inv transform p rows i f item_limit 0 0 (query_scan_start req)"
  using assms by (simp add: page_inv_def query_scan_start_def continuation_at_def)

lemma page_from_position:
  assumes lib: "cursor_lib_ok lib" and reads: "reads_ok pieces_of"
    and size: "int (length content) \<le> i64_max" and pos: "pos \<le> length (file_rows content)"
    and req: "qp_start_offset req = (if pos = 0 then 0 else bl_end_offset (file_rows content ! (pos - 1)))"
      "qp_start_ordinal req = pos" "qp_prior_total req = pos"
      "qp_prior_filtered req = length (filter (row_matches transform flt) (take pos (file_rows content)))"
      "0 < qp_item_limit req" "0 < qp_scan_limit req"
      "\<forall>k. qp_known_total req = Some k \<longrightarrow> k = length (file_rows content)"
  shows "\<exists>pg k. page_query_file_from_cursor lib pieces_of content ident flt req transform = Inr pg \<and>
    pos + k \<le> length (file_rows content) \<and>
    pg_items pg = map (row_of transform) (filter (row_matches transform flt) (take k (drop pos (file_rows content)))) \<and>
    (pg_next_cursor pg = None \<and> filter (row_matches transform flt) (drop (pos + k) (file_rows content)) = [] \<or>
     0 < k \<and> pg_next_cursor pg = Some (query_text lib ident flt transform content (pos + k)))"
proof -
  let ?rows = "file_rows content" and ?p = "row_matches transform flt"
  let ?from = "qp_start_offset req" and ?f = "length (filter ?p (take pos ?rows))"
  let ?r = "with_position (pieces_of (drop ?from content)) QUERY_LINE_LIMIT ?from pos"
  have len: "length ?rows \<le> length content" using length_rows_from by (simp add: file_rows_def)
  have from_le: "?from \<le> length content" using req(1) file_rows_at pos by auto
  have "rows_from QUERY_LINE_LIMIT pos ?from (drop ?from content) = drop pos ?rows"
    using req(1) file_rows_at pos by (cases "pos = 0") (auto simp: file_rows_def)
  then have rows: "reader_rows ?r = drop 0 (drop pos ?rows)"
    using reads by (simp add: reader_rows_def with_position_def reads_ok_def)
  have ok: "reader_ok ?r"
    using reads from_le pos len size
    by (simp add: reader_ok_def with_position_def reads_ok_def i64_max_def u64_max_def)
  have f: "?f \<le> pos" by (rule length_filter_take_le)
  have u64: "pos + ?f + length (drop pos ?rows) \<le> u64_max"
    using f pos len size by (simp add: i64_max_def u64_max_def)
  have known: "\<forall>k. qp_known_total req = Some k \<longrightarrow> k = pos + length (drop pos ?rows)"
    unfolding length_drop le_add_diff_inverse [OF pos] by (rule req(7))
  obtain qs where qs: "page_query_loop lib ident flt req transform ?r (query_scan_start req) = Inr qs"
    and result: "page_result transform ?p (drop pos ?rows) pos ?f qs"
    using page_query_loop_result [OF ok rows page_inv_start [OF req(3,4)] u64 req(5,6) known] by blast
  obtain k where k: "k \<le> length (drop pos ?rows)"
    "qs_selected qs = map (row_of transform) (filter ?p (take k (drop pos ?rows)))"
    "qs_continuation qs = continuation_at ?p (drop pos ?rows) pos ?f k"
    "if qs_truncated qs then 0 < k else filter ?p (drop k (drop pos ?rows)) = []"
    using result unfolding page_result_def by blast
  have run: "page_query_file_from_cursor lib pieces_of content ident flt req transform =
      page_query_finish lib ident flt req qs"
    using qs req(2) by (simp add: page_query_file_from_cursor_def)
  have pos_k: "pos + k \<le> length ?rows" using k(1) pos by simp
  show ?thesis
  proof (cases "qs_truncated qs")
    case True
    then have k0: "0 < k" using k(4) by simp
    let ?at = "the (continuation_at ?p ?rows 0 0 (pos + k))"
    obtain encoded where encoded: "query_cursor lib ident flt ?at = Inr encoded"
      using query_cursor_encodes by blast
    have "qs_continuation qs = Some ?at"
      using k(3) k0 continuation_at_drop [OF k0 pos_k] by (simp add: continuation_at_def)
    then show ?thesis
      using run True k(2) k0 pos_k encoded
      by (auto simp: page_query_finish_def Let_def query_text_def)
  next
    case False
    then have "filter ?p (drop (pos + k) ?rows) = []" using k(4) by (simp add: add.commute)
    then show ?thesis using run False k(2) pos_k by (auto simp: page_query_finish_def Let_def)
  qed
qed

definition query_ok ::
  "cursor_lib \<Rightarrow> (string \<Rightarrow> string list) \<Rightarrow> string \<Rightarrow> nat option \<Rightarrow> page_request \<Rightarrow> bool"
where
  "query_ok lib pieces_of content known req \<longleftrightarrow>
     cursor_lib_ok lib \<and> reads_ok pieces_of \<and> int (length content) \<le> i64_max \<and> pr_item_limit req \<le> 10000 \<and>
     (known = None \<or> known = Some (length (file_rows content)))"

interpretation query_pages: paged_listing
  "\<lambda>req. query_rows_page lib pieces_of (Some content) ident flt known req transform" "file_rows content"
  "row_matches transform flt" "row_of transform" "query_text lib ident flt transform content"
  "query_ok lib pieces_of content known"
  for lib pieces_of content ident flt known transform
proof
  fix req pos
  assume ok: "query_ok lib pieces_of content known req" and pos: "pos \<le> length (file_rows content)"
    and cursor: "pr_cursor req =
      (if pos = 0 then None else Some (query_text lib ident flt transform content pos))"
  let ?rows = "file_rows content" and ?p = "row_matches transform flt"
  have lib: "cursor_lib_ok lib" and reads: "reads_ok pieces_of" and size: "int (length content) \<le> i64_max"
    and known: "known = None \<or> known = Some (length ?rows)"
    using ok by (auto simp: query_ok_def)
  obtain il sl where limits: "page_limits 100 10000 req = Some (il, sl)"
    using page_limits_Some [of req 10000 100] ok by (auto simp: query_ok_def)
  have bounds: "0 < il" "0 < sl" using page_limits_bounds [OF limits] by simp_all
  define file_req where "file_req =
    \<lparr>qp_start_offset = (if pos = 0 then 0 else bl_end_offset (?rows ! (pos - 1))), qp_start_ordinal = pos,
     qp_prior_total = pos, qp_prior_filtered = length (filter ?p (take pos ?rows)),
     qp_item_limit = il, qp_scan_limit = sl, qp_known_total = known\<rparr>"
  have "sat_add (pos - 1) 1 = pos" if "0 < pos"
    using that pos size length_rows_from [of QUERY_LINE_LIMIT 0 0 content]
    by (simp add: file_rows_def i64_max_def u64_max_def)
  then have "query_rows_page lib pieces_of (Some content) ident flt known req transform =
      Some (page_query_file_from_cursor lib pieces_of content ident flt file_req transform)"
    using cursor limits query_text_decodes [OF lib size _ pos, of ident flt transform]
    by (cases "pos = 0")
      (simp_all add: query_rows_page_def file_req_def page_query_file_def file_cursor_new_def)
  moreover have "\<exists>pg k. page_query_file_from_cursor lib pieces_of content ident flt file_req transform = Inr pg \<and>
      pos + k \<le> length ?rows \<and> pg_items pg = map (row_of transform) (filter ?p (take k (drop pos ?rows))) \<and>
      (pg_next_cursor pg = None \<and> filter ?p (drop (pos + k) ?rows) = [] \<or>
       0 < k \<and> pg_next_cursor pg = Some (query_text lib ident flt transform content (pos + k)))"
    by (rule page_from_position [OF lib reads size pos]) (use bounds known in \<open>auto simp: file_req_def\<close>)
  ultimately show "\<exists>pg k. query_rows_page lib pieces_of (Some content) ident flt known req transform =
        Some (Inr pg) \<and>
      pos + k \<le> length ?rows \<and> pg_items pg = map (row_of transform) (filter ?p (take k (drop pos ?rows))) \<and>
      (pg_next_cursor pg = None \<and> filter ?p (drop (pos + k) ?rows) = [] \<or>
       0 < k \<and> pg_next_cursor pg = Some (query_text lib ident flt transform content (pos + k)))"
    by simp
qed (simp add: query_ok_def)

text \<open>The rows are counted without decoding them.\<close>

lemma count_loop_spec:
  assumes "pieces_ok pieces" and "n + length (concat pieces) < u64_max"
  shows "count_loop pieces n saw last_byte =
    n + length (filter (\<lambda>byte. byte = newline) (concat pieces)) +
    (if concat pieces = [] then (if saw \<and> last_byte \<noteq> newline then 1 else 0)
     else if last (concat pieces) \<noteq> newline then 1 else 0)"
  using assms
proof (induction pieces arbitrary: n saw last_byte)
  case (Cons piece pieces)
  have piece: "piece \<noteq> []" and ok: "pieces_ok pieces" using Cons.prems(1) by (auto simp: pieces_ok_def)
  let ?m = "length (filter (\<lambda>byte. byte = newline) piece)"
  have m: "?m \<le> length piece" by simp
  have "?m \<le> u64_max" "n + ?m \<le> u64_max"
    using m Cons.prems(2) unfolding concat.simps length_append by linarith+
  then have "sat_add n (min ?m u64_max) = n + ?m" by simp
  moreover have "n + ?m + length (concat pieces) < u64_max"
    using m Cons.prems(2) unfolding concat.simps length_append by linarith
  ultimately show ?case
    using piece Cons.IH [OF ok, of "n + ?m" True "last piece"] by (auto simp: last_append)
qed simp

lemma position_None: "position p xs = None \<longleftrightarrow> filter p xs = []"
  by (induction xs) auto

lemma position_filter:
  "position p xs = Some i \<Longrightarrow> length (filter p xs) = Suc (length (filter p (drop (Suc i) xs)))"
  by (induction xs arbitrary: i) (auto split: if_splits)

lemma position_last: "position p xs = Some i \<Longrightarrow> drop (Suc i) xs = [] \<Longrightarrow> p (last xs)"
  by (induction xs arbitrary: i) (auto split: if_splits)

lemma length_file_rows:
  "length (rows_from limit ordinal offset bs) =
     length (filter (\<lambda>byte. byte = newline) bs) + (if bs \<noteq> [] \<and> last bs \<noteq> newline then 1 else 0)"
proof (induction limit ordinal offset bs rule: rows_from.induct)
  case (1 limit ordinal offset bs)
  show ?case
  proof (cases "bs = []")
    case bs: False
    show ?thesis
    proof (cases "position (\<lambda>byte. byte = newline) bs")
      case None
      then have "filter (\<lambda>byte. byte = newline) bs = []" by (simp add: position_None)
      moreover from this have "last bs \<noteq> newline" using bs by (auto simp: filter_empty_conv)
      ultimately show ?thesis using None bs by (subst rows_from.simps) simp
    next
      case (Some pos)
      then show ?thesis
        using 1 [OF bs Some] bs position_filter [OF Some] position_last [OF Some]
        by (subst rows_from.simps) (auto simp: last_drop not_le)
    qed
  qed simp
qed

text \<open>
  C26: Following the cursors of a query result delivers every row of the captured output that
  contains the filter exactly once, in order and with its number, whatever the limits of the
  request and however the reads cut the file. A total that is known from the summary changes
  nothing, as long as it is the number of rows.
\<close>

theorem query_rows_complete:
  assumes "cursor_lib_ok lib" and "reads_ok pieces_of" and "int (length content) \<le> i64_max"
    and "known = None \<or> known = Some (length (file_rows content))"
    and "pr_cursor req = None" and "pr_item_limit req \<le> 10000" and "length (file_rows content) < fuel"
  shows "follow_pages (\<lambda>req. query_rows_page lib pieces_of (Some content) ident flt known req transform) fuel req =
    Some (Inr (map (row_of transform) (filter (row_matches transform flt) (file_rows content))))"
  using assms by (intro query_pages.follow_all) (simp_all add: query_ok_def)

definition one_read :: "string \<Rightarrow> string list" where
  "one_read bs = (if bs = [] then [] else [bs])"

lemma one_read_ok: "reads_ok one_read"
  by (simp add: reads_ok_def one_read_def pieces_ok_def)

theorem query_rows_complete_witness:
  "follow_pages (\<lambda>req. query_rows_page memory_lib one_read (Some [CHR ''a'', newline, CHR ''b'']) ''q'' None
      (Some 2) req (\<lambda>s. s)) 3 (page_request_new None 1) =
     Some (Inr [\<lparr>qr_ordinal = 0, qr_value = ''a''\<rparr>, \<lparr>qr_ordinal = 1, qr_value = ''b''\<rparr>])"
proof -
  have rows: "file_rows [CHR ''a'', newline, CHR ''b''] =
      [\<lparr>bl_end_offset = 2, bl_ordinal = 0, bl_value = ''a''\<rparr>, \<lparr>bl_end_offset = 3, bl_ordinal = 1, bl_value = ''b''\<rparr>]"
    by (simp add: file_rows_def rows_from.simps newline_def row_text_def strip_return_def QUERY_LINE_LIMIT_def
        utf8_step_def utf8_ranges_def)
  then show ?thesis
    using query_rows_complete [OF memory_lib_ok one_read_ok, of "[CHR ''a'', newline, CHR ''b'']" "Some 2"
        "page_request_new None 1" 3 "''q''" None "\<lambda>s. s"]
    by (simp add: i64_max_def page_request_new_def page_request_default_def row_matches_def row_of_def)
qed

text \<open>
  Counting the newlines of the captured output, without decoding it and however the reads cut
  it, gives the number of rows that paging delivers, also when the last line is not ended.
\<close>

theorem count_query_file_rows:
  assumes "reads_ok pieces_of" and "length content < u64_max"
  shows "count_query_file (Some (pieces_of content)) = length (file_rows content)"
  using assms count_loop_spec [of "pieces_of content" 0 False newline]
  by (auto simp: count_query_file_def file_rows_def length_file_rows reads_ok_def simp del: concat_eq_Nil_conv)

end
