(* ===== verification/Bes_Capture.thy ===== *)
theory Bes_Capture
  imports Bep_Framing "HOL-Library.Finite_Map"
begin

text \<open>
  The loopback Build Event Service (\<^verbatim>\<open>bazel-mcp-bes/src/server.rs\<close>): a stream of build-tool events
  is checked, framed, forwarded to the capture of its invocation in batches, and acknowledged to
  Bazel once the capture has accepted it.

  The messages are what the generated accessors return. What happens outside is an argument: the
  answer of the capture to every forwarded item, and whether the client still takes a response.
  The trace records forwarding, acceptance and responses in their order.
\<close>

unbundle bit_operations_syntax

section \<open>Constants and data\<close>

definition BAZEL_EVENT_TYPE_SUFFIX :: string where
  "BAZEL_EVENT_TYPE_SUFFIX = ''/build_event_stream.BuildEvent''"

definition MAX_STREAM_ID_FIELD_BYTES :: nat where
  "MAX_STREAM_ID_FIELD_BYTES = 128"

definition MAX_TYPE_URL_BYTES :: nat where
  "MAX_TYPE_URL_BYTES = 256"

definition CAPTURE_BATCH_MAX_EVENTS :: nat where
  "CAPTURE_BATCH_MAX_EVENTS = 64"

definition CAPTURE_BATCH_MAX_BYTES :: nat where
  "CAPTURE_BATCH_MAX_BYTES = 1024 * 1024"

record capture_stats =
  cs_event_count :: nat
  cs_bep_bytes :: nat

definition capture_stats_default :: capture_stats where
  "capture_stats_default = \<lparr>cs_event_count = 0, cs_bep_bytes = 0\<rparr>"

text \<open>The failures of a capture, one constructor per message of the code.\<close>

datatype capture_failure =
    OmittedOrderedEvent
  | OmittedStreamId
  | OmittedBuildEvent
  | StreamIdTooLong
  | StreamIdChanged
  | RequestCountExceeded
  | SequenceMismatch int int
  | SequenceOverflow
  | RequestAfterFinished
  | UnexpectedTypeUrl
  | FrameTooLong nat
  | StreamBytesExceeded nat
  | EventCountExceeded
  | UnsupportedFinish int
  | ReceiveFailed
  | ReceiverClosed
  | AcknowledgementClosed
  | CaptureRejected string
  | ClientStopped
  | EndedUnfinished
  | AlreadyActive

datatype bes_error =
    DuplicateInvocation string
  | RegistryPoisoned
  | CaptureFailed capture_failure
  | CaptureTimeout
  | CaptureClosed
  | EventStreamTaken

record stream_id =
  build_id :: string
  stream_invocation_id :: string
  component :: int

datatype bes_event_view =
    BazelEvent string "byte list"
  | ComponentStreamFinished int

record ordered_event_view =
  oe_stream_id :: "stream_id option"
  oe_sequence_number :: int
  oe_event :: "bes_event_view option option"

type_synonym bes_request = "ordered_event_view option"

record bes_response =
  rs_stream_id :: stream_id
  rs_sequence_number :: int

datatype bes_item = Frames "byte list list" | Finished

text \<open>\<^verbatim>\<open>framed_events\<close> and \<^verbatim>\<open>is_finished\<close> of an item.\<close>

fun framed_events :: "bes_item \<Rightarrow> byte list list option" where
  "framed_events (Frames events) = Some events"
| "framed_events Finished = None"

definition is_finished :: "bes_item \<Rightarrow> bool" where
  "is_finished item = (item = Finished)"

text \<open>What the outside does: the capture answers an item, the client takes a response.\<close>

datatype item_answer = Closed | Dropped | Answered "(unit, string) result"

record bes_world =
  w_answer :: "bes_item list \<Rightarrow> bes_item \<Rightarrow> item_answer"
  w_client :: "bes_response list \<Rightarrow> bool"

datatype bes_action = Forwarded bes_item | Accepted bes_item | Responded bes_response

fun forwarded_items :: "bes_action list \<Rightarrow> bes_item list" where
  "forwarded_items [] = []"
| "forwarded_items (Forwarded item # tr) = item # forwarded_items tr"
| "forwarded_items (_ # tr) = forwarded_items tr"

fun accepted_items :: "bes_action list \<Rightarrow> bes_item list" where
  "accepted_items [] = []"
| "accepted_items (Accepted item # tr) = item # accepted_items tr"
| "accepted_items (_ # tr) = accepted_items tr"

fun responses_of :: "bes_action list \<Rightarrow> bes_response list" where
  "responses_of [] = []"
| "responses_of (Responded r # tr) = r # responses_of tr"
| "responses_of (_ # tr) = responses_of tr"

section \<open>Framing\<close>

text \<open>Writing behind the ten bytes of the buffer panics, \<^const>\<open>None\<close>.\<close>

function encode_varint :: "64 word \<Rightarrow> byte list \<Rightarrow> nat \<Rightarrow> (byte list \<times> nat) option" where
  "encode_varint v buf len =
     (if length buf \<le> len then None
      else if 0x80 \<le> v
      then encode_varint (drop_bit 7 v) (buf[len := (ucast v AND 0x7F) OR 0x80]) (len + 1)
      else Some (buf[len := ucast v], len + 1))"
  by pat_completeness auto

termination
  by (relation "measure (\<lambda>(v, buf, len). length buf - len)") auto

declare encode_varint.simps [simp del]

definition frame_bep_payload ::
  "byte list \<Rightarrow> capture_stats \<Rightarrow> (byte list, capture_failure) result option"
where
  "frame_bep_payload frame stats =
     (if DEFAULT_MAX_FRAME_BYTES < length frame then Some (Inl (FrameTooLong (length frame)))
      else
        (let next_bytes = sat_add (cs_bep_bytes stats) (length frame)
         in if DEFAULT_MAX_STREAM_BYTES < next_bytes then Some (Inl (StreamBytesExceeded next_bytes))
            else if DEFAULT_MAX_STREAM_EVENTS \<le> cs_event_count stats then Some (Inl EventCountExceeded)
            else (case encode_varint (of_nat (length frame)) (replicate 10 0) 0 of
                    None \<Rightarrow> None
                  | Some (buffer, prefix_len) \<Rightarrow> Some (Inr (take prefix_len buffer @ frame)))))"

section \<open>The identity of a stream\<close>

definition identity_from_view :: "stream_id \<Rightarrow> (stream_id, capture_failure) result" where
  "identity_from_view s =
     (if MAX_STREAM_ID_FIELD_BYTES < length (build_id s) \<or>
         MAX_STREAM_ID_FIELD_BYTES < length (stream_invocation_id s)
      then Inl StreamIdTooLong
      else Inr \<lparr>build_id = build_id s, stream_invocation_id = stream_invocation_id s, component = component s\<rparr>)"

definition identity_validate :: "stream_id \<Rightarrow> stream_id \<Rightarrow> (unit, capture_failure) result" where
  "identity_validate ident s =
     (if build_id ident = build_id s \<and> stream_invocation_id ident = stream_invocation_id s \<and>
         component ident = component s
      then Inr () else Inl StreamIdChanged)"

section \<open>Capturing a stream\<close>

record capture =
  cp_expected :: int
  cp_requests :: nat
  cp_stats :: capture_stats
  cp_finished :: bool
  cp_frames :: "byte list list"
  cp_responses :: "bes_response list"
  cp_batch_bytes :: nat
  cp_trace :: "bes_action list"

definition capture_start :: capture where
  "capture_start =
     \<lparr>cp_expected = 1, cp_requests = 0, cp_stats = capture_stats_default, cp_finished = False,
      cp_frames = [], cp_responses = [], cp_batch_bytes = 0, cp_trace = []\<rparr>"

definition forward_capture_event ::
  "bes_world \<Rightarrow> bes_item \<Rightarrow> capture \<Rightarrow> (unit, capture_failure) result \<times> capture"
where
  "forward_capture_event w item cp =
     (case w_answer w (forwarded_items (cp_trace cp)) item of
        Closed \<Rightarrow> (Inl ReceiverClosed, cp)
      | Dropped \<Rightarrow> (Inl AcknowledgementClosed, cp\<lparr>cp_trace := cp_trace cp @ [Forwarded item]\<rparr>)
      | Answered (Inl message) \<Rightarrow>
          (Inl (CaptureRejected message), cp\<lparr>cp_trace := cp_trace cp @ [Forwarded item]\<rparr>)
      | Answered (Inr _) \<Rightarrow>
          (Inr (), cp\<lparr>cp_trace := cp_trace cp @ [Forwarded item, Accepted item]\<rparr>))"

definition send_response ::
  "bes_world \<Rightarrow> bes_response \<Rightarrow> capture \<Rightarrow> (unit, capture_failure) result \<times> capture"
where
  "send_response w r cp =
     (if w_client w (responses_of (cp_trace cp))
      then (Inr (), cp\<lparr>cp_trace := cp_trace cp @ [Responded r]\<rparr>)
      else (Inl ClientStopped, cp))"

fun send_responses ::
  "bes_world \<Rightarrow> bes_response list \<Rightarrow> capture \<Rightarrow> (unit, capture_failure) result \<times> capture"
where
  "send_responses w [] cp = (Inr (), cp)"
| "send_responses w (r # rs) cp =
     (case send_response w r cp of
        (Inl e, cp1) \<Rightarrow> (Inl e, cp1)
      | (Inr _, cp1) \<Rightarrow> send_responses w rs cp1)"

definition flush_capture_batch ::
  "bes_world \<Rightarrow> capture \<Rightarrow> (unit, capture_failure) result \<times> capture"
where
  "flush_capture_batch w cp =
     (if cp_frames cp = [] then (Inr (), cp)
      else (case forward_capture_event w (Frames (cp_frames cp)) (cp\<lparr>cp_frames := []\<rparr>) of
              (Inl e, cp1) \<Rightarrow> (Inl e, cp1)
            | (Inr _, cp1) \<Rightarrow> send_responses w (cp_responses cp1) (cp1\<lparr>cp_responses := []\<rparr>)))"

text \<open>\<^verbatim>\<open>flush_capture_batch(...).await?\<close> followed by \<^verbatim>\<open>pending_batch_bytes = 0\<close>.\<close>

definition flush_and_reset :: "bes_world \<Rightarrow> capture \<Rightarrow> (unit, capture_failure) result \<times> capture" where
  "flush_and_reset w cp =
     (case flush_capture_batch w cp of
        (Inl e, cp1) \<Rightarrow> (Inl e, cp1)
      | (Inr _, cp1) \<Rightarrow> (Inr (), cp1\<lparr>cp_batch_bytes := 0\<rparr>))"

text \<open>A checked request: its event, or why it is refused.\<close>

definition check_request ::
  "stream_id \<Rightarrow> bes_request \<Rightarrow> capture
     \<Rightarrow> (ordered_event_view \<times> bes_event_view option, capture_failure) result"
where
  "check_request ident request cp =
     and_then (ok_or request OmittedOrderedEvent)
       (\<lambda>ordered.
          if sat_add DEFAULT_MAX_STREAM_EVENTS 1 < sat_add (cp_requests cp) 1 then Inl RequestCountExceeded
          else
            and_then (ok_or (oe_stream_id ordered) OmittedStreamId)
              (\<lambda>s. and_then (identity_validate ident s)
                 (\<lambda>_.
                    if oe_sequence_number ordered \<noteq> cp_expected cp
                    then Inl (SequenceMismatch (oe_sequence_number ordered) (cp_expected cp))
                    else
                      and_then (ok_or (oe_event ordered) OmittedBuildEvent)
                        (\<lambda>event. if cp_finished cp then Inl RequestAfterFinished
                                 else Inr (ordered, event)))))"

definition handle_event ::
  "bes_world \<Rightarrow> bes_response \<Rightarrow> bes_event_view option \<Rightarrow> capture
     \<Rightarrow> ((unit, capture_failure) result \<times> capture) option"
where
  "handle_event w response event cp =
     (case event of
        Some (BazelEvent type_url payload) \<Rightarrow>
          if MAX_TYPE_URL_BYTES < length type_url \<or>
             type_url \<noteq> [] \<and> \<not> ends_with type_url BAZEL_EVENT_TYPE_SUFFIX
          then Some (Inl UnexpectedTypeUrl, cp)
          else
            (case frame_bep_payload payload (cp_stats cp) of
               None \<Rightarrow> None
             | Some (Inl e) \<Rightarrow> Some (Inl e, cp)
             | Some (Inr framed) \<Rightarrow>
                 (let cp1 =
                        cp\<lparr>cp_batch_bytes := sat_add (cp_batch_bytes cp) (length framed),
                           cp_frames := cp_frames cp @ [framed],
                           cp_responses := cp_responses cp @ [response],
                           cp_stats :=
                             \<lparr>cs_event_count = sat_add (cs_event_count (cp_stats cp)) 1,
                              cs_bep_bytes = sat_add (cs_bep_bytes (cp_stats cp)) (length payload)\<rparr>\<rparr>
                  in if CAPTURE_BATCH_MAX_EVENTS \<le> length (cp_frames cp1) \<or>
                        CAPTURE_BATCH_MAX_BYTES \<le> cp_batch_bytes cp1
                     then Some (flush_and_reset w cp1)
                     else Some (Inr (), cp1)))
      | Some (ComponentStreamFinished kind) \<Rightarrow>
          if kind \<noteq> 1 then Some (Inl (UnsupportedFinish kind), cp)
          else
            (case flush_and_reset w cp of
               (Inl e, cp1) \<Rightarrow> Some (Inl e, cp1)
             | (Inr _, cp1) \<Rightarrow>
                 (case forward_capture_event w Finished cp1 of
                    (Inl e, cp2) \<Rightarrow> Some (Inl e, cp2)
                  | (Inr _, cp2) \<Rightarrow>
                      (case send_response w response cp2 of
                         (Inl e, cp3) \<Rightarrow> Some (Inl e, cp3)
                       | (Inr _, cp3) \<Rightarrow> Some (Inr (), cp3\<lparr>cp_finished := True\<rparr>))))
      | None \<Rightarrow>
          (case flush_and_reset w cp of
             (Inl e, cp1) \<Rightarrow> Some (Inl e, cp1)
           | (Inr _, cp1) \<Rightarrow> Some (send_response w response cp1)))"

definition handle_request ::
  "bes_world \<Rightarrow> stream_id \<Rightarrow> bes_request \<Rightarrow> capture
     \<Rightarrow> ((unit, capture_failure) result \<times> capture) option"
where
  "handle_request w ident request cp =
     (case check_request ident request cp of
        Inl e \<Rightarrow> Some (Inl e, cp)
      | Inr (ordered, event) \<Rightarrow>
          (case handle_event w \<lparr>rs_stream_id = ident, rs_sequence_number = oe_sequence_number ordered\<rparr> event
                  (cp\<lparr>cp_requests := sat_add (cp_requests cp) 1\<rparr>) of
             None \<Rightarrow> None
           | Some (Inl e, cp1) \<Rightarrow> Some (Inl e, cp1)
           | Some (Inr _, cp1) \<Rightarrow>
               if cp_expected cp1 = i64_max then Some (Inl SequenceOverflow, cp1)
               else Some (Inr (), cp1\<lparr>cp_expected := cp_expected cp1 + 1\<rparr>)))"

text \<open>
  What the select of the loop finds: a request, an error of the transport, or that no request is
  there yet while a batch is pending. The list ends where the client closes the stream.
\<close>

datatype bes_input = Request bes_request | ReceiveError | Idle

fun capture_loop ::
  "bes_world \<Rightarrow> stream_id \<Rightarrow> bes_input list \<Rightarrow> capture
     \<Rightarrow> ((unit, capture_failure) result \<times> capture) option"
where
  "capture_loop w ident [] cp = Some (Inr (), cp)"
| "capture_loop w ident (ReceiveError # rest) cp = Some (Inl ReceiveFailed, cp)"
| "capture_loop w ident (Idle # rest) cp =
     (if cp_frames cp = [] then capture_loop w ident rest cp
      else case flush_and_reset w cp of
             (Inl e, cp1) \<Rightarrow> Some (Inl e, cp1)
           | (Inr _, cp1) \<Rightarrow> capture_loop w ident rest cp1)"
| "capture_loop w ident (Request request # rest) cp =
     (case handle_request w ident request cp of
        None \<Rightarrow> None
      | Some (Inl e, cp1) \<Rightarrow> Some (Inl e, cp1)
      | Some (Inr _, cp1) \<Rightarrow> capture_loop w ident rest cp1)"

definition capture_stream ::
  "bes_world \<Rightarrow> bes_request \<Rightarrow> bes_input list
     \<Rightarrow> ((capture_stats, capture_failure) result \<times> capture) option"
where
  "capture_stream w first rest =
     (case and_then (ok_or first OmittedOrderedEvent)
             (\<lambda>ordered. and_then (ok_or (oe_stream_id ordered) OmittedStreamId) identity_from_view) of
        Inl e \<Rightarrow> Some (Inl e, capture_start)
      | Inr ident \<Rightarrow>
          (case capture_loop w ident (Request first # rest) capture_start of
             None \<Rightarrow> None
           | Some (Inl e, cp) \<Rightarrow> Some (Inl e, cp)
           | Some (Inr _, cp) \<Rightarrow>
               (case flush_capture_batch w cp of
                  (Inl e, cp1) \<Rightarrow> Some (Inl e, cp1)
                | (Inr _, cp1) \<Rightarrow>
                    if \<not> cp_finished cp1 then Some (Inl EndedUnfinished, cp1)
                    else Some (Inr (cp_stats cp1), cp1))))"

section \<open>The registry of captures\<close>

text \<open>Captures are shared by reference; a reference is a number and the states are a store.\<close>

record capture_state =
  ca_active :: bool
  ca_completion :: "(capture_stats, capture_failure) result option"

record registry =
  rg_captures :: "(string, nat) fmap"
  rg_states :: "(nat, capture_state) fmap"
  rg_poisoned :: bool

record bes_capture =
  bc_invocation_id :: string
  bc_state :: nat
  bc_events_taken :: bool

definition fresh_state :: "registry \<Rightarrow> nat" where
  "fresh_state rg = (if rg_states rg = fmempty then 0 else Max (fset (fmdom (rg_states rg))) + 1)"

definition register :: "string \<Rightarrow> registry \<Rightarrow> (bes_capture, bes_error) result \<times> registry" where
  "register ident rg =
     (if rg_poisoned rg then (Inl RegistryPoisoned, rg)
      else case fmlookup (rg_captures rg) ident of
             Some _ \<Rightarrow> (Inl (DuplicateInvocation ident), rg)
           | None \<Rightarrow>
               (let at = fresh_state rg
                in (Inr \<lparr>bc_invocation_id = ident, bc_state = at, bc_events_taken = False\<rparr>,
                    rg\<lparr>rg_captures := fmupd ident at (rg_captures rg),
                       rg_states := fmupd at \<lparr>ca_active = False, ca_completion = None\<rparr> (rg_states rg)\<rparr>)))"

definition take_events :: "bes_capture \<Rightarrow> (unit, bes_error) result \<times> bes_capture" where
  "take_events bc =
     (if bc_events_taken bc then (Inl EventStreamTaken, bc) else (Inr (), bc\<lparr>bc_events_taken := True\<rparr>))"

definition remove_capture :: "bes_capture \<Rightarrow> registry \<Rightarrow> registry" where
  "remove_capture bc rg =
     (if \<not> rg_poisoned rg \<and> fmlookup (rg_captures rg) (bc_invocation_id bc) = Some (bc_state bc)
      then rg\<lparr>rg_captures := fmdrop (bc_invocation_id bc) (rg_captures rg)\<rparr>
      else rg)"

text \<open>
  \<^verbatim>\<open>finish\<close> consumes the capture: it waits for a completion until the timeout, and the capture is
  removed when it is dropped, whatever came first.
\<close>

definition finish_capture ::
  "bool \<Rightarrow> bes_capture \<Rightarrow> registry \<Rightarrow> (capture_stats, bes_error) result \<times> registry"
where
  "finish_capture timed_out bc rg =
     ((case Option.bind (fmlookup (rg_states rg) (bc_state bc)) ca_completion of
         Some (Inr stats) \<Rightarrow> Inr stats
       | Some (Inl e) \<Rightarrow> Inl (CaptureFailed e)
       | None \<Rightarrow> if timed_out then Inl CaptureTimeout else Inl CaptureClosed),
      remove_capture bc rg)"

definition complete ::
  "nat \<Rightarrow> (capture_stats, capture_failure) result \<Rightarrow> registry \<Rightarrow> registry"
where
  "complete at result rg =
     (case fmlookup (rg_states rg) at of
        None \<Rightarrow> rg
      | Some ca \<Rightarrow> rg\<lparr>rg_states := fmupd at (ca\<lparr>ca_completion := Some result\<rparr>) (rg_states rg)\<rparr>)"

datatype grpc_status =
    StatusInvalidArgument | StatusNotFound | StatusAlreadyExists | StatusInternal
  | StatusTransport

definition request_invocation_id :: "bes_request \<Rightarrow> (string, grpc_status) result" where
  "request_invocation_id request =
     and_then (ok_or request StatusInvalidArgument)
       (\<lambda>ordered. and_then (ok_or (oe_stream_id ordered) StatusInvalidArgument)
          (\<lambda>s. if stream_invocation_id s = [] \<or> MAX_STREAM_ID_FIELD_BYTES < length (stream_invocation_id s)
               then Inl StatusInvalidArgument
               else Inr (stream_invocation_id s)))"

text \<open>The header of the call: absent, not ASCII, or a text.\<close>

definition capture_id_from_metadata ::
  "string option option \<Rightarrow> (string option, grpc_status) result"
where
  "capture_id_from_metadata header =
     (case header of
        None \<Rightarrow> Inr None
      | Some None \<Rightarrow> Inl StatusInvalidArgument
      | Some (Some v) \<Rightarrow>
          if v = [] \<or> MAX_STREAM_ID_FIELD_BYTES < length v then Inl StatusInvalidArgument
          else Inr (Some v))"

definition recv_request :: "bes_input list \<Rightarrow> (bes_request \<times> bes_input list, grpc_status) result" where
  "recv_request inputs =
     (case dropWhile (\<lambda>i. i = Idle) inputs of
        [] \<Rightarrow> Inl StatusInvalidArgument
      | Request r # rest \<Rightarrow> Inr (r, rest)
      | _ \<Rightarrow> Inl StatusTransport)"

text \<open>The first half of \<^verbatim>\<open>ingest_stream\<close>: find the capture and claim it.\<close>

definition claim_stream ::
  "string option \<Rightarrow> bes_request \<Rightarrow> registry \<Rightarrow> (nat, grpc_status) result \<times> registry"
where
  "claim_stream capture_id first rg =
     (case (case capture_id of
              Some ident \<Rightarrow>
                if rg_poisoned rg then Inl StatusInternal else Inr (fmlookup (rg_captures rg) ident)
            | None \<Rightarrow>
                and_then (request_invocation_id first)
                  (\<lambda>ident. if rg_poisoned rg then Inl StatusInternal
                           else Inr (fmlookup (rg_captures rg) ident))) of
        Inl status \<Rightarrow> (Inl status, rg)
      | Inr None \<Rightarrow> (Inl StatusNotFound, rg)
      | Inr (Some at) \<Rightarrow>
          (case fmlookup (rg_states rg) at of
             None \<Rightarrow> (Inl StatusNotFound, rg)
           | Some ca \<Rightarrow>
               let rg1 = rg\<lparr>rg_states := fmupd at (ca\<lparr>ca_active := True\<rparr>) (rg_states rg)\<rparr>
               in if ca_active ca then (Inl StatusAlreadyExists, complete at (Inl AlreadyActive) rg1)
                  else (Inr at, rg1)))"

text \<open>
  \<^verbatim>\<open>ingest_stream\<close> with nothing in between; the responses are those of the trace, followed by the
  status if there is one.
\<close>

definition ingest_stream ::
  "bes_world \<Rightarrow> string option \<Rightarrow> bes_input list \<Rightarrow> registry
     \<Rightarrow> (bes_action list \<times> grpc_status option \<times> registry) option"
where
  "ingest_stream w capture_id inputs rg =
     (case recv_request inputs of
        Inl status \<Rightarrow> Some ([], Some status, rg)
      | Inr (first, rest) \<Rightarrow>
          (case claim_stream capture_id first rg of
             (Inl status, rg1) \<Rightarrow> Some ([], Some status, rg1)
           | (Inr at, rg1) \<Rightarrow>
               (case capture_stream w first rest of
                  None \<Rightarrow> None
                | Some (result, cp) \<Rightarrow>
                    Some (cp_trace cp,
                          (case result of Inl _ \<Rightarrow> Some StatusInternal | Inr _ \<Rightarrow> None),
                          complete at result rg1))))"

section \<open>Framing is the framing of the event protocol\<close>

lemma encode_varint_spec:
  "len + length (write_varint v []) \<le> length buf \<Longrightarrow>
   encode_varint v buf len =
     Some (take len buf @ write_varint v [] @ drop (len + length (write_varint v [])) buf,
           len + length (write_varint v []))"
proof (induction v buf len rule: encode_varint.induct)
  case (1 v buf len)
  have pos: "0 < length (write_varint v [])"
    by (cases "0x80 \<le> v") (simp_all add: write_varint_Cons write_varint_single not_le)
  then have len: "\<not> length buf \<le> len" using 1(2) by linarith
  show ?case
  proof (cases "0x80 \<le> v")
    case True
    let ?b = "(ucast v AND 0x7F) OR 0x80 :: byte" and ?w = "write_varint (drop_bit 7 v) []"
    have w: "write_varint v [] = ?b # ?w" using True by (rule write_varint_Cons)
    have "encode_varint v buf len = encode_varint (drop_bit 7 v) (buf[len := ?b]) (len + 1)"
      using True len by (subst encode_varint.simps) simp
    also have "\<dots> = Some (take (len + 1) (buf[len := ?b]) @ ?w @ drop (len + 1 + length ?w) (buf[len := ?b]),
        len + 1 + length ?w)"
      using 1(1) [OF len True] 1(2) w by simp
    also have "take (len + 1) (buf[len := ?b]) = take len buf @ [?b]"
      using len by (simp add: take_Suc_conv_app_nth)
    finally show ?thesis using w by simp
  next
    case False
    then have w: "write_varint v [] = [ucast v]" by (intro write_varint_single) simp
    have "buf[len := ucast v] = take len buf @ ucast v # drop (Suc len) buf"
      using len by (simp add: upd_conv_take_nth_drop)
    then show ?thesis using False len w by (subst encode_varint.simps) simp
  qed
qed

lemma write_varint_ten: "length (write_varint v []) \<le> 10"
proof (rule length_write_varint)
  have "unat v < 2 ^ 64" using unsigned_less [of v, where 'a = nat] by simp
  also have "(2 :: nat) ^ 64 \<le> 2 ^ (7 * 10)" by simp
  finally show "unat v < 2 ^ (7 * 10)" .
qed simp

lemma encode_varint_ten:
  "\<exists>buffer. encode_varint v (replicate 10 0) 0 = Some (buffer, length (write_varint v [])) \<and>
     take (length (write_varint v [])) buffer = write_varint v []"
  using encode_varint_spec [of 0 v "replicate 10 0"] write_varint_ten [of v] by simp

definition frame_failure :: "byte list \<Rightarrow> capture_stats \<Rightarrow> capture_failure option" where
  "frame_failure frame stats =
     (if DEFAULT_MAX_FRAME_BYTES < length frame then Some (FrameTooLong (length frame))
      else if DEFAULT_MAX_STREAM_BYTES < sat_add (cs_bep_bytes stats) (length frame)
      then Some (StreamBytesExceeded (sat_add (cs_bep_bytes stats) (length frame)))
      else if DEFAULT_MAX_STREAM_EVENTS \<le> cs_event_count stats then Some EventCountExceeded
      else None)"

lemma frame_bep_payload_eq:
  "frame_bep_payload frame stats =
     Some (case frame_failure frame stats of Some e \<Rightarrow> Inl e | None \<Rightarrow> Inr (encode_frame frame))"
  using encode_varint_ten [of "of_nat (length frame)"]
  by (auto simp: frame_bep_payload_def frame_failure_def Let_def encode_frame_def)

section \<open>What a trace has accepted and answered\<close>

definition accepted_frames :: "bes_action list \<Rightarrow> byte list list" where
  "accepted_frames tr =
     concat (map (\<lambda>item. case item of Frames fs \<Rightarrow> fs | Finished \<Rightarrow> []) (accepted_items tr))"

lemma accepted_items_append [simp]: "accepted_items (tr @ tr') = accepted_items tr @ accepted_items tr'"
  by (induction tr rule: accepted_items.induct) auto

lemma responses_of_append [simp]: "responses_of (tr @ tr') = responses_of tr @ responses_of tr'"
  by (induction tr rule: responses_of.induct) auto

lemma forwarded_items_append [simp]: "forwarded_items (tr @ tr') = forwarded_items tr @ forwarded_items tr'"
  by (induction tr rule: forwarded_items.induct) auto

lemma accepted_frames_append [simp]: "accepted_frames (tr @ tr') = accepted_frames tr @ accepted_frames tr'"
  by (simp add: accepted_frames_def)

lemma accepted_frames_simps [simp]:
  "accepted_frames [] = []" "accepted_frames [Responded r] = []"
  "accepted_frames [Forwarded item] = []" "accepted_frames [Forwarded item, Accepted (Frames fs)] = fs"
  "accepted_frames [Forwarded item, Accepted Finished] = []"
  by (simp_all add: accepted_frames_def)

text \<open>The payloads of the build events among the events of the requests.\<close>

fun payloads :: "bes_event_view option list \<Rightarrow> byte list list" where
  "payloads [] = []"
| "payloads (Some (BazelEvent url payload) # evs) = payload # payloads evs"
| "payloads (_ # evs) = payloads evs"

lemma payloads_append [simp]: "payloads (xs @ ys) = payloads xs @ payloads ys"
  by (induction xs rule: payloads.induct) auto

definition has_finish :: "bes_event_view option list \<Rightarrow> bool" where
  "has_finish evs \<longleftrightarrow> Some (ComponentStreamFinished 1) \<in> set evs"

definition response_ok :: "bes_event_view option list \<Rightarrow> bes_action list \<Rightarrow> bes_response \<Rightarrow> bool" where
  "response_ok evs tr r \<longleftrightarrow>
     (\<exists>n. rs_sequence_number r = int n \<and> 0 < n \<and> n \<le> length evs \<and>
        prefix (map encode_frame (payloads (take n evs))) (accepted_frames tr) \<and>
        (has_finish (take n evs) \<longrightarrow> Finished \<in> set (accepted_items tr)))"

definition trace_ok :: "bes_event_view option list \<Rightarrow> bes_action list \<Rightarrow> bool" where
  "trace_ok evs tr \<longleftrightarrow> (\<forall>tr1 r tr2. tr = tr1 @ Responded r # tr2 \<longrightarrow> response_ok evs tr1 r)"

lemma trace_ok_Nil [simp]: "trace_ok evs []"
  by (simp add: trace_ok_def)

lemma trace_ok_snoc:
  "trace_ok evs (tr @ [a]) \<longleftrightarrow>
     trace_ok evs tr \<and> (case a of Responded r \<Rightarrow> response_ok evs tr r | _ \<Rightarrow> True)"
proof
  assume *: "trace_ok evs (tr @ [a])"
  have "response_ok evs tr1 r" if "tr = tr1 @ Responded r # tr2" for tr1 r tr2
    using * [unfolded trace_ok_def, rule_format, of tr1 r "tr2 @ [a]"] that by simp
  moreover have "response_ok evs tr r" if "a = Responded r" for r
    using * [unfolded trace_ok_def, rule_format, of tr r "[]"] that by simp
  ultimately show "trace_ok evs tr \<and> (case a of Responded r \<Rightarrow> response_ok evs tr r | _ \<Rightarrow> True)"
    by (auto simp: trace_ok_def split: bes_action.split)
next
  assume *: "trace_ok evs tr \<and> (case a of Responded r \<Rightarrow> response_ok evs tr r | _ \<Rightarrow> True)"
  show "trace_ok evs (tr @ [a])"
    unfolding trace_ok_def
  proof (intro allI impI)
    fix tr1 r tr2
    assume eq: "tr @ [a] = tr1 @ Responded r # tr2"
    show "response_ok evs tr1 r"
    proof (cases tr2 rule: rev_cases)
      case Nil
      then show ?thesis using eq * by auto
    next
      case (snoc tr3 b)
      then show ?thesis using eq * unfolding trace_ok_def by auto
    qed
  qed
qed

lemma response_ok_more: "response_ok evs tr r \<Longrightarrow> response_ok (evs @ more_evs) tr r"
proof -
  assume "response_ok evs tr r"
  then obtain n where n: "rs_sequence_number r = int n" "0 < n" "n \<le> length evs"
    "prefix (map encode_frame (payloads (take n evs))) (accepted_frames tr)"
    "has_finish (take n evs) \<longrightarrow> Finished \<in> set (accepted_items tr)"
    unfolding response_ok_def by blast
  have "take n (evs @ more_evs) = take n evs" using n(3) by simp
  then show ?thesis using n unfolding response_ok_def by (intro exI [of _ n]) simp
qed

lemma trace_ok_more: "trace_ok evs tr \<Longrightarrow> trace_ok (evs @ more_evs) tr"
  unfolding trace_ok_def using response_ok_more by blast

lemma trace_ok_forward: "trace_ok evs (tr @ [Forwarded item]) \<longleftrightarrow> trace_ok evs tr"
  "trace_ok evs (tr @ [Forwarded item, Accepted item']) \<longleftrightarrow> trace_ok evs tr"
  using trace_ok_snoc [of evs "tr @ [Forwarded item]" "Accepted item'"]
  by (simp_all add: trace_ok_snoc)

text \<open>When everything is accepted, every request so far may be answered.\<close>

definition all_accepted :: "bes_event_view option list \<Rightarrow> bes_action list \<Rightarrow> bool" where
  "all_accepted evs tr \<longleftrightarrow>
     accepted_frames tr = map encode_frame (payloads evs) \<and>
     (has_finish evs \<longrightarrow> Finished \<in> set (accepted_items tr))"

lemma all_accepted_response:
  assumes "all_accepted evs tr" and "rs_sequence_number r = int n" and "0 < n" and "n \<le> length evs"
  shows "response_ok evs tr r"
  unfolding response_ok_def
proof (intro exI [of _ n] conjI impI)
  have "payloads evs = payloads (take n evs) @ payloads (drop n evs)"
    by (metis append_take_drop_id payloads_append)
  then show "prefix (map encode_frame (payloads (take n evs))) (accepted_frames tr)"
    using assms(1) by (simp add: all_accepted_def)
  assume "has_finish (take n evs)"
  then have "has_finish evs" by (auto simp: has_finish_def dest: in_set_takeD)
  then show "Finished \<in> set (accepted_items tr)" using assms(1) by (simp add: all_accepted_def)
qed (use assms(2-4) in auto)

definition numbered :: "stream_id \<Rightarrow> nat \<Rightarrow> bes_response" where
  "numbered ident n = \<lparr>rs_stream_id = ident, rs_sequence_number = int n\<rparr>"

fun numbers :: "stream_id \<Rightarrow> nat \<Rightarrow> bes_response list" where
  "numbers ident 0 = []"
| "numbers ident (Suc n) = numbers ident n @ [numbered ident (Suc n)]"

lemma set_numbers: "set (numbers ident n) = numbered ident ` {1..n}"
  by (induction n) (auto simp: atLeastAtMostSuc_conv)

text \<open>
  The state between two requests, and inside one: the accepted and the pending frames are the
  frames of the events, the responses sent and pending are numbered from one.
\<close>

definition capture_inv :: "stream_id \<Rightarrow> bes_event_view option list \<Rightarrow> capture \<Rightarrow> bool" where
  "capture_inv ident evs cp \<longleftrightarrow>
     accepted_frames (cp_trace cp) @ cp_frames cp = map encode_frame (payloads evs) \<and>
     responses_of (cp_trace cp) @ cp_responses cp = numbers ident (length evs) \<and>
     length (cp_responses cp) = length (cp_frames cp) \<and>
     (has_finish evs \<longleftrightarrow> Finished \<in> set (accepted_items (cp_trace cp))) \<and>
     trace_ok evs (cp_trace cp)"

lemma send_responses_spec:
  assumes "all_accepted evs (cp_trace cp)" and "trace_ok evs (cp_trace cp)"
    and "\<forall>r \<in> set rs. \<exists>n. rs_sequence_number r = int n \<and> 0 < n \<and> n \<le> length evs"
    and "send_responses w rs cp = (res, cp')"
  shows "trace_ok evs (cp_trace cp') \<and> accepted_items (cp_trace cp') = accepted_items (cp_trace cp) \<and>
    (res = Inr () \<longrightarrow> cp' = cp\<lparr>cp_trace := cp_trace cp @ map Responded rs\<rparr>)"
  using assms
proof (induction rs arbitrary: cp)
  case (Cons r rs)
  show ?case
  proof (cases "w_client w (responses_of (cp_trace cp))")
    case True
    let ?cp = "cp\<lparr>cp_trace := cp_trace cp @ [Responded r]\<rparr>"
    obtain n where "rs_sequence_number r = int n" "0 < n" "n \<le> length evs" using Cons.prems(3) by auto
    then have "trace_ok evs (cp_trace ?cp)"
      using Cons.prems(1,2) all_accepted_response by (simp add: trace_ok_snoc)
    moreover have "all_accepted evs (cp_trace ?cp)"
      using Cons.prems(1) by (simp add: all_accepted_def)
    moreover have "send_responses w rs ?cp = (res, cp')"
      using True Cons.prems(4) by (simp add: send_response_def)
    ultimately show ?thesis using Cons.IH [of ?cp] Cons.prems(3) by auto
  next
    case False
    then show ?thesis using Cons.prems by (auto simp: send_response_def)
  qed
qed auto

lemma flush_spec:
  assumes inv: "capture_inv ident evs cp" and run: "flush_capture_batch w cp = (res, cp')"
  shows "trace_ok evs (cp_trace cp') \<and>
    (res = Inr () \<longrightarrow> capture_inv ident evs cp' \<and> cp_frames cp' = [] \<and> cp_responses cp' = [] \<and>
       all_accepted evs (cp_trace cp') \<and> cp_expected cp' = cp_expected cp \<and> cp_requests cp' = cp_requests cp \<and>
       cp_stats cp' = cp_stats cp \<and> cp_finished cp' = cp_finished cp)"
proof (cases "cp_frames cp = []")
  case True
  then show ?thesis using assms by (auto simp: flush_capture_batch_def capture_inv_def all_accepted_def)
next
  case False
  let ?item = "Frames (cp_frames cp)"
  let ?tr = "cp_trace cp @ [Forwarded ?item, Accepted ?item]"
  consider "w_answer w (forwarded_items (cp_trace cp)) ?item = Answered (Inr ())"
    | "w_answer w (forwarded_items (cp_trace cp)) ?item \<noteq> Answered (Inr ())" by blast
  then show ?thesis
  proof cases
    case 1
    let ?cp = "cp\<lparr>cp_frames := [], cp_trace := ?tr, cp_responses := []\<rparr>"
    have all: "all_accepted evs ?tr" and tr: "trace_ok evs ?tr"
      using inv by (auto simp: capture_inv_def all_accepted_def trace_ok_forward)
    have rs: "responses_of (cp_trace cp) @ cp_responses cp = numbers ident (length evs)"
      using inv by (simp add: capture_inv_def)
    then have "set (cp_responses cp) \<subseteq> numbered ident ` {1..length evs}"
      by (metis set_append Un_upper2 set_numbers)
    then have numbers: "\<forall>r \<in> set (cp_responses cp). \<exists>n. rs_sequence_number r = int n \<and> 0 < n \<and> n \<le> length evs"
      by (fastforce simp: numbered_def)
    have "send_responses w (cp_responses cp) ?cp = (res, cp')"
      using run 1 False by (simp add: flush_capture_batch_def forward_capture_event_def)
    then have "trace_ok evs (cp_trace cp') \<and> accepted_items (cp_trace cp') = accepted_items ?tr \<and>
        (res = Inr () \<longrightarrow> cp' = ?cp\<lparr>cp_trace := ?tr @ map Responded (cp_responses cp)\<rparr>)"
      using send_responses_spec [of evs ?cp "cp_responses cp" w res cp'] all tr numbers by simp
    moreover have "responses_of (map Responded xs) = xs" "accepted_items (map Responded xs) = []" for xs
      by (induction xs) auto
    ultimately show ?thesis
      using all inv rs by (auto simp: capture_inv_def all_accepted_def accepted_frames_def)
  next
    case 2
    then have "res \<noteq> Inr () \<and> (cp_trace cp' = cp_trace cp \<or> cp_trace cp' = cp_trace cp @ [Forwarded ?item])"
      using run False
      by (auto simp: flush_capture_batch_def forward_capture_event_def split: item_answer.splits sum.splits)
    then show ?thesis using inv by (auto simp: capture_inv_def trace_ok_forward)
  qed
qed

definition stats_of :: "bes_event_view option list \<Rightarrow> capture_stats" where
  "stats_of evs =
     \<lparr>cs_event_count = length (payloads evs), cs_bep_bytes = sum_list (map length (payloads evs))\<rparr>"

definition frames_fit :: "bes_event_view option list \<Rightarrow> bool" where
  "frames_fit evs \<longleftrightarrow> list_all (\<lambda>payload. length payload \<le> DEFAULT_MAX_FRAME_BYTES) (payloads evs)"

lemma frames_fit_append [simp]: "frames_fit (xs @ ys) \<longleftrightarrow> frames_fit xs \<and> frames_fit ys"
  by (simp add: frames_fit_def)

lemma frames_fit_simps [simp]:
  "frames_fit []" "frames_fit [None]" "frames_fit [Some (ComponentStreamFinished kind)]"
  "frames_fit [Some (BazelEvent url payload)] \<longleftrightarrow> length payload \<le> DEFAULT_MAX_FRAME_BYTES"
  by (simp_all add: frames_fit_def)

text \<open>Between two requests also the counters are exact.\<close>

definition loop_inv :: "stream_id \<Rightarrow> bes_event_view option list \<Rightarrow> capture \<Rightarrow> bool" where
  "loop_inv ident evs cp \<longleftrightarrow>
     capture_inv ident evs cp \<and> cp_expected cp = int (length evs) + 1 \<and>
     cp_requests cp = length evs \<and> length evs \<le> DEFAULT_MAX_STREAM_EVENTS + 1 \<and>
     cp_stats cp = stats_of evs \<and> cs_bep_bytes (stats_of evs) \<le> DEFAULT_MAX_STREAM_BYTES \<and>
     cs_event_count (stats_of evs) \<le> DEFAULT_MAX_STREAM_EVENTS \<and>
     frames_fit evs \<and> cp_finished cp = has_finish evs \<and>
     (has_finish evs \<longrightarrow> last evs = Some (ComponentStreamFinished 1) \<and> \<not> has_finish (butlast evs))"

lemma loop_inv_start: "loop_inv ident [] capture_start"
  by (simp add: loop_inv_def capture_inv_def capture_start_def has_finish_def stats_of_def capture_stats_default_def)

lemma capture_inv_stats [simp]:
  "capture_inv ident evs (cp\<lparr>cp_batch_bytes := b\<rparr>) = capture_inv ident evs cp"
  "capture_inv ident evs (cp\<lparr>cp_requests := n\<rparr>) = capture_inv ident evs cp"
  "capture_inv ident evs (cp\<lparr>cp_expected := m\<rparr>) = capture_inv ident evs cp"
  "capture_inv ident evs (cp\<lparr>cp_finished := x\<rparr>) = capture_inv ident evs cp"
  by (simp_all add: capture_inv_def)

lemma flush_and_reset_spec:
  assumes "capture_inv ident evs cp" and "flush_and_reset w cp = (res, cp')"
  shows "trace_ok evs (cp_trace cp') \<and>
    (res = Inr () \<longrightarrow> capture_inv ident evs cp' \<and> cp_frames cp' = [] \<and> cp_responses cp' = [] \<and>
       all_accepted evs (cp_trace cp') \<and> cp_expected cp' = cp_expected cp \<and> cp_requests cp' = cp_requests cp \<and>
       cp_stats cp' = cp_stats cp \<and> cp_finished cp' = cp_finished cp)"
proof -
  obtain r cp1 where run: "flush_capture_batch w cp = (r, cp1)" by fastforce
  show ?thesis
    using flush_spec [OF assms(1) run] assms(2) run by (cases r) (auto simp: flush_and_reset_def)
qed

lemma has_finish_snoc [simp]: "has_finish (evs @ [ev]) \<longleftrightarrow> has_finish evs \<or> ev = Some (ComponentStreamFinished 1)"
  by (auto simp: has_finish_def)

text \<open>A build event joins the batch.\<close>

lemma capture_inv_bazel:
  assumes "capture_inv ident evs cp"
  shows "capture_inv ident (evs @ [Some (BazelEvent url payload)])
    (cp\<lparr>cp_batch_bytes := b, cp_frames := cp_frames cp @ [encode_frame payload],
       cp_responses := cp_responses cp @ [numbered ident (Suc (length evs))], cp_stats := s\<rparr>)"
  using assms trace_ok_more [of evs "cp_trace cp"]
  by (simp add: capture_inv_def)

text \<open>An event that is answered at once, after everything before it has been accepted.\<close>

lemma capture_inv_answered:
  assumes inv: "capture_inv ident evs cp" and frames: "cp_frames cp = []" "cp_responses cp = []"
    and all: "all_accepted (evs @ [ev]) tr" and tr: "tr = cp_trace cp @ items" "responses_of items = []"
    and items: "trace_ok (evs @ [ev]) tr" "accepted_frames items = []"
      "has_finish (evs @ [ev]) \<longleftrightarrow> Finished \<in> set (accepted_items tr)"
  shows "capture_inv ident (evs @ [ev])
    (cp\<lparr>cp_trace := tr @ [Responded (numbered ident (Suc (length evs)))]\<rparr>)"
proof -
  have "response_ok (evs @ [ev]) tr (numbered ident (Suc (length evs)))"
    by (rule all_accepted_response [OF all, of _ "Suc (length evs)"]) (simp_all add: numbered_def)
  then have "trace_ok (evs @ [ev]) (tr @ [Responded (numbered ident (Suc (length evs)))])"
    using items(1) by (simp add: trace_ok_snoc)
  then show ?thesis
    using inv frames all tr items
    by (simp add: capture_inv_def all_accepted_def)
qed

lemma handle_event_total: "handle_event w response ev cp \<noteq> None"
  by (auto simp: handle_event_def frame_bep_payload_eq Let_def
      split: option.splits bes_event_view.splits prod.splits sum.splits)

text \<open>The next event, whatever it is: the trace stays right, and success keeps the invariant.\<close>

definition handled ::
  "stream_id \<Rightarrow> bes_event_view option list \<Rightarrow> bes_event_view option \<Rightarrow> capture
     \<Rightarrow> (unit, capture_failure) result \<Rightarrow> capture \<Rightarrow> bool"
where
  "handled ident evs ev cp res cp' \<longleftrightarrow>
     trace_ok (evs @ [ev]) (cp_trace cp') \<and>
     (res = Inr () \<longrightarrow> capture_inv ident (evs @ [ev]) cp' \<and> cp_expected cp' = cp_expected cp \<and>
        cp_requests cp' = cp_requests cp \<and> cp_stats cp' = stats_of (evs @ [ev]) \<and>
        cs_bep_bytes (stats_of (evs @ [ev])) \<le> max (cs_bep_bytes (stats_of evs)) DEFAULT_MAX_STREAM_BYTES \<and>
        cs_event_count (stats_of (evs @ [ev])) \<le> max (cs_event_count (stats_of evs)) DEFAULT_MAX_STREAM_EVENTS \<and>
        frames_fit [ev] \<and> cp_finished cp' = has_finish (evs @ [ev]))"

lemma handle_event_bazel:
  assumes inv: "capture_inv ident evs cp" and fin: "cp_finished cp = has_finish evs" "\<not> has_finish evs"
    and stats: "cp_stats cp = stats_of evs"
    and run: "handle_event w (numbered ident (Suc (length evs))) ev cp = Some (res, cp')"
    and bazel: "ev = Some (BazelEvent url payload)"
  shows "handled ident evs ev cp res cp'"
  supply handled_def [simp]
proof -
  have old: "trace_ok (evs @ [ev]) (cp_trace cp)"
    using inv trace_ok_more by (simp add: capture_inv_def)
  let ?evs = "evs @ [Some (BazelEvent url payload)]"
  show ?thesis
  proof (cases "(MAX_TYPE_URL_BYTES < length url \<or> url \<noteq> [] \<and> \<not> ends_with url BAZEL_EVENT_TYPE_SUFFIX) \<or>
      frame_failure payload (cp_stats cp) \<noteq> None")
    case True
    then have "res \<noteq> Inr () \<and> cp' = cp"
      using run bazel by (auto simp: handle_event_def frame_bep_payload_eq split: option.splits if_splits)
    then show ?thesis using old by simp
  next
    case False
    define cp1 where "cp1 = cp\<lparr>cp_batch_bytes := sat_add (cp_batch_bytes cp) (length (encode_frame payload)),
        cp_frames := cp_frames cp @ [encode_frame payload],
        cp_responses := cp_responses cp @ [numbered ident (Suc (length evs))],
        cp_stats := \<lparr>cs_event_count = sat_add (cs_event_count (cp_stats cp)) 1,
          cs_bep_bytes = sat_add (cs_bep_bytes (cp_stats cp)) (length payload)\<rparr>\<rparr>"
    have inv1: "capture_inv ident ?evs cp1" unfolding cp1_def by (rule capture_inv_bazel [OF inv])
    have sums: "cs_bep_bytes (stats_of evs) + length payload \<le> DEFAULT_MAX_STREAM_BYTES"
      "cs_event_count (stats_of evs) < DEFAULT_MAX_STREAM_EVENTS"
      using False stats by (auto simp: frame_failure_def sat_add_def DEFAULT_MAX_STREAM_BYTES_def u64_max_def
          min_def split: if_splits)
    have "sat_add (cs_event_count (stats_of evs)) 1 = cs_event_count (stats_of evs) + 1"
      "sat_add (cs_bep_bytes (stats_of evs)) (length payload) = cs_bep_bytes (stats_of evs) + length payload"
      using sums by (simp_all add: DEFAULT_MAX_STREAM_BYTES_def DEFAULT_MAX_STREAM_EVENTS_def u64_max_def)
    then have stats1: "cp_stats cp1 = stats_of ?evs"
      unfolding cp1_def using stats by (simp add: stats_of_def)
    have same: "cp_expected cp1 = cp_expected cp" "cp_requests cp1 = cp_requests cp" "cp_finished cp1 = cp_finished cp"
      by (simp_all add: cp1_def)
    have bounds: "cs_bep_bytes (stats_of ?evs) \<le> DEFAULT_MAX_STREAM_BYTES"
      "cs_event_count (stats_of ?evs) \<le> DEFAULT_MAX_STREAM_EVENTS"
      "length payload \<le> DEFAULT_MAX_FRAME_BYTES"
      using sums False by (auto simp: stats_of_def frame_failure_def split: if_splits)
    have fin1: "cp_finished cp = has_finish ?evs" using fin by simp
    have frame: "frame_bep_payload payload (cp_stats cp) = Some (Inr (encode_frame payload))"
      using False by (simp add: frame_bep_payload_eq)
    have "handle_event w (numbered ident (Suc (length evs))) ev cp =
        (if CAPTURE_BATCH_MAX_EVENTS \<le> length (cp_frames cp1) \<or> CAPTURE_BATCH_MAX_BYTES \<le> cp_batch_bytes cp1
         then Some (flush_and_reset w cp1) else Some (Inr (), cp1))"
      using False bazel frame unfolding handle_event_def by (auto simp: Let_def cp1_def)
    then consider "flush_and_reset w cp1 = (res, cp')" | "res = Inr ()" "cp' = cp1"
      using run by (auto split: if_splits)
    then show ?thesis
    proof cases
      case 1
      then show ?thesis
        using flush_and_reset_spec [OF inv1] stats1 same bounds fin1 bazel by auto
    next
      case 2
      then show ?thesis using inv1 stats1 same bounds fin1 bazel by (auto simp: capture_inv_def)
    qed
  qed
qed

lemma handle_event_finish:
  assumes inv: "capture_inv ident evs cp" and fin: "cp_finished cp = has_finish evs" "\<not> has_finish evs"
    and stats: "cp_stats cp = stats_of evs"
    and run: "handle_event w (numbered ident (Suc (length evs))) ev cp = Some (res, cp')"
    and finish: "ev = Some (ComponentStreamFinished kind)"
  shows "handled ident evs ev cp res cp'"
  supply handled_def [simp]
proof -
  have old: "trace_ok (evs @ [ev]) (cp_trace cp)"
    using inv trace_ok_more by (simp add: capture_inv_def)
  show ?thesis
  proof (cases "kind = 1")
    case False
    then have "res \<noteq> Inr () \<and> cp' = cp" using run finish by (auto simp: handle_event_def)
    then show ?thesis using old by simp
  next
    case True
    obtain r1 cp1 where flush: "flush_and_reset w cp = (r1, cp1)" by fastforce
    note flushed = flush_and_reset_spec [OF inv flush]
    show ?thesis
    proof (cases r1)
      case (Inl e)
      then have "res \<noteq> Inr () \<and> cp' = cp1" using run finish True flush by (auto simp: handle_event_def)
      then show ?thesis using flushed trace_ok_more by simp
    next
      case (Inr u)
      then have inv1: "capture_inv ident evs cp1" "cp_frames cp1 = []" "cp_responses cp1 = []"
        "all_accepted evs (cp_trace cp1)" and same: "cp_expected cp1 = cp_expected cp" "cp_requests cp1 = cp_requests cp"
        "cp_stats cp1 = cp_stats cp"
        using flushed by auto
      let ?tr = "cp_trace cp1 @ [Forwarded Finished, Accepted Finished]"
      have tr1: "trace_ok (evs @ [ev]) (cp_trace cp1)" using flushed trace_ok_more by simp
      have all: "all_accepted (evs @ [ev]) ?tr"
        using inv1(4) finish by (auto simp: all_accepted_def)
      have ok: "trace_ok (evs @ [ev]) ?tr" using tr1 by (simp add: trace_ok_forward)
      consider (accepted) "w_answer w (forwarded_items (cp_trace cp1)) Finished = Answered (Inr ())"
          "w_client w (responses_of ?tr)"
        | (stopped) "w_answer w (forwarded_items (cp_trace cp1)) Finished = Answered (Inr ())"
          "\<not> w_client w (responses_of ?tr)"
        | (refused) "w_answer w (forwarded_items (cp_trace cp1)) Finished \<noteq> Answered (Inr ())" by blast
      then show ?thesis
      proof cases
        case accepted
        let ?cp = "cp1\<lparr>cp_trace := ?tr @ [Responded (numbered ident (Suc (length evs)))]\<rparr>"
        have inv2: "capture_inv ident (evs @ [ev]) ?cp"
          by (rule capture_inv_answered [OF inv1(1-3) all refl]) (use ok finish True in auto)
        have "res = Inr ()" "cp' = ?cp\<lparr>cp_finished := True\<rparr>"
          using run finish True flush Inr accepted
          by (auto simp: handle_event_def forward_capture_event_def send_response_def)
        moreover have "stats_of (evs @ [ev]) = stats_of evs" using finish by (simp add: stats_of_def)
        ultimately show ?thesis using inv2 same stats finish True by (auto simp: capture_inv_def)
      next
        case stopped
        then have "res \<noteq> Inr ()" "cp_trace cp' = ?tr"
          using run finish True flush Inr
          by (auto simp: handle_event_def forward_capture_event_def send_response_def)
        then show ?thesis using ok by simp
      next
        case refused
        then have "res \<noteq> Inr () \<and> (cp_trace cp' = cp_trace cp1 \<or> cp_trace cp' = cp_trace cp1 @ [Forwarded Finished])"
          using run finish True flush Inr
          by (auto simp: handle_event_def forward_capture_event_def split: item_answer.splits sum.splits)
        then show ?thesis using tr1 by (auto simp: trace_ok_forward)
      qed
    qed
  qed
qed

lemma handle_event_none:
  assumes inv: "capture_inv ident evs cp" and fin: "cp_finished cp = has_finish evs" "\<not> has_finish evs"
    and stats: "cp_stats cp = stats_of evs"
    and run: "handle_event w (numbered ident (Suc (length evs))) ev cp = Some (res, cp')"
    and none: "ev = None"
  shows "handled ident evs ev cp res cp'"
  supply handled_def [simp]
proof -
  obtain r1 cp1 where flush: "flush_and_reset w cp = (r1, cp1)" by fastforce
  note flushed = flush_and_reset_spec [OF inv flush]
  show ?thesis
  proof (cases r1)
    case (Inl e)
    then have "res \<noteq> Inr () \<and> cp' = cp1" using run none flush by (auto simp: handle_event_def)
    then show ?thesis using flushed trace_ok_more by simp
  next
    case (Inr u)
    then have inv1: "capture_inv ident evs cp1" "cp_frames cp1 = []" "cp_responses cp1 = []"
      "all_accepted evs (cp_trace cp1)" and same: "cp_expected cp1 = cp_expected cp" "cp_requests cp1 = cp_requests cp"
      "cp_stats cp1 = cp_stats cp" "cp_finished cp1 = cp_finished cp"
      using flushed by auto
    have tr1: "trace_ok (evs @ [ev]) (cp_trace cp1)" using flushed trace_ok_more by simp
    have all: "all_accepted (evs @ [ev]) (cp_trace cp1)" using inv1(4) none by (simp add: all_accepted_def)
    have step: "send_response w (numbered ident (Suc (length evs))) cp1 = (res, cp')"
      using run none flush Inr by (simp add: handle_event_def)
    show ?thesis
    proof (cases "w_client w (responses_of (cp_trace cp1))")
      case True
      let ?cp = "cp1\<lparr>cp_trace := cp_trace cp1 @ [Responded (numbered ident (Suc (length evs)))]\<rparr>"
      have inv2: "capture_inv ident (evs @ [ev]) ?cp"
        by (rule capture_inv_answered [OF inv1(1-3) all, of "[]"]) (use tr1 none inv1(1) in \<open>auto simp: capture_inv_def\<close>)
      have "res = Inr ()" "cp' = ?cp" using step True by (auto simp: send_response_def)
      moreover have "stats_of (evs @ [ev]) = stats_of evs" using none by (simp add: stats_of_def)
      ultimately show ?thesis using inv2 same stats fin none by (auto simp: capture_inv_def)
    next
      case False
      then show ?thesis using step tr1 by (auto simp: send_response_def)
    qed
  qed
qed

lemma handle_event_spec:
  assumes inv: "capture_inv ident evs cp" and fin: "cp_finished cp = has_finish evs" "\<not> has_finish evs"
    and stats: "cp_stats cp = stats_of evs"
    and run: "handle_event w (numbered ident (Suc (length evs))) ev cp = Some (res, cp')"
  shows "handled ident evs ev cp res cp'"
  using handle_event_bazel [OF assms] handle_event_finish [OF assms] handle_event_none [OF assms]
  by (metis bes_event_view.exhaust not_Some_eq)

section \<open>Whole streams\<close>

text \<open>The events a stream carries, up to the first request without one.\<close>

fun request_events :: "bes_input list \<Rightarrow> bes_event_view option list" where
  "request_events [] = []"
| "request_events (Idle # rest) = request_events rest"
| "request_events (ReceiveError # rest) = []"
| "request_events (Request request # rest) =
     (case Option.bind request oe_event of None \<Rightarrow> [] | Some ev \<Rightarrow> ev # request_events rest)"

lemma check_request_Inr:
  assumes "check_request ident request cp = Inr (ordered, ev)"
  shows "request = Some ordered \<and> oe_event ordered = Some ev \<and> oe_sequence_number ordered = cp_expected cp \<and>
    \<not> cp_finished cp \<and> sat_add (cp_requests cp) 1 \<le> sat_add DEFAULT_MAX_STREAM_EVENTS 1"
  using assms by (auto simp: check_request_def result_simps split: if_splits)

lemma handle_request_spec:
  assumes inv: "loop_inv ident evs cp" and run: "handle_request w ident request cp = Some (res, cp')"
  shows "res \<noteq> Inr () \<and> cp' = cp \<or>
    (\<exists>ev. Option.bind request oe_event = Some ev \<and> trace_ok (evs @ [ev]) (cp_trace cp') \<and>
       (res = Inr () \<longrightarrow> loop_inv ident (evs @ [ev]) cp'))"
proof (cases "check_request ident request cp")
  case (Inl e)
  then show ?thesis using run by (auto simp: handle_request_def)
next
  case (Inr ok)
  obtain ordered ev where ok: "ok = (ordered, ev)" by fastforce
  note checked = check_request_Inr [OF Inr [unfolded ok]]
  let ?cp = "cp\<lparr>cp_requests := sat_add (cp_requests cp) 1\<rparr>"
  have cp: "capture_inv ident evs ?cp" "cp_finished ?cp = has_finish evs" "\<not> has_finish evs"
    "cp_stats ?cp = stats_of evs" and num: "cp_expected cp = int (Suc (length evs))"
    and requests: "cp_requests cp = length evs" "length evs \<le> DEFAULT_MAX_STREAM_EVENTS + 1"
    and limits: "cs_bep_bytes (stats_of evs) \<le> DEFAULT_MAX_STREAM_BYTES"
      "cs_event_count (stats_of evs) \<le> DEFAULT_MAX_STREAM_EVENTS"
    using inv checked by (auto simp: loop_inv_def)
  have sat: "sat_add (length evs) 1 = Suc (length evs)" "Suc (length evs) \<le> DEFAULT_MAX_STREAM_EVENTS + 1"
    using checked requests by (auto simp: DEFAULT_MAX_STREAM_EVENTS_def u64_max_def)
  obtain r cp1 where event: "handle_event w (numbered ident (Suc (length evs))) ev ?cp = Some (r, cp1)"
    using handle_event_total by fast
  have handled: "handled ident evs ev ?cp r cp1" by (rule handle_event_spec [OF cp event])
  have result: "handle_request w ident request cp =
      (case r of Inl e \<Rightarrow> Some (Inl e, cp1)
       | Inr _ \<Rightarrow> if cp_expected cp1 = i64_max then Some (Inl SequenceOverflow, cp1)
                 else Some (Inr (), cp1\<lparr>cp_expected := cp_expected cp1 + 1\<rparr>))"
    using Inr ok event checked num by (simp add: handle_request_def numbered_def split: sum.split)
  have bind: "Option.bind request oe_event = Some ev" using checked by simp
  show ?thesis
  proof (cases r)
    case (Inl e)
    then show ?thesis using result run handled bind by (auto simp: handled_def)
  next
    case r: (Inr u)
    then have h: "capture_inv ident (evs @ [ev]) cp1" "cp_expected cp1 = int (Suc (length evs))"
      "cp_requests cp1 = Suc (length evs)" "cp_stats cp1 = stats_of (evs @ [ev])"
      "cs_bep_bytes (stats_of (evs @ [ev])) \<le> DEFAULT_MAX_STREAM_BYTES"
      "cs_event_count (stats_of (evs @ [ev])) \<le> DEFAULT_MAX_STREAM_EVENTS"
      "cp_finished cp1 = has_finish (evs @ [ev])" "frames_fit [ev]"
      using handled num requests limits sat(1) by (auto simp: handled_def)
    have "cp_expected cp1 \<noteq> i64_max"
      using h(2) sat(2) by (simp add: i64_max_def DEFAULT_MAX_STREAM_EVENTS_def)
    then have "res = Inr ()" "cp' = cp1\<lparr>cp_expected := cp_expected cp1 + 1\<rparr>"
      using result run r by simp_all
    then show ?thesis
      using h sat(2) cp(3) bind inv by (auto simp: loop_inv_def capture_inv_def)
  qed
qed

lemma handle_request_total: "handle_request w ident request cp \<noteq> None"
proof (cases "check_request ident request cp")
  case (Inr ok)
  obtain ordered ev where ok: "ok = (ordered, ev)" by fastforce
  obtain r cp1 where "handle_event w \<lparr>rs_stream_id = ident, rs_sequence_number = oe_sequence_number ordered\<rparr> ev
      (cp\<lparr>cp_requests := sat_add (cp_requests cp) 1\<rparr>) = Some (r, cp1)"
    using handle_event_total by fast
  then show ?thesis using Inr ok by (auto simp: handle_request_def split: sum.split)
qed (simp add: handle_request_def)

lemma capture_loop_total: "capture_loop w ident inputs cp \<noteq> None"
proof (induction w ident inputs cp rule: capture_loop.induct)
  case (4 w ident request rest cp)
  then show ?case using handle_request_total [of w ident request cp]
    by (auto split: option.splits sum.splits prod.splits)
qed (auto split: sum.splits prod.splits)

lemma capture_loop_spec:
  "loop_inv ident evs cp \<Longrightarrow> capture_loop w ident inputs cp = Some (res, cp') \<Longrightarrow>
   trace_ok (evs @ request_events inputs) (cp_trace cp') \<and>
   (res = Inr () \<longrightarrow> loop_inv ident (evs @ request_events inputs) cp')"
proof (induction w ident inputs cp arbitrary: evs rule: capture_loop.induct)
  case (1 w ident cp)
  then show ?case by (auto simp: loop_inv_def capture_inv_def)
next
  case (2 w ident rest cp)
  then show ?case by (auto simp: loop_inv_def capture_inv_def)
next
  case (3 w ident rest cp)
  show ?case
  proof (cases "cp_frames cp = []")
    case True
    then show ?thesis using 3 by simp
  next
    case False
    obtain r cp1 where flush: "flush_and_reset w cp = (r, cp1)" by fastforce
    have "capture_inv ident evs cp" using 3(3) by (simp add: loop_inv_def)
    note flushed = flush_and_reset_spec [OF this flush]
    show ?thesis
    proof (cases r)
      case (Inl e)
      then show ?thesis using 3(4) False flush flushed trace_ok_more by auto
    next
      case (Inr u)
      then have "loop_inv ident evs cp1" using flushed 3(3) by (auto simp: loop_inv_def)
      then show ?thesis using 3(2) [OF False flush [symmetric] Inr] 3(4) False flush Inr by simp
    qed
  qed
next
  case (4 w ident request rest cp)
  obtain r cp1 where step: "handle_request w ident request cp = Some (r, cp1)"
    using handle_request_total [of w ident request cp] by fast
  show ?case
  proof (cases r)
    case (Inl e)
    then have "cp' = cp1" "res = Inl e" using 4(3) step by simp_all
    moreover have "trace_ok (evs @ request_events (Request request # rest)) (cp_trace cp1)"
      using handle_request_spec [OF 4(2) step]
    proof
      assume "\<exists>ev. Option.bind request oe_event = Some ev \<and> trace_ok (evs @ [ev]) (cp_trace cp1) \<and>
        (r = Inr () \<longrightarrow> loop_inv ident (evs @ [ev]) cp1)"
      then obtain ev where "Option.bind request oe_event = Some ev" "trace_ok (evs @ [ev]) (cp_trace cp1)" by blast
      then show ?thesis using trace_ok_more [of "evs @ [ev]" _ "request_events rest"] by simp
    qed (use 4(2) trace_ok_more in \<open>auto simp: loop_inv_def capture_inv_def\<close>)
    ultimately show ?thesis by simp
  next
    case (Inr u)
    then obtain ev where ev: "Option.bind request oe_event = Some ev" "loop_inv ident (evs @ [ev]) cp1"
      using handle_request_spec [OF 4(2) step] by auto
    have "capture_loop w ident rest cp1 = Some (res, cp')" using 4(3) step Inr by simp
    then show ?thesis using 4(1) [OF step refl Inr ev(2)] ev(1) by simp
  qed
qed

lemma capture_stream_spec:
  assumes "capture_stream w first rest = Some (res, cp)"
  shows "trace_ok (request_events (Request first # rest)) (cp_trace cp) \<and>
    (\<forall>stats. res = Inr stats \<longrightarrow>
       (\<exists>ident. loop_inv ident (request_events (Request first # rest)) cp \<and> cp_frames cp = [] \<and>
          cp_responses cp = [] \<and> cp_finished cp \<and> stats = cp_stats cp))"
proof (cases "and_then (ok_or first OmittedOrderedEvent)
    (\<lambda>ordered. and_then (ok_or (oe_stream_id ordered) OmittedStreamId) identity_from_view)")
  case (Inl e)
  then show ?thesis using assms by (auto simp: capture_stream_def capture_start_def)
next
  case (Inr ident)
  let ?evs = "request_events (Request first # rest)"
  obtain r cp1 where loop: "capture_loop w ident (Request first # rest) capture_start = Some (r, cp1)"
    using capture_loop_total by fast
  have l: "trace_ok ?evs (cp_trace cp1)" "r = Inr () \<Longrightarrow> loop_inv ident ?evs cp1"
    using capture_loop_spec [OF loop_inv_start loop] by simp_all
  show ?thesis
  proof (cases r)
    case (Inl e)
    then show ?thesis using assms Inr loop l by (auto simp: capture_stream_def)
  next
    case r: (Inr u)
    then have inv: "loop_inv ident ?evs cp1" using l(2) by simp
    obtain r2 cp2 where flush: "flush_capture_batch w cp1 = (r2, cp2)" by fastforce
    have "capture_inv ident ?evs cp1" using inv by (simp add: loop_inv_def)
    note flushed = flush_spec [OF this flush]
    show ?thesis
    proof (cases r2)
      case (Inl e)
      then show ?thesis using assms Inr loop r flush flushed by (auto simp: capture_stream_def)
    next
      case r2: (Inr u)
      then have "loop_inv ident ?evs cp2" using flushed inv by (simp add: loop_inv_def)
      then show ?thesis
        using assms Inr loop r flush flushed r2 by (auto simp: capture_stream_def split: if_splits)
    qed
  qed
qed

section \<open>A cooperative outside\<close>

definition cooperative :: "bes_world \<Rightarrow> bool" where
  "cooperative w \<longleftrightarrow> (\<forall>items item. w_answer w items item = Answered (Inr ())) \<and> (\<forall>rs. w_client w rs)"

lemma cooperative_send: "cooperative w \<Longrightarrow> fst (send_responses w rs cp) = Inr ()"
  by (induction rs arbitrary: cp) (simp_all add: send_response_def cooperative_def)

lemma cooperative_flush:
  assumes "cooperative w"
  shows "fst (flush_capture_batch w cp) = Inr ()" and "fst (flush_and_reset w cp) = Inr ()"
proof -
  show *: "fst (flush_capture_batch w cp) = Inr ()"
    using assms cooperative_send [OF assms]
    by (simp add: flush_capture_batch_def forward_capture_event_def cooperative_def)
  show "fst (flush_and_reset w cp) = Inr ()"
    using * by (cases "flush_capture_batch w cp") (simp add: flush_and_reset_def)
qed

text \<open>An event that the service supports, after events that sum up to these statistics.\<close>

fun event_supported :: "capture_stats \<Rightarrow> bes_event_view option \<Rightarrow> bool" where
  "event_supported stats None = True"
| "event_supported stats (Some (ComponentStreamFinished kind)) = (kind = 1)"
| "event_supported stats (Some (BazelEvent url payload)) =
     (length url \<le> MAX_TYPE_URL_BYTES \<and> (url = [] \<or> ends_with url BAZEL_EVENT_TYPE_SUFFIX) \<and>
      frame_failure payload stats = None)"

lemma cooperative_event:
  assumes "cooperative w" and "event_supported (cp_stats cp) ev"
  shows "\<exists>cp'. handle_event w response ev cp = Some (Inr (), cp')"
proof -
  obtain cp1 where flush: "flush_and_reset w cp = (Inr (), cp1)"
    using cooperative_flush(2) [OF assms(1), of cp] by (metis prod.collapse)
  consider (bazel) url payload where "ev = Some (BazelEvent url payload)"
    | (finish) kind where "ev = Some (ComponentStreamFinished kind)" | (none) "ev = None"
    by (metis bes_event_view.exhaust not_Some_eq)
  then show ?thesis
  proof cases
    case bazel
    then show ?thesis
      using assms cooperative_flush(2) [OF assms(1)]
      by (auto simp: handle_event_def frame_bep_payload_eq Let_def prod_eq_iff not_less)
  next
    case finish
    then show ?thesis using assms flush
      by (simp add: handle_event_def forward_capture_event_def send_response_def cooperative_def)
  next
    case none
    then show ?thesis using assms flush
      by (simp add: handle_event_def send_response_def cooperative_def)
  qed
qed

text \<open>A well-formed stream: numbered requests with one identity, with idle moments between them.\<close>

fun well_formed_stream :: "stream_id \<Rightarrow> bes_event_view option list \<Rightarrow> bes_input list \<Rightarrow> bool" where
  "well_formed_stream ident evs [] = has_finish evs"
| "well_formed_stream ident evs (Idle # rest) = well_formed_stream ident evs rest"
| "well_formed_stream ident evs (ReceiveError # rest) = False"
| "well_formed_stream ident evs (Request None # rest) = False"
| "well_formed_stream ident evs (Request (Some ordered) # rest) =
     (oe_stream_id ordered = Some ident \<and> oe_sequence_number ordered = int (Suc (length evs)) \<and>
      \<not> has_finish evs \<and> length evs \<le> DEFAULT_MAX_STREAM_EVENTS \<and>
      (case oe_event ordered of
         None \<Rightarrow> False
       | Some ev \<Rightarrow> event_supported (stats_of evs) ev \<and> well_formed_stream ident (evs @ [ev]) rest))"

lemma well_formed_finish: "well_formed_stream ident evs inputs \<Longrightarrow> has_finish (evs @ request_events inputs)"
  by (induction ident evs inputs rule: well_formed_stream.induct) (auto split: option.splits)

lemma cooperative_request:
  assumes coop: "cooperative w" and inv: "loop_inv ident evs cp" and fin: "\<not> has_finish evs"
    and len: "length evs \<le> DEFAULT_MAX_STREAM_EVENTS" and ev: "event_supported (stats_of evs) ev"
    and request: "request = Some ordered" "oe_stream_id ordered = Some ident"
      "oe_sequence_number ordered = int (Suc (length evs))" "oe_event ordered = Some ev"
  shows "\<exists>cp'. handle_request w ident request cp = Some (Inr (), cp') \<and> loop_inv ident (evs @ [ev]) cp'"
proof -
  have cp: "cp_expected cp = int (length evs) + 1" "cp_requests cp = length evs" "cp_finished cp = has_finish evs"
    "cp_stats cp = stats_of evs"
    using inv by (simp_all add: loop_inv_def)
  have check: "check_request ident request cp = Inr (ordered, ev)"
    using request cp fin len
    by (simp add: check_request_def ok_or_def identity_validate_def sat_add_def u64_max_def
        DEFAULT_MAX_STREAM_EVENTS_def)
  let ?cp = "cp\<lparr>cp_requests := sat_add (cp_requests cp) 1\<rparr>"
  obtain cp1 where event: "handle_event w (numbered ident (Suc (length evs))) ev ?cp = Some (Inr (), cp1)"
    using cooperative_event [OF coop, of ?cp ev] ev cp(4) by auto
  have "handled ident evs ev ?cp (Inr ()) cp1"
    by (rule handle_event_spec [OF _ _ _ _ event]) (use inv fin in \<open>auto simp: loop_inv_def\<close>)
  then have "cp_expected cp1 \<noteq> i64_max"
    using cp(1) len by (simp add: handled_def i64_max_def DEFAULT_MAX_STREAM_EVENTS_def)
  then obtain cp2 where step: "handle_request w ident request cp = Some (Inr (), cp2)"
    using check event request(3) by (simp add: handle_request_def numbered_def)
  then show ?thesis using handle_request_spec [OF inv step] request by auto
qed

lemma cooperative_loop:
  "cooperative w \<Longrightarrow> loop_inv ident evs cp \<Longrightarrow> well_formed_stream ident evs inputs \<Longrightarrow>
   \<exists>cp'. capture_loop w ident inputs cp = Some (Inr (), cp')"
proof (induction w ident inputs cp arbitrary: evs rule: capture_loop.induct)
  case (3 w ident rest cp)
  show ?case
  proof (cases "cp_frames cp = []")
    case True
    then show ?thesis using 3 by simp
  next
    case False
    obtain cp1 where flush: "flush_and_reset w cp = (Inr (), cp1)"
      using cooperative_flush(2) [OF 3(3), of cp] by (metis prod.collapse)
    have "capture_inv ident evs cp" using 3(4) by (simp add: loop_inv_def)
    then have "loop_inv ident evs cp1" using flush_and_reset_spec [OF _ flush] 3(4) by (auto simp: loop_inv_def)
    then show ?thesis using 3(2) [OF False flush [symmetric] refl 3(3)] 3(5) False flush by simp
  qed
next
  case (4 w ident request rest cp)
  then obtain ordered ev where request: "request = Some ordered" "oe_stream_id ordered = Some ident"
      "oe_sequence_number ordered = int (Suc (length evs))" "oe_event ordered = Some ev"
    and ev: "\<not> has_finish evs" "length evs \<le> DEFAULT_MAX_STREAM_EVENTS" "event_supported (stats_of evs) ev"
    "well_formed_stream ident (evs @ [ev]) rest"
    by (cases request) (auto split: option.splits)
  obtain cp1 where cp1: "handle_request w ident request cp = Some (Inr (), cp1)" "loop_inv ident (evs @ [ev]) cp1"
    using cooperative_request [OF 4(2,3) ev(1-3) request] by blast
  then show ?case using 4(1) [OF cp1(1) refl refl 4(2) cp1(2) ev(4)] by simp
qed auto

text \<open>Such a stream is captured as a whole.\<close>

lemma cooperative_stream:
  assumes coop: "cooperative w" and stream: "well_formed_stream ident [] (Request first # rest)"
    and fields: "length (build_id ident) \<le> MAX_STREAM_ID_FIELD_BYTES"
      "length (stream_invocation_id ident) \<le> MAX_STREAM_ID_FIELD_BYTES"
  shows "\<exists>cp. capture_stream w first rest = Some (Inr (stats_of (request_events (Request first # rest))), cp)"
proof -
  let ?evs = "request_events (Request first # rest)"
  obtain cp1 where loop: "capture_loop w ident (Request first # rest) capture_start = Some (Inr (), cp1)"
    using cooperative_loop [OF coop loop_inv_start stream] by blast
  have inv: "loop_inv ident ?evs cp1" using capture_loop_spec [OF loop_inv_start loop] by simp
  obtain cp2 where flush: "flush_capture_batch w cp1 = (Inr (), cp2)"
    using cooperative_flush(1) [OF coop, of cp1] by (metis prod.collapse)
  have "capture_inv ident ?evs cp1" using inv by (simp add: loop_inv_def)
  then have "cp_stats cp2 = stats_of ?evs" "cp_finished cp2"
    using flush_spec [OF _ flush] inv well_formed_finish [OF stream] by (auto simp: loop_inv_def)
  moreover have "and_then (ok_or first OmittedOrderedEvent)
      (\<lambda>ordered. and_then (ok_or (oe_stream_id ordered) OmittedStreamId) identity_from_view) = Inr ident"
    using stream fields by (cases first) (auto simp: identity_from_view_def ok_or_def not_less)
  ultimately show ?thesis using loop flush by (simp add: capture_stream_def)
qed

lemma encode_frame_ne [simp]: "encode_frame body \<noteq> []"
  by (subst encode_frame_def, subst write_varint.simps) (simp add: write_varint_append [of _ "[_]"])

section \<open>The registry over time\<close>

text \<open>What happens to the registry, in any order: the calls of the runner and of the streams.\<close>

datatype registry_op =
    Register string
  | Drop bes_capture
  | Claim "string option" bes_request
  | Complete nat "(capture_stats, capture_failure) result"

fun registry_step :: "registry_op \<Rightarrow> registry \<Rightarrow> nat list \<times> registry" where
  "registry_step (Register ident) rg = ([], snd (register ident rg))"
| "registry_step (Drop bc) rg = ([], remove_capture bc rg)"
| "registry_step (Claim capture_id first) rg =
     (case claim_stream capture_id first rg of (Inl _, rg1) \<Rightarrow> ([], rg1) | (Inr at, rg1) \<Rightarrow> ([at], rg1))"
| "registry_step (Complete at result) rg = ([], complete at result rg)"

text \<open>The captures that streams claimed successfully, in order.\<close>

fun registry_run :: "registry_op list \<Rightarrow> registry \<Rightarrow> nat list \<times> registry" where
  "registry_run [] rg = ([], rg)"
| "registry_run (op # ops) rg =
     (case registry_step op rg of (claims, rg1) \<Rightarrow>
        case registry_run ops rg1 of (claims', rg2) \<Rightarrow> (claims @ claims', rg2))"

definition active_at :: "registry \<Rightarrow> nat \<Rightarrow> bool" where
  "active_at rg at \<longleftrightarrow> (case fmlookup (rg_states rg) at of None \<Rightarrow> False | Some ca \<Rightarrow> ca_active ca)"

lemma fresh_state_fresh: "fmlookup (rg_states rg) (fresh_state rg) = None"
proof (cases "rg_states rg = fmempty")
  case False
  have "fresh_state rg \<notin> fset (fmdom (rg_states rg))"
  proof
    assume "fresh_state rg \<in> fset (fmdom (rg_states rg))"
    then have "fresh_state rg \<le> Max (fset (fmdom (rg_states rg)))" by simp
    then show False using False by (simp add: fresh_state_def)
  qed
  then show ?thesis by (simp add: fmdom_notD)
qed (simp add: fresh_state_def)

lemma active_complete [simp]: "active_at (complete at result rg) k = active_at rg k"
  by (auto simp: complete_def active_at_def split: option.splits)

lemma claim_stream_active:
  "claim_stream capture_id first rg = (r, rg1) \<Longrightarrow>
   (\<forall>k. active_at rg k \<longrightarrow> active_at rg1 k) \<and>
   (\<forall>at. r = Inr at \<longrightarrow> \<not> active_at rg at \<and> active_at rg1 at)"
  unfolding claim_stream_def
  by (auto simp: Let_def active_at_def complete_def split: option.splits sum.splits if_splits)

lemma register_active: "active_at rg k \<Longrightarrow> active_at (snd (register ident rg)) k"
  using fresh_state_fresh [of rg] by (auto simp: register_def active_at_def Let_def split: option.splits)

lemma registry_step_active:
  assumes "registry_step op rg = (claims, rg1)"
  shows "(\<forall>k. active_at rg k \<longrightarrow> active_at rg1 k) \<and> distinct claims \<and>
    (\<forall>at\<in>set claims. \<not> active_at rg at \<and> active_at rg1 at)"
proof (cases op)
  case (Register ident)
  then show ?thesis using assms register_active [of rg _ ident] by auto
next
  case (Drop bc)
  then show ?thesis using assms by (auto simp: remove_capture_def active_at_def)
next
  case (Claim capture_id first)
  obtain r rg2 where c: "claim_stream capture_id first rg = (r, rg2)" by fastforce
  then show ?thesis
    using assms Claim claim_stream_active [OF c] by (cases r) auto
next
  case (Complete at result)
  then show ?thesis using assms by auto
qed

lemma registry_run_active:
  "registry_run ops rg = (claims, rg1) \<Longrightarrow>
   (\<forall>k. active_at rg k \<longrightarrow> active_at rg1 k) \<and> distinct claims \<and> (\<forall>at\<in>set claims. \<not> active_at rg at)"
proof (induction ops arbitrary: rg claims rg1)
  case (Cons op ops)
  obtain c1 rg2 where step: "registry_step op rg = (c1, rg2)" by fastforce
  obtain c2 rg3 where run: "registry_run ops rg2 = (c2, rg3)" by fastforce
  show ?case
    using Cons.prems step run registry_step_active [OF step] Cons.IH [OF run] by (auto, blast)
qed simp

lemma register_Inr:
  assumes "register ident rg = (Inr bc, rg1)"
  shows "bc_invocation_id bc = ident \<and> fmlookup (rg_captures rg1) ident = Some (bc_state bc) \<and>
    \<not> rg_poisoned rg1 \<and>
    fmlookup (rg_states rg1) (bc_state bc) = Some \<lparr>ca_active = False, ca_completion = None\<rparr>"
  using assms by (auto simp: register_def Let_def split: if_splits option.splits)

text \<open>A registration stays until its own capture is dropped.\<close>

definition drops :: "nat \<Rightarrow> registry_op \<Rightarrow> bool" where
  "drops at op = (case op of Drop bc \<Rightarrow> bc_state bc = at | _ \<Rightarrow> False)"

lemma registry_step_keeps:
  assumes "fmlookup (rg_captures rg) ident = Some at" and "\<not> drops at op"
  shows "fmlookup (rg_captures (snd (registry_step op rg))) ident = Some at"
proof (cases op)
  case (Register i)
  then show ?thesis using assms by (auto simp: register_def Let_def split: option.splits)
next
  case (Drop bc)
  then show ?thesis using assms by (auto simp: drops_def remove_capture_def)
next
  case (Claim capture_id first)
  then show ?thesis using assms
    by (auto simp: claim_stream_def Let_def complete_def split: option.splits sum.splits if_splits prod.splits)
next
  case (Complete a r)
  then show ?thesis using assms by (auto simp: complete_def split: option.splits)
qed

lemma registry_run_keeps:
  "fmlookup (rg_captures rg) ident = Some at \<Longrightarrow> \<not> list_ex (drops at) ops \<Longrightarrow>
   fmlookup (rg_captures (snd (registry_run ops rg))) ident = Some at"
proof (induction ops arbitrary: rg)
  case (Cons op ops)
  have "fmlookup (rg_captures (snd (registry_step op rg))) ident = Some at"
    by (rule registry_step_keeps) (use Cons.prems in auto)
  from Cons.IH [OF this] show ?case using Cons.prems by (auto split: prod.splits)
qed simp

section \<open>Properties\<close>

text \<open>
  C21: A build event is acknowledged to Bazel only after the capture has accepted it: when the
  response with number n is sent, the capture has accepted the frames of all build events among
  the first n requests, in order and without a gap, and the end of the stream if it is among them.
  This also holds of streams that fail later.
\<close>

theorem capture_acknowledges_accepted:
  assumes "capture_stream w first rest = Some (res, cp)"
    and "cp_trace cp = before @ Responded r # after"
  shows "\<exists>n. rs_sequence_number r = int n \<and> 0 < n \<and> n \<le> length (request_events (Request first # rest)) \<and>
    prefix (map encode_frame (payloads (take n (request_events (Request first # rest)))))
      (accepted_frames before) \<and>
    (has_finish (take n (request_events (Request first # rest))) \<longrightarrow> Finished \<in> set (accepted_items before))"
  using capture_stream_spec [OF assms(1)] assms(2) unfolding trace_ok_def response_ok_def by blast

definition sample_id :: stream_id where
  "sample_id = \<lparr>build_id = ''b'', stream_invocation_id = ''i'', component = 1\<rparr>"

definition sample_request :: "nat \<Rightarrow> bes_event_view \<Rightarrow> bes_request" where
  "sample_request n ev =
     Some \<lparr>oe_stream_id = Some sample_id, oe_sequence_number = int n, oe_event = Some (Some ev)\<rparr>"

definition sample_world :: bes_world where
  "sample_world = \<lparr>w_answer = (\<lambda>_ _. Answered (Inr ())), w_client = (\<lambda>_. True)\<rparr>"

definition sample_rest :: "bes_input list" where
  "sample_rest = [Idle, Request (sample_request 2 (BazelEvent [] [])),
     Request (sample_request 3 (ComponentStreamFinished 1))]"

lemma sample_cooperative: "cooperative sample_world"
  by (simp add: cooperative_def sample_world_def)

lemma sample_well_formed:
  "well_formed_stream sample_id [] (Request (sample_request 1 (BazelEvent [] [7])) # sample_rest)"
  by (simp add: sample_request_def sample_rest_def has_finish_def stats_of_def frame_failure_def sat_add_def u64_max_def
      DEFAULT_MAX_STREAM_EVENTS_def DEFAULT_MAX_STREAM_BYTES_def DEFAULT_MAX_FRAME_BYTES_def)

lemma sample_events:
  "request_events (Request (sample_request 1 (BazelEvent [] [7])) # sample_rest) =
     [Some (BazelEvent [] [7]), Some (BazelEvent [] []), Some (ComponentStreamFinished 1)]"
  by (simp add: sample_request_def sample_rest_def)

lemma sample_captured:
  "\<exists>cp. capture_stream sample_world (sample_request 1 (BazelEvent [] [7])) sample_rest =
     Some (Inr \<lparr>cs_event_count = 2, cs_bep_bytes = 1\<rparr>, cp)"
  using cooperative_stream [OF sample_cooperative sample_well_formed]
  unfolding sample_events
  by (simp add: sample_id_def MAX_STREAM_ID_FIELD_BYTES_def stats_of_def numeral_2_eq_2)

theorem capture_acknowledges_accepted_witness:
  "\<exists>cp before r. capture_stream sample_world (sample_request 1 (BazelEvent [] [7])) [Idle] =
       Some (Inl EndedUnfinished, cp) \<and>
     cp_trace cp = before @ [Responded r] \<and> rs_sequence_number r = 1 \<and>
     prefix [encode_frame [7]] (accepted_frames before)"
proof -
  let ?first = "sample_request 1 (BazelEvent [] [7])"
  let ?before = "[Forwarded (Frames [encode_frame [7]]), Accepted (Frames [encode_frame [7]])]"
  let ?r = "numbered sample_id 1"
  have run: "\<exists>cp. capture_stream sample_world ?first [Idle] = Some (Inl EndedUnfinished, cp) \<and>
      cp_trace cp = ?before @ Responded ?r # []"
    by (simp add: capture_stream_def capture_start_def sample_request_def sample_id_def ok_or_def
        identity_from_view_def MAX_STREAM_ID_FIELD_BYTES_def handle_request_def check_request_def
        identity_validate_def handle_event_def frame_bep_payload_eq frame_failure_def capture_stats_default_def
        DEFAULT_MAX_STREAM_EVENTS_def DEFAULT_MAX_STREAM_BYTES_def DEFAULT_MAX_FRAME_BYTES_def
        CAPTURE_BATCH_MAX_BYTES_def CAPTURE_BATCH_MAX_EVENTS_def MAX_TYPE_URL_BYTES_def sat_add_def u64_max_def
        flush_and_reset_def flush_capture_batch_def forward_capture_event_def send_response_def sample_world_def
        encode_frame_def write_varint_single i64_max_def numbered_def)
  then obtain cp where cp: "capture_stream sample_world ?first [Idle] = Some (Inl EndedUnfinished, cp)"
    "cp_trace cp = ?before @ Responded ?r # []" by blast
  from capture_acknowledges_accepted [OF cp]
  have "prefix [encode_frame [7]] (accepted_frames ?before)"
    by (auto simp: sample_request_def numbered_def take_Cons')
  then show ?thesis using cp by (intro exI conjI) (auto simp: numbered_def)
qed





text \<open>
  C24: Over any interleaving of registrations, drops, claims and completions, a registered capture
  is claimed by one stream at most, and a registration is not lost before its own capture is
  dropped, not even when an older capture of the same invocation is dropped late.
\<close>

theorem registry_run_claims:
  assumes "register invocation rg = (Inr bc, rg1)"
  shows "distinct (fst (registry_run ops rg1)) \<and>
    (\<not> list_ex (drops (bc_state bc)) ops \<longrightarrow>
       fmlookup (rg_captures (snd (registry_run ops rg1))) invocation = Some (bc_state bc))"
  using registry_run_active [of ops rg1 "fst (registry_run ops rg1)" "snd (registry_run ops rg1)"]
    registry_run_keeps [of rg1 invocation "bc_state bc" ops] register_Inr [OF assms] by simp

theorem registry_run_claims_witness:
  "\<exists>old rg1 bc rg2. register ''i'' \<lparr>rg_captures = fmempty, rg_states = fmempty, rg_poisoned = False\<rparr> = (Inr old, rg1) \<and>
     register ''i'' (remove_capture old rg1) = (Inr bc, rg2) \<and>
     (let ops = [Claim (Some ''i'') None, Drop old, Claim (Some ''i'') None]
      in fst (registry_run ops rg2) = [bc_state bc] \<and> distinct (fst (registry_run ops rg2)) \<and>
         fmlookup (rg_captures (snd (registry_run ops rg2))) ''i'' = Some (bc_state bc))"
proof -
  let ?rg = "\<lparr>rg_captures = fmempty, rg_states = fmempty, rg_poisoned = False\<rparr>"
  define old where "old = \<lparr>bc_invocation_id = ''i'', bc_state = 0, bc_events_taken = False\<rparr>"
  define rg1 where "rg1 = snd (register ''i'' ?rg)"
  define bc where "bc = \<lparr>bc_invocation_id = ''i'', bc_state = 1, bc_events_taken = False\<rparr>"
  define rg2 where "rg2 = snd (register ''i'' (remove_capture old rg1))"
  have first: "register ''i'' ?rg = (Inr old, rg1)"
    by (simp add: rg1_def old_def register_def Let_def fresh_state_def)
  have second: "register ''i'' (remove_capture old rg1) = (Inr bc, rg2)"
    by (simp add: rg2_def bc_def rg1_def old_def register_def remove_capture_def Let_def fresh_state_def)
  have claims: "fst (registry_run [Claim (Some ''i'') None, Drop old, Claim (Some ''i'') None] rg2) = [bc_state bc]"
    by (simp add: rg2_def bc_def rg1_def old_def register_def remove_capture_def Let_def fresh_state_def
        claim_stream_def complete_def)
  from registry_run_claims [OF second, of "[Claim (Some ''i'') None, Drop old, Claim (Some ''i'') None]"]
  have "fmlookup (rg_captures (snd (registry_run [Claim (Some ''i'') None, Drop old, Claim (Some ''i'') None] rg2)))
      ''i'' = Some (bc_state bc)"
    by (simp add: drops_def old_def bc_def)
  then show ?thesis
    using first second claims by (intro exI conjI) (auto simp: Let_def)
qed

end
