(* ===== verification/Rust_Path.thy ===== *)
theory Rust_Path
  imports Rust_Prelude "HOL-Library.Finite_Map"
begin

text \<open>
  \<^verbatim>\<open>std::path\<close> and the part of \<^verbatim>\<open>std::fs\<close> the policy relies on, on Unix. A path is the list of its
  components, on which Rust defines equality, \<^verbatim>\<open>join\<close>, \<^verbatim>\<open>parent\<close> and \<^verbatim>\<open>starts_with\<close>. A file system is
  a tree of directories, regular files and symbolic links; resolving a path follows at most forty
  links, as the kernel does, so that it always ends. Permissions to search a directory are not
  part of the tree.
\<close>

section \<open>Paths\<close>

datatype component = RootDir | CurDir | ParentDir | Normal (component_name: string)

type_synonym path = "component list"

fun split_on :: "char \<Rightarrow> string \<Rightarrow> string list" where
  "split_on c [] = [[]]"
| "split_on c (x # xs) =
     (if x = c then [] # split_on c xs
      else (case split_on c xs of
              [] \<Rightarrow> [[x]]
            | w # ws \<Rightarrow> (x # w) # ws))"

definition component_of :: "string \<Rightarrow> component" where
  "component_of w = (if w = ''..'' then ParentDir else Normal w)"

text \<open>
  \<^verbatim>\<open>Path::components\<close>: repeated and trailing separators and every \<^verbatim>\<open>.\<close> are dropped, except a \<^verbatim>\<open>.\<close>
  at the start of a relative path.
\<close>

definition path_of :: "string \<Rightarrow> path" where
  "path_of s =
     (let words = split_on CHR ''/'' s;
          names = map component_of (filter (\<lambda>w. w \<noteq> [] \<and> w \<noteq> ''.'') words)
      in if starts_with s ''/'' then RootDir # names
         else if hd words = ''.'' then CurDir # names
         else names)"

definition is_absolute :: "path \<Rightarrow> bool" where
  "is_absolute p = (case p of RootDir # _ \<Rightarrow> True | _ \<Rightarrow> False)"

text \<open>\<^verbatim>\<open>PathBuf::push\<close>: an absolute path replaces the buffer.\<close>

definition path_join :: "path \<Rightarrow> path \<Rightarrow> path" where
  "path_join p q =
     (if is_absolute q then q
      else if p = [] then q
      else p @ filter (\<lambda>x. x \<noteq> CurDir) q)"

definition path_parent :: "path \<Rightarrow> path option" where
  "path_parent p =
     (if p = [] \<or> last p = RootDir then None else Some (butlast p))"

definition path_file_name :: "path \<Rightarrow> string option" where
  "path_file_name p =
     (if p = [] then None else (case last p of Normal w \<Rightarrow> Some w | _ \<Rightarrow> None))"

text \<open>\<^verbatim>\<open>PathBuf::pop\<close> leaves the path alone where there is no parent.\<close>

definition path_pop :: "path \<Rightarrow> path" where
  "path_pop p = (case path_parent p of Some q \<Rightarrow> q | None \<Rightarrow> p)"

definition path_starts_with :: "path \<Rightarrow> path \<Rightarrow> bool" where
  "path_starts_with p q = (take (length q) p = q)"

text \<open>The absolute path that walks down the given names.\<close>

definition abs_path :: "string list \<Rightarrow> path" where
  "abs_path ws = RootDir # map Normal ws"

section \<open>File systems\<close>

datatype node =
    RegularFile bool
  | Directory
  | Symlink path

text \<open>
  The names below the root. \<^const>\<open>RegularFile\<close> carries whether one of its execute bits is set.
\<close>

type_synonym file_system = "(string list, node) fmap"

definition node_at :: "file_system \<Rightarrow> string list \<Rightarrow> node option" where
  "node_at fs ws = (if ws = [] then Some Directory else fmlookup fs ws)"

definition MAXSYMLINKS :: nat where
  "MAXSYMLINKS = 40"

text \<open>
  The walk of the kernel from a directory that is resolved already. The working directory is the
  root: every path the policy resolves is absolute.
\<close>

fun walk :: "nat \<Rightarrow> file_system \<Rightarrow> string list \<Rightarrow> path \<Rightarrow> (string list, io_kind) result" where
  "walk links fs dir [] = Inr dir"
| "walk links fs dir (RootDir # rest) = walk links fs [] rest"
| "walk links fs dir (CurDir # rest) = walk links fs dir rest"
| "walk links fs dir (ParentDir # rest) = walk links fs (butlast dir) rest"
| "walk links fs dir (Normal w # rest) =
     (case node_at fs (dir @ [w]) of
        None \<Rightarrow> Inl NotFound
      | Some Directory \<Rightarrow> walk links fs (dir @ [w]) rest
      | Some (RegularFile _) \<Rightarrow> if rest = [] then Inr (dir @ [w]) else Inl OtherIo
      | Some (Symlink target) \<Rightarrow>
          (case links of
             0 \<Rightarrow> Inl OtherIo
           | Suc n \<Rightarrow> walk n fs dir (target @ rest)))"

text \<open>\<^verbatim>\<open>Path::canonicalize\<close>, \<^verbatim>\<open>Path::metadata\<close> and \<^verbatim>\<open>fs::symlink_metadata\<close>.\<close>

definition canonicalize :: "file_system \<Rightarrow> path \<Rightarrow> (path, io_kind) result" where
  "canonicalize fs p = and_then (walk MAXSYMLINKS fs [] p) (\<lambda>ws. Inr (abs_path ws))"

definition metadata :: "file_system \<Rightarrow> path \<Rightarrow> (node, io_kind) result" where
  "metadata fs p = and_then (walk MAXSYMLINKS fs [] p) (\<lambda>ws. ok_or (node_at fs ws) NotFound)"

definition symlink_metadata :: "file_system \<Rightarrow> path \<Rightarrow> (node, io_kind) result" where
  "symlink_metadata fs p =
     (case path_file_name p of
        None \<Rightarrow> metadata fs p
      | Some w \<Rightarrow>
          and_then (walk MAXSYMLINKS fs [] (butlast p))
            (\<lambda>dir. case node_at fs dir of
                Some Directory \<Rightarrow> ok_or (node_at fs (dir @ [w])) NotFound
              | _ \<Rightarrow> Inl OtherIo))"

definition is_file :: "file_system \<Rightarrow> path \<Rightarrow> bool" where
  "is_file fs p = (case metadata fs p of Inr (RegularFile _) \<Rightarrow> True | _ \<Rightarrow> False)"

section \<open>Facts\<close>

lemma split_on_nonempty [simp]: "split_on c s \<noteq> []"
  by (induction s) (auto split: list.split)

lemma path_of_absolute: "is_absolute (path_of s) \<longleftrightarrow> starts_with s ''/''"
proof -
  have "\<not> is_absolute (map component_of ws)" for ws
    by (cases ws) (auto simp: is_absolute_def component_of_def)
  then show ?thesis by (auto simp: path_of_def Let_def is_absolute_def)
qed

lemma is_absolute_abs_path [simp]: "is_absolute (abs_path ws)"
  by (simp add: is_absolute_def abs_path_def)

lemma abs_path_eq_iff [simp]: "abs_path ws = abs_path vs \<longleftrightarrow> ws = vs"
  by (simp add: abs_path_def inj_map_eq_map inj_def)

text \<open>
  A place in the tree: every name on the way down to it is a directory. The walk keeps to
  places, and ends at a place or at a file in one.
\<close>

definition real_dir :: "file_system \<Rightarrow> string list \<Rightarrow> bool" where
  "real_dir fs ws \<longleftrightarrow> (\<forall>k \<le> length ws. node_at fs (take k ws) = Some Directory)"

definition real_path :: "file_system \<Rightarrow> string list \<Rightarrow> bool" where
  "real_path fs ws \<longleftrightarrow>
     real_dir fs ws \<or>
     (ws \<noteq> [] \<and> real_dir fs (butlast ws) \<and> (\<exists>x. node_at fs ws = Some (RegularFile x)))"

lemma real_dir_Nil [simp]: "real_dir fs []"
  by (simp add: real_dir_def node_at_def)

lemma real_dir_append:
  "real_dir fs (ws @ [w]) \<longleftrightarrow> real_dir fs ws \<and> node_at fs (ws @ [w]) = Some Directory"
  by (auto simp: real_dir_def le_Suc_eq)

lemma real_dir_butlast: "real_dir fs ws \<Longrightarrow> real_dir fs (butlast ws)"
  by (cases ws rule: rev_cases) (auto simp: real_dir_append)

lemma walk_real:
  "walk links fs dir p = Inr ws \<Longrightarrow> real_dir fs dir \<Longrightarrow> real_path fs ws"
proof (induction links fs dir p rule: walk.induct)
  case (5 links fs dir w rest)
  from 5 show ?case
    by (auto simp: real_dir_append real_path_def split: option.splits node.splits if_splits nat.splits)
qed (auto simp: real_path_def real_dir_butlast)

lemma real_dir_prefix:
  assumes "real_dir fs (ws @ vs)"
  shows "real_dir fs ws"
  unfolding real_dir_def
proof (intro allI impI)
  fix k
  assume "k \<le> length ws"
  then show "node_at fs (take k ws) = Some Directory"
    using assms [unfolded real_dir_def, rule_format, of k] by simp
qed

text \<open>A real path is walked without following a link.\<close>

lemma walk_down:
  "real_dir fs (dir @ ws) \<Longrightarrow> real_dir fs dir \<Longrightarrow>
     walk links fs dir (map Normal ws @ rest) = walk links fs (dir @ ws) rest"
proof (induction ws arbitrary: dir)
  case (Cons w ws)
  have "real_dir fs (dir @ [w])"
    using real_dir_prefix [of fs "dir @ [w]" ws] Cons.prems(1) by simp
  then show ?case using Cons by (simp add: real_dir_append)
qed simp

lemma walk_abs_dir: "real_dir fs ws \<Longrightarrow> walk links fs [] (abs_path ws) = Inr ws"
  using walk_down [of fs "[]" ws links "[]"] by (simp add: abs_path_def)

lemma walk_abs_real:
  assumes "real_path fs ws"
  shows "walk links fs [] (abs_path ws) = Inr ws"
proof (cases "real_dir fs ws")
  case False
  then obtain x where x: "ws \<noteq> []" "real_dir fs (butlast ws)" "node_at fs ws = Some (RegularFile x)"
    using assms by (auto simp: real_path_def)
  then have "walk links fs [] (map Normal (butlast ws) @ [Normal (last ws)]) = Inr ws"
    using walk_down [of fs "[]" "butlast ws" links "[Normal (last ws)]"] by simp
  moreover have "map Normal (butlast ws) @ [Normal (last ws)] = map Normal ws"
    using x(1) by (metis append_butlast_last_id list.simps(8,9) map_append)
  ultimately show ?thesis by (simp add: abs_path_def)
qed (rule walk_abs_dir)

lemma canonicalize_real:
  assumes "canonicalize fs p = Inr q"
  obtains ws where "q = abs_path ws" "real_path fs ws"
proof -
  obtain ws where "walk MAXSYMLINKS fs [] p = Inr ws" "q = abs_path ws"
    using assms by (auto simp: canonicalize_def result_simps)
  then show thesis using that walk_real [of MAXSYMLINKS fs "[]" p ws] by simp
qed

text \<open>The result of \<^const>\<open>canonicalize\<close> has no link left on it.\<close>

lemma canonicalize_idem:
  assumes "canonicalize fs p = Inr q"
  shows "canonicalize fs q = Inr q"
proof -
  obtain ws where "q = abs_path ws" "real_path fs ws" using canonicalize_real [OF assms] .
  then show ?thesis by (simp add: canonicalize_def walk_abs_real)
qed

end
