(* ===== verification/Policy.thy ===== *)
theory Policy
  imports Rust_Path Domain_Types
begin

text \<open>
  The policy of the server (\<^verbatim>\<open>bazel-mcp-policy\<close>): which workspaces, commands, arguments and
  environment variables a request may use, which executable is started, and how text is redacted
  before it is shown. Regular expressions and the search of \<^verbatim>\<open>PATH\<close> are library code and
  parameters; the target is Unix except where the code takes the target as an argument.
\<close>

datatype policy_error =
    WorkspaceNotAbsolute path
  | WorkspaceNotAllowed path
  | NotBazelWorkspace path
  | CommandDenied string
  | CommandUnsupported string
  | ReservedFlag string
  | InvalidArgument
  | RunTargetRequired
  | InvalidRunTarget
  | RunArgumentsMustBeFlags
  | RunFieldsOnNonRunCommand
  | RunUnsupportedPlatform
  | ArgumentTooLong nat
  | TooManyArguments nat
  | ArgumentsTooLarge nat
  | IncompatibleQueryOutput string
  | MissingOutputBaseValue
  | RepeatedOutputBase
  | ExecutableNotFound path
  | AspectExecutableNotFound path
  | AspectReservedArgument string
  | AspectWorkspaceMutationDenied
  | ExecutableRecursion path
  | InvalidRedaction string string
  | PolicyIo io_kind

section \<open>Redaction\<close>

text \<open>
  The \<^verbatim>\<open>regex\<close> crate: compiling a pattern, and the successive non-overlapping matches of a
  compiled one in a text, as pairs of byte offsets.
\<close>

record 're regex_lib =
  rx_new :: "string \<Rightarrow> ('re, string) result"
  rx_find_iter :: "'re \<Rightarrow> string \<Rightarrow> (nat \<times> nat) list"

fun matches_ok :: "string \<Rightarrow> nat \<Rightarrow> (nat \<times> nat) list \<Rightarrow> bool" where
  "matches_ok v from [] \<longleftrightarrow> True"
| "matches_ok v from ((s, e) # ms) \<longleftrightarrow>
     from \<le> s \<and> s \<le> e \<and> e \<le> length v \<and> is_char_boundary v s \<and> is_char_boundary v e \<and> matches_ok v e ms"

definition regex_lib_ok :: "'re regex_lib \<Rightarrow> bool" where
  "regex_lib_ok lib \<longleftrightarrow> (\<forall>re v. matches_ok v 0 (rx_find_iter lib re v))"

record 're redactor =
  patterns :: "'re list"

fun compile_patterns :: "'re regex_lib \<Rightarrow> string list \<Rightarrow> ('re list, policy_error) result" where
  "compile_patterns lib [] = Inr []"
| "compile_patterns lib (p # ps) =
     (case rx_new lib p of
        Inl source \<Rightarrow> Inl (InvalidRedaction p source)
      | Inr re \<Rightarrow> and_then (compile_patterns lib ps) (\<lambda>res. Inr (re # res)))"

definition redactor_new :: "'re regex_lib \<Rightarrow> string list \<Rightarrow> ('re redactor, policy_error) result" where
  "redactor_new lib ps = and_then (compile_patterns lib ps) (\<lambda>res. Inr \<lparr>patterns = res\<rparr>)"

definition REPLACEMENT :: string where
  "REPLACEMENT = ''[REDACTED]''"

definition push_bounded :: "string \<Rightarrow> string \<Rightarrow> nat \<Rightarrow> string \<times> bool" where
  "push_bounded output value maximum_bytes =
     (let remaining = sat_sub maximum_bytes (length output)
      in if length value \<le> remaining then (output @ value, True)
         else (output @ take (floor_char_boundary value remaining) value, False))"

text \<open>\<^verbatim>\<open>&value[from..to]\<close> panics, \<^const>\<open>None\<close>, unless both ends are character boundaries.\<close>

definition str_slice :: "string \<Rightarrow> nat \<Rightarrow> nat \<Rightarrow> string option" where
  "str_slice s from to =
     (if from \<le> to \<and> to \<le> length s \<and> is_char_boundary s from \<and> is_char_boundary s to
      then Some (take (to - from) (drop from s))
      else None)"

fun replace_all_loop :: "string \<Rightarrow> nat \<Rightarrow> nat \<Rightarrow> (nat \<times> nat) list \<Rightarrow> string \<Rightarrow> string option" where
  "replace_all_loop value maximum_bytes previous_end [] output =
     (case str_slice value previous_end (length value) of
        None \<Rightarrow> None
      | Some rest \<Rightarrow> Some (fst (push_bounded output rest maximum_bytes)))"
| "replace_all_loop value maximum_bytes previous_end ((s, e) # ms) output =
     (case str_slice value previous_end s of
        None \<Rightarrow> None
      | Some segment \<Rightarrow>
          (case push_bounded output segment maximum_bytes of
             (output1, False) \<Rightarrow> Some output1
           | (output1, True) \<Rightarrow>
               if maximum_bytes < sat_add (length output1) (length REPLACEMENT) then Some output1
               else replace_all_loop value maximum_bytes e ms (output1 @ REPLACEMENT)))"

definition replace_all_bounded :: "'re regex_lib \<Rightarrow> 're \<Rightarrow> string \<Rightarrow> nat \<Rightarrow> string option" where
  "replace_all_bounded lib re value maximum_bytes =
     replace_all_loop value maximum_bytes 0 (rx_find_iter lib re value) []"

fun redact_rest :: "'re regex_lib \<Rightarrow> 're list \<Rightarrow> nat \<Rightarrow> string \<Rightarrow> string option" where
  "redact_rest lib [] maximum_bytes output = Some output"
| "redact_rest lib (re # res) maximum_bytes output =
     Option.bind (replace_all_bounded lib re output maximum_bytes) (redact_rest lib res maximum_bytes)"

text \<open>\<^verbatim>\<open>redact_bounded_into\<close>; the buffer of the caller is overwritten, so its content is not an argument.\<close>

definition redact_bounded :: "'re regex_lib \<Rightarrow> 're redactor \<Rightarrow> string \<Rightarrow> nat \<Rightarrow> string option" where
  "redact_bounded lib r value maximum_bytes =
     (case patterns r of
        [] \<Rightarrow> Some (fst (push_bounded [] value maximum_bytes))
      | first # res \<Rightarrow>
          Option.bind (replace_all_bounded lib first value maximum_bytes)
            (redact_rest lib res maximum_bytes))"

definition redact :: "'re regex_lib \<Rightarrow> 're redactor \<Rightarrow> string \<Rightarrow> string option" where
  "redact lib r value = redact_bounded lib r value (max (length value) (length REPLACEMENT))"

section \<open>Configuration\<close>

record policy_config =
  allowed_roots :: "path list"
  allowed_commands :: "string fset"
  denied_commands :: "string fset"
  environment_allowlist :: "string fset"
  redaction_patterns :: "string list"
  bazel_executable :: "path option"

definition default_allowed_commands :: "string fset" where
  "default_allowed_commands =
     {|''aquery'', ''build'', ''coverage'', ''cquery'', ''help'', ''info'', ''mod'', ''query'',
       ''test'', ''version''|}"

definition default_denied_commands :: "string fset" where
  "default_denied_commands =
     {|''clean'', ''fetch'', ''mobile-install'', ''run'', ''shutdown'', ''sync''|}"

definition policy_config_default :: policy_config where
  "policy_config_default =
     \<lparr>allowed_roots = [], allowed_commands = default_allowed_commands,
      denied_commands = default_denied_commands, environment_allowlist = {||},
      redaction_patterns = [], bazel_executable = None\<rparr>"

definition validate_policy_config :: "'re regex_lib \<Rightarrow> policy_config \<Rightarrow> (unit, policy_error) result" where
  "validate_policy_config lib config =
     and_then (redactor_new lib (redaction_patterns config)) (\<lambda>_. Inr ())"

record raw_policy_config =
  raw_allowed_roots :: "path list"
  raw_allowed_commands :: "string fset"
  raw_denied_commands :: "string fset"
  raw_environment_allowlist :: "string fset"
  raw_redaction_patterns :: "string list"
  raw_bazel_executable :: "path option"

definition raw_policy_config_default :: raw_policy_config where
  "raw_policy_config_default =
     \<lparr>raw_allowed_roots = allowed_roots policy_config_default,
      raw_allowed_commands = allowed_commands policy_config_default,
      raw_denied_commands = denied_commands policy_config_default,
      raw_environment_allowlist = environment_allowlist policy_config_default,
      raw_redaction_patterns = redaction_patterns policy_config_default,
      raw_bazel_executable = bazel_executable policy_config_default\<rparr>"

definition policy_config_try_from ::
  "'re regex_lib \<Rightarrow> raw_policy_config \<Rightarrow> (policy_config, policy_error) result"
where
  "policy_config_try_from lib raw =
     (let config =
            \<lparr>allowed_roots = raw_allowed_roots raw, allowed_commands = raw_allowed_commands raw,
             denied_commands = raw_denied_commands raw,
             environment_allowlist = raw_environment_allowlist raw,
             redaction_patterns = raw_redaction_patterns raw,
             bazel_executable = raw_bazel_executable raw\<rparr>
      in and_then (validate_policy_config lib config) (\<lambda>_. Inr config))"

section \<open>Commands, workspaces and environment\<close>

definition validate_command :: "policy_config \<Rightarrow> bazel_command \<Rightarrow> (unit, policy_error) result" where
  "validate_command config command =
     (if command_as_str command |\<in>| denied_commands config
      then Inl (CommandDenied (command_as_str command))
      else if command_as_str command |\<notin>| allowed_commands config
      then Inl (CommandUnsupported (command_as_str command))
      else Inr ())"

definition WORKSPACE_MARKERS :: "string list" where
  "WORKSPACE_MARKERS = [''MODULE.bazel'', ''WORKSPACE.bazel'', ''WORKSPACE'']"

definition root_allows :: "file_system \<Rightarrow> path \<Rightarrow> path \<Rightarrow> bool" where
  "root_allows fs canonical root =
     (case canonicalize fs root of
        Inl _ \<Rightarrow> False
      | Inr canonical_root \<Rightarrow> path_starts_with canonical canonical_root)"

definition validate_workspace ::
  "file_system \<Rightarrow> path \<Rightarrow> path list \<Rightarrow> (path, policy_error) result"
where
  "validate_workspace fs workspace roots =
     (if \<not> is_absolute workspace then Inl (WorkspaceNotAbsolute workspace)
      else case canonicalize fs workspace of
             Inl e \<Rightarrow> Inl (PolicyIo e)
           | Inr canonical \<Rightarrow>
               if roots \<noteq> [] \<and> \<not> list_ex (root_allows fs canonical) roots
               then Inl (WorkspaceNotAllowed canonical)
               else if \<not> list_ex (\<lambda>marker. is_file fs (path_join canonical [Normal marker])) WORKSPACE_MARKERS
               then Inl (NotBazelWorkspace canonical)
               else Inr canonical)"

definition ALWAYS_ALLOWED :: "string list" where
  "ALWAYS_ALLOWED = [''HOME'', ''PATH'', ''TMPDIR'', ''TEMP'', ''TMP'', ''USER'']"

definition is_allowed :: "string \<Rightarrow> policy_config \<Rightarrow> bool \<Rightarrow> bool" where
  "is_allowed name config windows =
     (if windows
      then eq_ignore_ascii_case name ''SystemRoot'' \<or>
           list_ex (eq_ignore_ascii_case name) ALWAYS_ALLOWED \<or>
           fBex (environment_allowlist config) (eq_ignore_ascii_case name)
      else name \<in> set ALWAYS_ALLOWED \<or> name |\<in>| environment_allowlist config)"

text \<open>The variables of the process are an argument; a name that is listed twice keeps its last value.\<close>

definition filtered_environment ::
  "bool \<Rightarrow> (string \<times> string) list \<Rightarrow> policy_config \<Rightarrow> (string, string) fmap"
where
  "filtered_environment windows vars config =
     fold (\<lambda>(name, value) m. fmupd name value m)
       (filter (\<lambda>(name, _). is_allowed name config windows) vars) fmempty"

section \<open>Executables\<close>

definition executable :: "file_system \<Rightarrow> path \<Rightarrow> path option" where
  "executable fs p =
     (case metadata fs p of
        Inr (RegularFile x) \<Rightarrow> if x then Some p else None
      | _ \<Rightarrow> None)"

definition is_excluded :: "file_system \<Rightarrow> path \<Rightarrow> path option \<Rightarrow> bool" where
  "is_excluded fs candidate excluded =
     (case excluded of
        None \<Rightarrow> False
      | Some shim \<Rightarrow>
          (case (canonicalize fs candidate, canonicalize fs shim) of
             (Inr a, Inr b) \<Rightarrow> a = b
           | _ \<Rightarrow> candidate = shim))"

text \<open>\<^verbatim>\<open>which_all\<close> of the \<^verbatim>\<open>which\<close> crate is a parameter: the candidates for a name, if it succeeds.\<close>

definition path_candidates :: "(string \<Rightarrow> path list option) \<Rightarrow> path list" where
  "path_candidates which_all =
     concat (map (\<lambda>name. case which_all name of None \<Rightarrow> [] | Some ps \<Rightarrow> ps) [''bazelisk'', ''bazel''])"

definition resolve_bazel_executable_excluding ::
  "file_system \<Rightarrow> (string \<Rightarrow> path list option) \<Rightarrow> path \<Rightarrow> policy_config \<Rightarrow> path option
     \<Rightarrow> (path, policy_error) result"
where
  "resolve_bazel_executable_excluding fs which_all workspace config excluded =
     (case bazel_executable config of
        Some configured \<Rightarrow>
          and_then (ok_or (executable fs configured) (ExecutableNotFound configured))
            (\<lambda>p. if is_excluded fs p excluded then Inl (ExecutableRecursion p) else Inr p)
      | None \<Rightarrow>
          (let wrapper = path_join workspace [Normal ''tools'', Normal ''bazel'']
           in case Option.bind (executable fs wrapper)
                     (\<lambda>p. if is_excluded fs p excluded then None else Some p) of
                Some p \<Rightarrow> Inr p
              | None \<Rightarrow>
                  ok_or (find (\<lambda>p. \<not> is_excluded fs p excluded) (path_candidates which_all))
                    (ExecutableNotFound workspace)))"

definition resolve_bazel_executable ::
  "file_system \<Rightarrow> (string \<Rightarrow> path list option) \<Rightarrow> path \<Rightarrow> policy_config \<Rightarrow> (path, policy_error) result"
where
  "resolve_bazel_executable fs which_all workspace config =
     resolve_bazel_executable_excluding fs which_all workspace config None"

text \<open>
  The outcome of \<^verbatim>\<open>which_in\<close> for \<^verbatim>\<open>aspect\<close> on the search path from the working directory, and
  whether the working directory is known, are arguments.
\<close>

definition resolve_aspect_on_path :: "path option \<Rightarrow> (path, policy_error) result" where
  "resolve_aspect_on_path found = ok_or found (AspectExecutableNotFound [Normal ''aspect''])"

definition resolve_aspect_executable ::
  "file_system \<Rightarrow> bool \<Rightarrow> path option \<Rightarrow> path option \<Rightarrow> (path, policy_error) result"
where
  "resolve_aspect_executable fs current_dir_known found configured =
     (case configured of
        Some p \<Rightarrow> ok_or (executable fs p) (AspectExecutableNotFound p)
      | None \<Rightarrow>
          if \<not> current_dir_known then Inl (AspectExecutableNotFound [Normal ''aspect''])
          else resolve_aspect_on_path found)"

section \<open>Arguments\<close>

definition MAX_ARGUMENT_BYTES :: nat where
  "MAX_ARGUMENT_BYTES = 64 * 1024"

definition MAX_ARGUMENT_COUNT :: nat where
  "MAX_ARGUMENT_COUNT = 10000"

definition MAX_ARGUMENTS_BYTES :: nat where
  "MAX_ARGUMENTS_BYTES = 2 * 1024 * 1024"

definition RESERVED_FLAGS :: "string list" where
  "RESERVED_FLAGS =
     [''--build_event_binary_file'', ''--build_event_binary_file_path_conversion'',
      ''--build_event_publish_all_actions'', ''--build_event_json_file'',
      ''--build_event_text_file'', ''--color'', ''--curses'', ''--invocation_id'',
      ''--show_progress'', ''--show_result'', ''--subcommands'', ''--nosubcommands'', ''-s'',
      ''--run'', ''--norun'', ''--script_path'', ''--omit_run_args'', ''--noomit_run_args'',
      ''--experimental_run_bep_event_include_residue'',
      ''--noexperimental_run_bep_event_include_residue'', ''--run_under'', ''--run_env'',
      ''--test_output'', ''--test_summary'', ''--tool_tag'']"

definition sets_flag :: "string \<Rightarrow> string \<Rightarrow> bool" where
  "sets_flag argument flag = (argument = flag \<or> starts_with argument (flag @ ''=''))"

fun argument_shape_loop :: "string list \<Rightarrow> nat \<Rightarrow> (unit, policy_error) result" where
  "argument_shape_loop [] total_bytes = Inr ()"
| "argument_shape_loop (argument # rest) total_bytes =
     (if CHR 0x00 \<in> set argument then Inl InvalidArgument
      else if MAX_ARGUMENT_BYTES < length argument then Inl (ArgumentTooLong MAX_ARGUMENT_BYTES)
      else if MAX_ARGUMENTS_BYTES < sat_add total_bytes (length argument)
      then Inl (ArgumentsTooLarge MAX_ARGUMENTS_BYTES)
      else argument_shape_loop rest (sat_add total_bytes (length argument)))"

definition validate_argument_shape :: "string list \<Rightarrow> (unit, policy_error) result" where
  "validate_argument_shape arguments =
     (if MAX_ARGUMENT_COUNT < length arguments then Inl (TooManyArguments MAX_ARGUMENT_COUNT)
      else argument_shape_loop arguments 0)"

fun reserved_loop :: "string list \<Rightarrow> (unit, policy_error) result" where
  "reserved_loop [] = Inr ()"
| "reserved_loop (argument # rest) =
     (case find (sets_flag argument) RESERVED_FLAGS of
        Some flag \<Rightarrow> Inl (ReservedFlag flag)
      | None \<Rightarrow> reserved_loop rest)"

definition validate_arguments :: "string list \<Rightarrow> (unit, policy_error) result" where
  "validate_arguments arguments =
     and_then (validate_argument_shape arguments) (\<lambda>_. reserved_loop arguments)"

definition aspect_nested :: "string \<Rightarrow> (unit, policy_error) result" where
  "aspect_nested nested =
     (case find (sets_flag nested) RESERVED_FLAGS of
        Some flag \<Rightarrow> Inl (ReservedFlag flag)
      | None \<Rightarrow>
          if list_ex (sets_flag nested) [''--bes_backend'', ''--bes_upload_mode'']
          then Inl (AspectReservedArgument nested)
          else Inr ())"

definition aspect_header :: "string \<Rightarrow> (unit, policy_error) result" where
  "aspect_header header =
     (let name = (case split_once header CHR ''='' of Some (a, _) \<Rightarrow> a | None \<Rightarrow> header)
      in if eq_ignore_ascii_case name ''x-bazel-mcp-invocation-id''
         then Inl (AspectReservedArgument ''--bes-header=x-bazel-mcp-invocation-id=...'')
         else Inr ())"

definition aspect_argument :: "bazel_command \<Rightarrow> bool \<Rightarrow> string \<Rightarrow> (unit, policy_error) result" where
  "aspect_argument command allow_workspace_mutation argument =
     (if list_ex (sets_flag argument) [''--task:id'', ''--task:timing-summary'']
      then Inl (AspectReservedArgument argument)
      else if argument = ''--bazel-startup-flag'' \<or> starts_with argument ''--bazel-startup-flag=''
      then Inl (AspectReservedArgument ''--bazel-startup-flag (use startup_arguments instead)'')
      else if argument = ''--bazel-flag''
      then Inl (AspectReservedArgument ''--bazel-flag requires the --bazel-flag=... form'')
      else
        and_then
          (case strip_prefix argument ''--bazel-flag='' of
             Some nested \<Rightarrow> aspect_nested nested
           | None \<Rightarrow> Inr ())
          (\<lambda>_.
             if argument = ''--bes-header''
             then Inl (AspectReservedArgument ''--bes-header requires the --bes-header=... form'')
             else
               and_then
                 (case strip_prefix argument ''--bes-header='' of
                    Some header \<Rightarrow> aspect_header header
                  | None \<Rightarrow> Inr ())
                 (\<lambda>_.
                    if command_as_str command = ''lint'' \<and> \<not> allow_workspace_mutation \<and>
                       (argument = ''--fix'' \<or> starts_with argument ''--fix='')
                    then Inl AspectWorkspaceMutationDenied
                    else Inr ())))"

fun validate_aspect_arguments ::
  "bazel_command \<Rightarrow> string list \<Rightarrow> bool \<Rightarrow> (unit, policy_error) result"
where
  "validate_aspect_arguments command [] allow_workspace_mutation = Inr ()"
| "validate_aspect_arguments command (argument # rest) allow_workspace_mutation =
     and_then (aspect_argument command allow_workspace_mutation argument)
       (\<lambda>_. validate_aspect_arguments command rest allow_workspace_mutation)"

definition validate_run_arguments ::
  "bazel_command \<Rightarrow> string list \<Rightarrow> string option \<Rightarrow> string list \<Rightarrow> (unit, policy_error) result"
where
  "validate_run_arguments command arguments target program_args =
     (if command \<noteq> Run
      then (if target \<noteq> None \<or> program_args \<noteq> [] then Inl RunFieldsOnNonRunCommand else Inr ())
      else
        and_then
          (ok_or (case target of Some t \<Rightarrow> if trim_is_empty t then None else Some t | None \<Rightarrow> None)
             RunTargetRequired)
          (\<lambda>t. and_then (validate_argument_shape [t])
             (\<lambda>_.
                if starts_with t ''-'' \<or> t = ''--'' then Inl InvalidRunTarget
                else if list_ex (\<lambda>argument. argument = ''--'' \<or> \<not> starts_with argument ''-'') arguments
                then Inl RunArgumentsMustBeFlags
                else validate_argument_shape program_args)))"

definition incompatible_output :: "string \<Rightarrow> bool" where
  "incompatible_output output \<longleftrightarrow>
     output \<in> set [''proto'', ''streamed_proto'', ''jsonproto'', ''streamed_jsonproto'']"

fun query_arguments_loop :: "string list \<Rightarrow> (unit, policy_error) result" where
  "query_arguments_loop [] = Inr ()"
| "query_arguments_loop (argument # rest) =
     (if argument = ''--output''
      then (case rest of
              [] \<Rightarrow> Inr ()
            | output # rest1 \<Rightarrow>
                if incompatible_output output then Inl (IncompatibleQueryOutput output)
                else query_arguments_loop rest1)
      else (case strip_prefix argument ''--output='' of
              Some output \<Rightarrow>
                if incompatible_output output then Inl (IncompatibleQueryOutput output)
                else query_arguments_loop rest
            | None \<Rightarrow> query_arguments_loop rest))"

definition validate_query_arguments ::
  "bazel_command \<Rightarrow> string list \<Rightarrow> (unit, policy_error) result"
where
  "validate_query_arguments command arguments =
     (if class_of_command command \<noteq> QueryClass then Inr () else query_arguments_loop arguments)"

section \<open>The key of an output base\<close>

fun normalize_loop :: "path \<Rightarrow> path \<Rightarrow> path" where
  "normalize_loop normalized [] = normalized"
| "normalize_loop normalized (CurDir # rest) = normalize_loop normalized rest"
| "normalize_loop normalized (ParentDir # rest) = normalize_loop (path_pop normalized) rest"
| "normalize_loop normalized (c # rest) = normalize_loop (path_join normalized [c]) rest"

definition normalize_absolute :: "path \<Rightarrow> path" where
  "normalize_absolute p = normalize_loop [] p"

function missing_tail_loop ::
  "file_system \<Rightarrow> path \<Rightarrow> string list \<Rightarrow> (path \<times> string list, policy_error) result"
where
  "missing_tail_loop fs existing missing =
     (case symlink_metadata fs existing of
        Inr _ \<Rightarrow> Inr (existing, missing)
      | Inl e \<Rightarrow>
          if e \<noteq> NotFound then Inl (PolicyIo e)
          else (case path_file_name existing of
                  None \<Rightarrow> Inl (PolicyIo OtherIo)
                | Some name \<Rightarrow>
                    (case path_parent existing of
                       None \<Rightarrow> Inl (PolicyIo OtherIo)
                     | Some parent \<Rightarrow> missing_tail_loop fs parent (missing @ [name]))))"
  by pat_completeness auto

termination
  by (relation "measure (\<lambda>(fs, existing, missing). length existing)")
    (auto simp: path_parent_def split: if_splits)

definition canonicalize_with_missing_tail :: "file_system \<Rightarrow> path \<Rightarrow> (path, policy_error) result" where
  "canonicalize_with_missing_tail fs p =
     and_then (missing_tail_loop fs (normalize_absolute p) [])
       (\<lambda>(existing, missing).
          case canonicalize fs existing of
            Inl e \<Rightarrow> Inl (PolicyIo e)
          | Inr canonical \<Rightarrow> Inr (fold (\<lambda>w q. path_join q [Normal w]) (rev missing) canonical))"

definition base_path :: "path \<Rightarrow> string \<Rightarrow> path" where
  "base_path workspace v =
     (if is_absolute (path_of v) then path_of v else path_join workspace (path_of v))"

definition select_output_base ::
  "file_system \<Rightarrow> path \<Rightarrow> string \<Rightarrow> path option \<Rightarrow> (path option, policy_error) result"
where
  "select_output_base fs workspace v selected =
     (if selected \<noteq> None then Inl RepeatedOutputBase
      else and_then (canonicalize_with_missing_tail fs (base_path workspace v)) (\<lambda>key. Inr (Some key)))"

fun output_base_loop ::
  "file_system \<Rightarrow> path \<Rightarrow> string list \<Rightarrow> path option \<Rightarrow> (path option, policy_error) result"
where
  "output_base_loop fs workspace [] selected = Inr selected"
| "output_base_loop fs workspace (argument # rest) selected =
     (if argument = ''--output_base''
      then (case rest of
              [] \<Rightarrow> Inl MissingOutputBaseValue
            | v # rest1 \<Rightarrow>
                and_then (select_output_base fs workspace v selected) (output_base_loop fs workspace rest1))
      else (case strip_prefix argument ''--output_base='' of
              None \<Rightarrow> output_base_loop fs workspace rest selected
            | Some v \<Rightarrow>
                and_then (select_output_base fs workspace v selected) (output_base_loop fs workspace rest)))"

definition effective_output_base ::
  "file_system \<Rightarrow> path \<Rightarrow> string list \<Rightarrow> (path option, policy_error) result"
where
  "effective_output_base fs workspace startup_args =
     output_base_loop fs workspace startup_args None"

section \<open>Redaction in full\<close>

text \<open>The text with every match replaced, with no bound: what redaction is meant to compute.\<close>

fun replace_all :: "string \<Rightarrow> nat \<Rightarrow> (nat \<times> nat) list \<Rightarrow> string" where
  "replace_all v from [] = drop from v"
| "replace_all v from ((s, e) # ms) = take (s - from) (drop from v) @ REPLACEMENT @ replace_all v e ms"

definition redact_full :: "'re regex_lib \<Rightarrow> 're list \<Rightarrow> string \<Rightarrow> string" where
  "redact_full lib res v = fold (\<lambda>re v. replace_all v 0 (rx_find_iter lib re v)) res v"

lemma push_bounded_cases:
  obtains "push_bounded output v n = (output @ v, True)" "length output + length v \<le> max n (length output)"
  | k where "push_bounded output v n = (output @ take k v, False)" "length output + k \<le> max n (length output)"
    "k \<le> length v" "n < length output + length v"
proof (cases "length v \<le> n - length output")
  case True
  then show ?thesis using that(1) by (simp add: push_bounded_def)
next
  case False
  then show ?thesis
    using that(2) [of "floor_char_boundary v (n - length output)"]
      floor_char_boundary_le [of v "n - length output"]
    by (auto simp: push_bounded_def)
qed

text \<open>The bounded loop never panics, keeps to the bound and computes a prefix of the full text.\<close>

lemma replace_all_loop_spec:
  assumes "matches_ok v start ms" and "start \<le> length v" and "is_char_boundary v start"
    and "length acc \<le> n" and "n < u64_max"
  shows "\<exists>out. replace_all_loop v n start ms acc = Some out \<and> length out \<le> n \<and>
    prefix out (acc @ replace_all v start ms) \<and>
    (length acc + length (replace_all v start ms) \<le> n \<longrightarrow> out = acc @ replace_all v start ms)"
  using assms
proof (induction v n start ms acc rule: replace_all_loop.induct)
  case (1 v n start acc)
  have slice: "str_slice v start (length v) = Some (drop start v)"
    using 1 by (simp add: str_slice_def is_char_boundary_def)
  show ?case
    by (rule push_bounded_cases [of acc "drop start v" n])
      (use 1 slice in \<open>auto simp: take_is_prefix\<close>)
next
  case (2 v n start s e ms acc)
  let ?seg = "take (s - start) (drop start v)"
  have slice: "str_slice v start s = Some ?seg" using 2 by (simp add: str_slice_def)
  show ?case
  proof (cases rule: push_bounded_cases [of acc ?seg n])
    case 1
    let ?out = "acc @ ?seg"
    show ?thesis
    proof (cases "n < sat_add (length ?out) (length REPLACEMENT)")
      case True
      then have "n < length ?out + length REPLACEMENT" using sat_add_le le_trans not_le by blast
      then show ?thesis using True slice 1 2(5) by auto
    next
      case False
      then have len: "length (?out @ REPLACEMENT) \<le> n"
        using 1(2) 2(5,6) by (auto simp: sat_add_def)
      have "\<exists>out. replace_all_loop v n e ms (?out @ REPLACEMENT) = Some out \<and> length out \<le> n \<and>
          prefix out ((?out @ REPLACEMENT) @ replace_all v e ms) \<and>
          (length (?out @ REPLACEMENT) + length (replace_all v e ms) \<le> n \<longrightarrow>
             out = (?out @ REPLACEMENT) @ replace_all v e ms)"
        by (rule 2(1) [OF slice 1(1) [symmetric]]) (use False len 2 in auto)
      then show ?thesis using False slice 1 by auto
    qed
  next
    case (2 k)
    have "prefix (acc @ take k ?seg) (acc @ ?seg @ REPLACEMENT @ replace_all v e ms)"
      unfolding same_prefix_prefix by (rule prefix_prefix [OF take_is_prefix])
    then show ?thesis using slice 2 "2.prems"(4) by (auto simp del: append_take_drop_id take_take)
  qed
qed

lemma replace_all_bounded_spec:
  assumes "regex_lib_ok lib" and "n < u64_max"
  shows "\<exists>out. replace_all_bounded lib re v n = Some out \<and> length out \<le> n \<and>
    prefix out (replace_all v 0 (rx_find_iter lib re v)) \<and>
    (length (replace_all v 0 (rx_find_iter lib re v)) \<le> n \<longrightarrow> out = replace_all v 0 (rx_find_iter lib re v))"
  using replace_all_loop_spec [of v 0 "rx_find_iter lib re v" "[]" n] assms
  by (simp add: replace_all_bounded_def regex_lib_ok_def is_char_boundary_def)

lemma redact_rest_spec:
  assumes "regex_lib_ok lib" and "n < u64_max" and "length v \<le> n"
  shows "\<exists>out. redact_rest lib res n v = Some out \<and> length out \<le> n \<and>
    ((\<forall>k \<le> length res. length (redact_full lib (take k res) v) \<le> n) \<longrightarrow> out = redact_full lib res v)"
  using assms(3)
proof (induction res arbitrary: v)
  case (Cons re res)
  let ?full = "replace_all v 0 (rx_find_iter lib re v)"
  obtain out where out: "replace_all_bounded lib re v n = Some out" "length out \<le> n"
    "length ?full \<le> n \<longrightarrow> out = ?full"
    using replace_all_bounded_spec [OF assms(1,2)] by blast
  obtain out' where out': "redact_rest lib res n out = Some out'" "length out' \<le> n"
    "(\<forall>k \<le> length res. length (redact_full lib (take k res) out) \<le> n) \<longrightarrow> out' = redact_full lib res out"
    using Cons.IH [OF out(2)] by blast
  have "out' = redact_full lib (re # res) v"
    if fits: "\<forall>k \<le> length (re # res). length (redact_full lib (take k (re # res)) v) \<le> n"
  proof -
    have full: "out = ?full" using fits [rule_format, of 1] out(3) by (simp add: redact_full_def)
    have "length (redact_full lib (take k res) ?full) \<le> n" if "k \<le> length res" for k
      using fits [rule_format, of "Suc k"] that by (simp add: redact_full_def)
    then show ?thesis using out'(3) full by (simp add: redact_full_def)
  qed
  then show ?case using out out' by auto
qed (simp add: redact_full_def)

section \<open>Arguments\<close>

lemma argument_shape_loop_iff:
  "n \<le> MAX_ARGUMENTS_BYTES \<Longrightarrow>
   argument_shape_loop arguments n = Inr () \<longleftrightarrow>
     list_all (\<lambda>a. CHR 0x00 \<notin> set a \<and> length a \<le> MAX_ARGUMENT_BYTES) arguments \<and>
     n + sum_list (map length arguments) \<le> MAX_ARGUMENTS_BYTES"
proof (induction arguments arbitrary: n)
  case (Cons a arguments)
  show ?case
  proof (cases "sat_add n (length a) \<le> MAX_ARGUMENTS_BYTES")
    case True
    then have "sat_add n (length a) = n + length a"
      by (simp add: sat_add_def MAX_ARGUMENTS_BYTES_def u64_max_def)
    then show ?thesis using True Cons.IH [of "n + length a"] by (auto simp: not_less add.assoc)
  next
    case False
    then have "MAX_ARGUMENTS_BYTES < n + length a" using sat_add_le [of n "length a"] by linarith
    then show ?thesis using False by simp
  qed
qed simp

lemma validate_argument_shape_iff:
  "validate_argument_shape arguments = Inr () \<longleftrightarrow>
     length arguments \<le> MAX_ARGUMENT_COUNT \<and>
     list_all (\<lambda>a. CHR 0x00 \<notin> set a \<and> length a \<le> MAX_ARGUMENT_BYTES) arguments \<and>
     sum_list (map length arguments) \<le> MAX_ARGUMENTS_BYTES"
  using argument_shape_loop_iff [of 0 arguments] by (auto simp: validate_argument_shape_def)

lemma find_None_list_all: "find P xs = None \<longleftrightarrow> list_all (\<lambda>x. \<not> P x) xs"
  by (auto simp: find_None_iff list_all_iff)

lemma reserved_loop_iff:
  "reserved_loop arguments = Inr () \<longleftrightarrow>
     list_all (\<lambda>a. list_all (\<lambda>flag. \<not> sets_flag a flag) RESERVED_FLAGS) arguments"
  by (induction arguments) (auto simp: find_None_list_all [symmetric] split: option.split)

lemma aspect_iff:
  "validate_aspect_arguments command arguments allow = Inr () \<longleftrightarrow>
     list_all (\<lambda>a. aspect_argument command allow a = Inr ()) arguments"
  by (induction arguments) (auto simp: result_simps)

lemma query_arguments_separate:
  "query_arguments_loop (''--output'' # output # rest) = query_arguments_loop ((''--output='' @ output) # rest)"
  by (simp add: strip_prefix_def starts_with_def)

section \<open>Output bases\<close>

lemma normalize_loop_names: "normalize_loop (RootDir # map Normal vs) (map Normal ws) = abs_path (vs @ ws)"
proof (induction ws arbitrary: vs)
  case (Cons w ws)
  then show ?case using Cons.IH [of "vs @ [w]"] by (simp add: path_join_def is_absolute_def)
qed (simp add: abs_path_def)

lemma normalize_abs_path [simp]: "normalize_absolute (abs_path ws) = abs_path ws"
  using normalize_loop_names [of "[]" ws]
  by (simp add: normalize_absolute_def abs_path_def path_join_def is_absolute_def)

text \<open>A normalized absolute path is a list of names below the root.\<close>

lemma normalize_loop_shape:
  "RootDir \<notin> set p \<Longrightarrow> \<exists>us. normalize_loop (abs_path vs) p = abs_path us"
proof (induction p arbitrary: vs)
  case (Cons c p)
  have "path_pop (abs_path vs) = abs_path (butlast vs)"
    by (cases vs rule: rev_cases) (auto simp: path_pop_def path_parent_def abs_path_def)
  moreover have "path_join (abs_path vs) [Normal w] = abs_path (vs @ [w])" for w
    by (simp add: path_join_def is_absolute_def abs_path_def)
  ultimately show ?case using Cons by (cases c) auto
qed auto

lemma fold_push: "fold (\<lambda>w q. path_join q [Normal w]) ws (abs_path vs) = abs_path (vs @ ws)"
proof (induction ws arbitrary: vs)
  case (Cons w ws)
  then show ?case
    using Cons.IH [of "vs @ [w]"] by (simp add: path_join_def is_absolute_def abs_path_def)
qed (simp add: abs_path_def)

lemma abs_path_parts:
  "path_file_name (abs_path (ws @ [w])) = Some w" "path_parent (abs_path (ws @ [w])) = Some (abs_path ws)"
  "butlast (abs_path (ws @ [w])) = abs_path ws" "path_file_name (abs_path []) = None"
  by (simp_all add: path_file_name_def path_parent_def abs_path_def)

declare missing_tail_loop.simps [simp del]

text \<open>What does not exist has no links: the loop goes up to the place where the path leaves the tree.\<close>

lemma walk_missing:
  assumes "real_dir fs ws" and "node_at fs (ws @ [w]) = None"
  shows "walk links fs [] (abs_path (ws @ w # us)) = Inl NotFound"
proof -
  have "walk links fs [] (map Normal ws @ map Normal (w # us)) = walk links fs ws (map Normal (w # us))"
    using walk_down [of fs "[]" ws links "map Normal (w # us)"] assms(1) by simp
  then show ?thesis using assms(2) by (simp add: abs_path_def)
qed

lemma missing_tail_loop_up:
  assumes "real_dir fs ws" and "node_at fs (ws @ [w]) = None"
  shows "missing_tail_loop fs (abs_path (ws @ w # us)) missing =
    missing_tail_loop fs (abs_path ws) (missing @ rev (w # us))"
proof (induction us arbitrary: missing rule: rev_induct)
  case Nil
  have "symlink_metadata fs (abs_path (ws @ [w])) = Inl NotFound"
    using assms walk_abs_dir [OF assms(1)]
    by (auto simp: symlink_metadata_def abs_path_parts ok_or_def real_dir_def)
  then show ?case
    by (subst missing_tail_loop.simps) (simp add: abs_path_parts)
next
  case (snoc u us)
  have "symlink_metadata fs (abs_path ((ws @ w # us) @ [u])) = Inl NotFound"
    using walk_missing [OF assms] unfolding symlink_metadata_def abs_path_parts by simp
  then have "missing_tail_loop fs (abs_path ((ws @ w # us) @ [u])) missing =
      missing_tail_loop fs (abs_path (ws @ w # us)) (missing @ [u])"
    by (subst missing_tail_loop.simps) (simp only: abs_path_parts sum.case option.case if_False simp_thms)
  then show ?case using snoc [of "missing @ [u]"] by simp
qed

lemma symlink_metadata_real:
  assumes "real_path fs ws"
  shows "\<exists>n. symlink_metadata fs (abs_path ws) = Inr n"
proof (cases ws rule: rev_cases)
  case Nil
  then show ?thesis
    by (simp add: symlink_metadata_def abs_path_parts metadata_def walk_abs_dir node_at_def ok_or_def)
next
  case (snoc vs w)
  have dir: "real_dir fs vs" and "\<exists>n. node_at fs ws = Some n"
    using assms snoc by (auto simp: real_path_def real_dir_append)
  then show ?thesis
    using snoc by (auto simp: symlink_metadata_def abs_path_parts walk_abs_dir ok_or_def real_dir_def)
qed

lemma missing_tail_real:
  "real_path fs ws \<Longrightarrow> missing_tail_loop fs (abs_path ws) missing = Inr (abs_path ws, missing)"
  using symlink_metadata_real [of fs ws] by (subst missing_tail_loop.simps) auto

text \<open>The loop stops where the rest of the path is missing.\<close>

lemma missing_tail_loop_result:
  assumes "missing_tail_loop fs (abs_path us) missing = Inr (existing, missing')"
  shows "\<exists>vs ws. us = vs @ ws \<and> existing = abs_path vs \<and> missing' = missing @ rev ws \<and>
    (ws = [] \<or> symlink_metadata fs (abs_path (vs @ [hd ws])) = Inl NotFound)"
  using assms
proof (induction us arbitrary: missing rule: rev_induct)
  case Nil
  then show ?case
    by (subst (asm) missing_tail_loop.simps) (auto simp: abs_path_parts split: sum.splits if_splits)
next
  case (snoc u us)
  show ?case
  proof (cases "symlink_metadata fs (abs_path (us @ [u]))")
    case (Inr n)
    then have "missing_tail_loop fs (abs_path (us @ [u])) missing = Inr (abs_path (us @ [u]), missing)"
      by (subst missing_tail_loop.simps) simp
    then show ?thesis using snoc.prems by (intro exI [of _ "us @ [u]"] exI [of _ "[]"]) simp
  next
    case (Inl e)
    have step: "missing_tail_loop fs (abs_path (us @ [u])) missing =
        (if e \<noteq> NotFound then Inl (PolicyIo e) else missing_tail_loop fs (abs_path us) (missing @ [u]))"
      using Inl by (subst missing_tail_loop.simps) (simp add: abs_path_parts)
    then have e: "e = NotFound" using snoc.prems by (auto split: if_splits)
    then have "missing_tail_loop fs (abs_path us) (missing @ [u]) = Inr (existing, missing')"
      using snoc.prems step by simp
    then obtain vs ws where *: "us = vs @ ws" "existing = abs_path vs" "missing' = (missing @ [u]) @ rev ws"
      "ws = [] \<or> symlink_metadata fs (abs_path (vs @ [hd ws])) = Inl NotFound"
      using snoc.IH by blast
    have "symlink_metadata fs (abs_path (vs @ [hd (ws @ [u])])) = Inl NotFound"
      using * Inl e by (cases ws) simp_all
    then show ?thesis using * by (intro exI [of _ vs] exI [of _ "ws @ [u]"]) simp
  qed
qed

text \<open>The key of a path that is resolved to a place with missing names below it is stable.\<close>

lemma missing_tail_key:
  assumes "canonicalize_with_missing_tail fs p = Inr key" and "RootDir \<notin> set (tl p)" and "is_absolute p"
  shows "canonicalize_with_missing_tail fs key = Inr key"
proof -
  obtain q where p: "p = RootDir # q" using assms(3) by (auto simp: is_absolute_def split: list.splits component.splits)
  obtain us where us: "normalize_absolute p = abs_path us"
    using normalize_loop_shape [of q "[]"] assms(2) p
    by (auto simp: normalize_absolute_def abs_path_def path_join_def)
  then obtain existing missing canonical where r: "missing_tail_loop fs (abs_path us) [] = Inr (existing, missing)"
    "canonicalize fs existing = Inr canonical"
    "key = fold (\<lambda>w q. path_join q [Normal w]) (rev missing) canonical"
    using assms(1) unfolding canonicalize_with_missing_tail_def
    by (cases "missing_tail_loop fs (abs_path us) []"; cases "canonicalize fs (fst (projr (missing_tail_loop fs (abs_path us) [])))")
      auto
  obtain vs ws where vs: "existing = abs_path vs" "missing = rev ws"
    "ws = [] \<or> symlink_metadata fs (abs_path (vs @ [hd ws])) = Inl NotFound"
    using missing_tail_loop_result [OF r(1)] by auto
  obtain cs where cs: "canonical = abs_path cs" "real_path fs cs" using canonicalize_real [OF r(2)] .
  have key: "key = abs_path (cs @ ws)" using r(3) vs(2) cs(1) by (simp add: fold_push)
  show ?thesis
  proof (cases ws)
    case Nil
    then show ?thesis using key cs missing_tail_real [OF cs(2)] walk_abs_real [OF cs(2)]
      by (simp add: canonicalize_with_missing_tail_def canonicalize_def)
  next
    case (Cons w ws')
    have walk: "walk MAXSYMLINKS fs [] (abs_path vs) = Inr cs"
      using r(2) vs(1) cs(1) by (auto simp: canonicalize_def result_simps)
    have nf: "symlink_metadata fs (abs_path (vs @ [w])) = Inl NotFound" using vs(3) Cons by simp
    then have node: "node_at fs (cs @ [w]) = None" and dir: "node_at fs cs = Some Directory"
      using walk by (auto simp: symlink_metadata_def abs_path_parts ok_or_def split: option.splits node.splits)
    have "real_dir fs cs" using cs(2) dir by (auto simp: real_path_def)
    then have "missing_tail_loop fs (abs_path (cs @ ws)) [] = Inr (abs_path cs, rev ws)"
      using missing_tail_loop_up [of fs cs w ws' "[]"] node Cons missing_tail_real [OF cs(2)] by simp
    then show ?thesis using key walk_abs_real [OF cs(2)]
      by (simp add: canonicalize_with_missing_tail_def canonicalize_def fold_push)
  qed
qed

lemma walk_prefix:
  "walk links fs dir (p @ [Normal u]) = Inr ws \<Longrightarrow> real_dir fs dir \<Longrightarrow>
     \<exists>d. walk links fs dir p = Inr d \<and> node_at fs d = Some Directory \<and> node_at fs (d @ [u]) \<noteq> None"
proof (induction links fs dir p rule: walk.induct)
  case (1 links fs dir)
  then show ?case by (auto simp: real_dir_def split: option.splits)
next
  case (5 links fs dir w rest)
  then show ?case
    by (auto simp: real_dir_append split: option.splits node.splits if_splits nat.splits)
qed (auto simp: real_dir_butlast)

lemma missing_tail_existing:
  assumes "canonicalize fs (abs_path us) = Inr q"
  shows "canonicalize_with_missing_tail fs (abs_path us) = Inr q"
proof -
  have "\<exists>n. symlink_metadata fs (abs_path us) = Inr n"
  proof (cases us rule: rev_cases)
    case Nil
    then show ?thesis using symlink_metadata_real [of fs "[]"] by (simp add: real_path_def)
  next
    case (snoc vs u)
    then obtain d where "walk MAXSYMLINKS fs [] (abs_path vs) = Inr d" "node_at fs d = Some Directory"
      "node_at fs (d @ [u]) \<noteq> None"
      using assms walk_prefix [of MAXSYMLINKS fs "[]" "abs_path vs" u]
      by (auto simp: canonicalize_def result_simps abs_path_def)
    then show ?thesis using snoc by (auto simp: symlink_metadata_def abs_path_parts ok_or_def)
  qed
  then have "missing_tail_loop fs (abs_path us) [] = Inr (abs_path us, [])"
    by (subst missing_tail_loop.simps) auto
  then show ?thesis using assms by (simp add: canonicalize_with_missing_tail_def)
qed

lemma path_of_one_root: "RootDir \<notin> set (tl (path_of s))" "is_absolute (path_of s) \<or> RootDir \<notin> set (path_of s)"
proof -
  have "RootDir \<notin> set (map component_of ws)" "RootDir \<notin> set (tl (map component_of ws))" for ws
    by (auto simp: component_of_def map_tl [symmetric])
  then show "RootDir \<notin> set (tl (path_of s))" "is_absolute (path_of s) \<or> RootDir \<notin> set (path_of s)"
    by (auto simp: path_of_def Let_def is_absolute_def)
qed

lemma base_path_shape:
  "is_absolute (base_path (abs_path w) v)" "RootDir \<notin> set (tl (base_path (abs_path w) v))"
  using path_of_one_root [of v]
  by (auto simp: base_path_def path_join_def is_absolute_def abs_path_def)

lemma output_base_loop_key:
  assumes "output_base_loop fs (abs_path w) args selected = Inr (Some key)"
  shows "selected = Some key \<or> (\<exists>v. canonicalize_with_missing_tail fs (base_path (abs_path w) v) = Inr key)"
  using assms
proof (induction fs "abs_path w" args selected rule: output_base_loop.induct)
  case (2 fs argument rest selected)
  have select: "select_output_base fs (abs_path w) v selected = Inr s \<Longrightarrow>
      \<exists>k. s = Some k \<and> canonicalize_with_missing_tail fs (base_path (abs_path w) v) = Inr k" for v s
    by (auto simp: select_output_base_def result_simps split: if_splits)
  show ?case
    using 2 by (auto simp: result_simps split: if_splits list.splits option.splits dest!: select)
qed auto

section \<open>Properties\<close>

text \<open>
  C17: An argument list is accepted exactly if it has at most ten thousand arguments, none of them
  with a NUL byte or longer than 64 KiB, of together at most 2 MiB, and none of them sets a flag
  the server owns, in either of its two spellings.
\<close>

theorem validate_arguments_iff:
  "validate_arguments arguments = Inr () \<longleftrightarrow>
     length arguments \<le> 10000 \<and> sum_list (map length arguments) \<le> 2097152 \<and>
     list_all (\<lambda>a. CHR 0x00 \<notin> set a \<and> length a \<le> 65536 \<and>
       list_all (\<lambda>flag. a \<noteq> flag \<and> \<not> prefix (flag @ ''='') a) RESERVED_FLAGS) arguments"
proof -
  have "validate_arguments arguments = Inr () \<longleftrightarrow>
      validate_argument_shape arguments = Inr () \<and> reserved_loop arguments = Inr ()"
    by (auto simp: validate_arguments_def result_simps)
  then show ?thesis
    by (auto simp: validate_argument_shape_iff reserved_loop_iff list_all_iff sets_flag_def
        starts_with_iff_prefix MAX_ARGUMENT_BYTES_def MAX_ARGUMENT_COUNT_def MAX_ARGUMENTS_BYTES_def)
qed


definition demo_tree :: file_system where
  "demo_tree =
     fmap_of_list
       [([''w''], Directory), ([''w'', ''MODULE.bazel''], RegularFile False), ([''cache''], Directory),
        ([''link''], Symlink [Normal ''cache'']), ([''allowed''], Directory),
        ([''allowed'', ''out''], Symlink [RootDir, Normal ''w''])]"




text \<open>
  C19: Redaction never fails and never exceeds its bound. Where the bound is wide enough for every
  stage, the result is the text with every match of every pattern replaced; with one pattern it is
  always a prefix of that text, so that no byte of a match is left in it.
\<close>

theorem redact_bounded_spec:
  assumes lib: "regex_lib_ok lib" and n: "maximum_bytes < u64_max"
  shows "\<exists>out. redact_bounded lib r v maximum_bytes = Some out \<and> length out \<le> maximum_bytes \<and>
    ((\<forall>k \<le> length (patterns r). length (redact_full lib (take k (patterns r)) v) \<le> maximum_bytes) \<longrightarrow>
       out = redact_full lib (patterns r) v) \<and>
    (length (patterns r) \<le> 1 \<longrightarrow> prefix out (redact_full lib (patterns r) v))"
proof (cases "patterns r")
  case Nil
  show ?thesis
    by (cases rule: push_bounded_cases [of "[]" v maximum_bytes])
      (use Nil in \<open>auto simp: redact_bounded_def redact_full_def take_is_prefix\<close>)
next
  case (Cons re res)
  let ?full = "replace_all v 0 (rx_find_iter lib re v)"
  obtain out where out: "replace_all_bounded lib re v maximum_bytes = Some out" "length out \<le> maximum_bytes"
    "prefix out ?full" "length ?full \<le> maximum_bytes \<longrightarrow> out = ?full"
    using replace_all_bounded_spec [OF lib n] by blast
  obtain out' where out': "redact_rest lib res maximum_bytes out = Some out'" "length out' \<le> maximum_bytes"
    "(\<forall>k \<le> length res. length (redact_full lib (take k res) out) \<le> maximum_bytes) \<longrightarrow> out' = redact_full lib res out"
    using redact_rest_spec [OF lib n out(2)] by blast
  have run: "redact_bounded lib r v maximum_bytes = Some out'"
    using out out' Cons by (simp add: redact_bounded_def)
  have "out' = redact_full lib (patterns r) v"
    if fits: "\<forall>k \<le> length (patterns r). length (redact_full lib (take k (patterns r)) v) \<le> maximum_bytes"
  proof -
    have full: "out = ?full" using fits [rule_format, of 1] out(4) Cons by (simp add: redact_full_def)
    have "length (redact_full lib (take k res) ?full) \<le> maximum_bytes" if "k \<le> length res" for k
      using fits [rule_format, of "Suc k"] that Cons by (simp add: redact_full_def)
    then show ?thesis using out'(3) full Cons by (simp add: redact_full_def)
  qed
  moreover have "prefix out' (redact_full lib (patterns r) v)" if "length (patterns r) \<le> 1"
    using that Cons out(3) out'(1) by (simp add: redact_full_def)
  ultimately show ?thesis using run out'(2) by blast
qed

text \<open>Patterns that are literal texts, as an instance of the expression library.\<close>

function literal_find :: "string \<Rightarrow> string \<Rightarrow> nat \<Rightarrow> (nat \<times> nat) list" where
  "literal_find pat v pos =
     (if length v \<le> pos then []
      else if pat \<noteq> [] \<and> starts_with (drop pos v) pat \<and> is_char_boundary v pos \<and>
        is_char_boundary v (pos + length pat)
      then (pos, pos + length pat) # literal_find pat v (pos + length pat)
      else literal_find pat v (pos + 1))"
  by pat_completeness auto

termination
  by (relation "measure (\<lambda>(pat, v, pos). length v - pos)") (auto simp flip: length_greater_0_conv)

declare literal_find.simps [simp del]

definition literal_lib :: "string regex_lib" where
  "literal_lib = \<lparr>rx_new = Inr, rx_find_iter = (\<lambda>pat v. literal_find pat v 0)\<rparr>"

lemma literal_find_ok: "from \<le> pos \<Longrightarrow> matches_ok v from (literal_find pat v pos)"
proof (induction pat v pos arbitrary: "from" rule: literal_find.induct)
  case (1 pat v pos)
  show ?case
  proof (cases "length v \<le> pos")
    case False
    show ?thesis
    proof (cases "pat \<noteq> [] \<and> starts_with (drop pos v) pat \<and> is_char_boundary v pos \<and>
        is_char_boundary v (pos + length pat)")
      case True
      then have "length pat \<le> length v - pos"
        by (metis starts_with_iff_prefix prefix_length_le length_drop)
      then have "pos + length pat \<le> length v" using False by linarith
      then show ?thesis using 1 False True by (subst literal_find.simps) auto
    next
      case no: False
      then show ?thesis using 1(2) [OF False no] 1(3) False by (subst literal_find.simps) auto
    qed
  qed (subst literal_find.simps, simp)
qed

lemma literal_lib_ok: "regex_lib_ok literal_lib"
  by (simp add: regex_lib_ok_def literal_lib_def literal_find_ok)

theorem redact_bounded_spec_witness:
  "redact_bounded literal_lib \<lparr>patterns = [''secret'']\<rparr> ''my secret key'' 40 = Some ''my [REDACTED] key''"
proof -
  have full: "redact_full literal_lib [''secret''] ''my secret key'' = ''my [REDACTED] key''" by code_simp
  have "length (redact_full literal_lib (take k [''secret'']) ''my secret key'') \<le> 40" if "k \<le> 1" for k
    using that full by (cases k) (simp_all add: redact_full_def)
  then show ?thesis
    using redact_bounded_spec [OF literal_lib_ok, of 40 "\<lparr>patterns = [''secret'']\<rparr>" "''my secret key''"] full
    by (auto simp: u64_max_def)
qed


section \<open>Executables and environment\<close>

lemma resolve_never_shim:
  assumes "resolve_bazel_executable_excluding fs which_all workspace config excluded = Inr p"
  shows "\<not> is_excluded fs p excluded"
  using assms
  by (auto simp: resolve_bazel_executable_excluding_def result_simps find_Some_iff Let_def bind_eq_Some_conv
      split: option.splits if_splits)

lemma fold_fmupd: "fmlookup (fold (\<lambda>(k, v) m. fmupd k v m) kvs m) k =
    (case map_of (rev kvs) k of Some v \<Rightarrow> Some v | None \<Rightarrow> fmlookup m k)"
  by (induction kvs arbitrary: m) (auto simp: map_add_def split: option.split)

lemma filtered_environment_lookup:
  "fmlookup (filtered_environment windows vars config) name =
     (if is_allowed name config windows then map_of (rev vars) name else None)"
proof -
  have "map_of (rev (filter (\<lambda>(name, _). is_allowed name config windows) vars)) name =
      (if is_allowed name config windows then map_of (rev vars) name else None)"
    by (induction vars) (auto simp: map_add_def split: option.split)
  then show ?thesis by (auto simp: filtered_environment_def fold_fmupd split: option.split)
qed

end
