(* ===== verification/Rust_Text.thy ===== *)
theory Rust_Text
  imports Rust_Prelude
begin

text \<open>
  The text methods of the standard library that the runner calls: lines, trimming, searching,
  splitting, replacing, and decimal numbers. A text is the list of its UTF-8 bytes.
\<close>

section \<open>White space\<close>

text \<open>The number of bytes of the white space scalar value at the start, if there is one.\<close>

definition whitespace_len :: "string \<Rightarrow> nat option" where
  "whitespace_len s =
     (case map of_char s :: nat list of
        [] \<Rightarrow> None
      | b # cs \<Rightarrow>
          if 9 \<le> b \<and> b \<le> 13 \<or> b = 32 then Some 1
          else (case cs of
                  [] \<Rightarrow> None
                | c # ds \<Rightarrow>
                    if b = 194 \<and> (c = 133 \<or> c = 160) then Some 2
                    else (case ds of
                            [] \<Rightarrow> None
                          | d # _ \<Rightarrow>
                              if b = 225 \<and> c = 154 \<and> d = 128 \<or>
                                 b = 226 \<and> c = 128 \<and> (128 \<le> d \<and> d \<le> 138 \<or> d = 168 \<or> d = 169 \<or> d = 175) \<or>
                                 b = 226 \<and> c = 129 \<and> d = 159 \<or>
                                 b = 227 \<and> c = 128 \<and> d = 128
                              then Some 3 else None)))"

lemma whitespace_len_bounds: "whitespace_len s = Some k \<Longrightarrow> 0 < k \<and> k \<le> length s"
  by (cases s rule: list.exhaust [case_names Nil Cons])
    (auto simp: whitespace_len_def split: if_splits list.splits)

function trim_start :: "string \<Rightarrow> string" where
  "trim_start s = (case whitespace_len s of None \<Rightarrow> s | Some k \<Rightarrow> trim_start (drop k s))"
  by pat_completeness auto

termination
  by (relation "measure length") (auto dest: whitespace_len_bounds)

declare trim_start.simps [simp del]

text \<open>Whether the last \<^verbatim>\<open>k\<close> bytes are one white space scalar value.\<close>

definition ends_in_whitespace :: "string \<Rightarrow> nat \<Rightarrow> bool" where
  "ends_in_whitespace s k \<longleftrightarrow> k \<le> length s \<and> whitespace_len (drop (length s - k) s) = Some k"

lemma find_whitespace: "find (ends_in_whitespace s) ks = Some k \<Longrightarrow> 0 < k \<and> k \<le> length s"
  by (induction ks) (auto simp: ends_in_whitespace_def dest: whitespace_len_bounds split: if_splits)

function trim_end :: "string \<Rightarrow> string" where
  "trim_end s =
     (case find (ends_in_whitespace s) [1, 2, 3] of
        None \<Rightarrow> s
      | Some k \<Rightarrow> trim_end (take (length s - k) s))"
  by pat_completeness auto

termination
proof (relation "measure length")
  fix s k
  assume "find (ends_in_whitespace s) [1, 2, 3] = Some k"
  then show "(take (length s - k) s, s) \<in> measure length" using find_whitespace [of s "[1, 2, 3]" k] by (auto simp del: find.simps)
qed simp

declare trim_end.simps [simp del]

definition str_trim :: "string \<Rightarrow> string" where
  "str_trim s = trim_end (trim_start s)"

section \<open>Lines\<close>

definition line_feed :: char where
  "line_feed = CHR 0x0A"

definition carriage_return :: char where
  "carriage_return = CHR 0x0D"

text \<open>\<^verbatim>\<open>str::lines\<close>: a carriage return belongs to the line feed behind it.\<close>

definition strip_line_end :: "string \<Rightarrow> string" where
  "strip_line_end l = (if l \<noteq> [] \<and> last l = carriage_return then butlast l else l)"

fun lines_from :: "string \<Rightarrow> string \<Rightarrow> string list" where
  "lines_from acc [] = (if acc = [] then [] else [rev acc])"
| "lines_from acc (c # cs) =
     (if c = line_feed then strip_line_end (rev acc) # lines_from [] cs else lines_from (c # acc) cs)"

definition str_lines :: "string \<Rightarrow> string list" where
  "str_lines s = lines_from [] s"

section \<open>Searching and splitting\<close>

fun str_find :: "string \<Rightarrow> string \<Rightarrow> nat option" where
  "str_find [] p = (if p = [] then Some 0 else None)"
| "str_find (x # xs) p = (if starts_with (x # xs) p then Some 0 else map_option Suc (str_find xs p))"

definition split_once_str :: "string \<Rightarrow> string \<Rightarrow> (string \<times> string) option" where
  "split_once_str s sep =
     (case str_find s sep of None \<Rightarrow> None | Some i \<Rightarrow> Some (take i s, drop (i + length sep) s))"

lemma str_find_Some:
  "str_find s p = Some i \<Longrightarrow> i + length p \<le> length s \<and> take (length p) (drop i s) = p"
proof (induction s arbitrary: i)
  case (Cons x xs)
  then show ?case
    by (auto simp: starts_with_def split: if_splits) (metis length_Cons length_take min.cobounded1)
qed (simp split: if_splits)

lemma str_find_None: "str_find s p = None \<longleftrightarrow> \<not> str_contains s p"
  by (induction s) auto

lemma split_once_str_Some: "split_once_str s sep = Some (a, b) \<Longrightarrow> s = a @ sep @ b"
proof -
  assume split: "split_once_str s sep = Some (a, b)"
  then obtain i where i: "str_find s sep = Some i" "a = take i s" "b = drop (i + length sep) s"
    by (auto simp: split_once_str_def split: option.splits)
  have "drop i s = sep @ drop (length sep) (drop i s)"
    using str_find_Some [OF i(1)] by (metis append_take_drop_id)
  then show ?thesis using i(2,3) by (metis append_take_drop_id drop_drop add.commute)
qed

text \<open>\<^verbatim>\<open>str::replace\<close> of a text that is not empty: from left to right, without overlap.\<close>

function str_replace :: "string \<Rightarrow> string \<Rightarrow> string \<Rightarrow> string" where
  "str_replace s p r =
     (if p = [] then s
      else case str_find s p of
             None \<Rightarrow> s
           | Some i \<Rightarrow> take i s @ r @ str_replace (drop (i + length p) s) p r)"
  by pat_completeness auto

termination
  by (relation "measure (\<lambda>(s, p, r). length s)")
    (auto dest!: str_find_Some, metis add_gr_0 add_leE diff_less le_zero_eq length_greater_0_conv not_gr_zero)

declare str_replace.simps [simp del]

section \<open>Numbers\<close>

definition is_ascii_digit :: "char \<Rightarrow> bool" where
  "is_ascii_digit c = (let n = of_char c :: nat in 48 \<le> n \<and> n \<le> 57)"

definition digits_value :: "string \<Rightarrow> nat" where
  "digits_value s = fold (\<lambda>c n. n * 10 + (of_char c - 48)) s 0"

text \<open>\<^verbatim>\<open>from_str\<close> of an unsigned type with the given maximum: an optional plus and some digits.\<close>

definition parse_unsigned :: "nat \<Rightarrow> string \<Rightarrow> nat option" where
  "parse_unsigned maximum s =
     (let ds = (if starts_with s ''+'' then drop 1 s else s)
      in if ds \<noteq> [] \<and> list_all is_ascii_digit ds \<and> digits_value ds \<le> maximum
         then Some (digits_value ds) else None)"

fun decimal :: "nat \<Rightarrow> string" where
  "decimal n = (if n < 10 then [char_of (48 + n)] else decimal (n div 10) @ [char_of (48 + n mod 10)])"

declare decimal.simps [simp del]

lemma decimal_digits: "decimal n \<noteq> [] \<and> list_all is_ascii_digit (decimal n) \<and> digits_value (decimal n) = n"
proof (induction n rule: decimal.induct)
  case (1 n)
  have digit: "of_char (char_of (48 + m) :: char) = 48 + m" if "m < 10" for m :: nat
    using that by (simp add: of_char_of)
  show ?case
  proof (cases "n < 10")
    case True
    then show ?thesis
      using digit [OF True] by (subst (1 2 3) decimal.simps) (simp add: is_ascii_digit_def digits_value_def)
  next
    case False
    let ?c = "char_of (48 + n mod 10) :: char"
    have "n mod 10 \<le> 9" using pos_mod_bound [of 10 "int n"] by presburger
    then have "is_ascii_digit ?c" "of_char ?c - 48 = n mod 10"
      using digit [of "n mod 10"] by (simp_all add: is_ascii_digit_def)
    moreover have "digits_value (xs @ [c]) = digits_value xs * 10 + (of_char c - 48)" for xs c
      by (simp add: digits_value_def)
    moreover have "decimal n = decimal (n div 10) @ [?c]" using False by (subst decimal.simps) simp
    ultimately show ?thesis using 1 [OF False] by simp
  qed
qed

lemma parse_decimal: "n \<le> maximum \<Longrightarrow> parse_unsigned maximum (decimal n) = Some n"
proof -
  assume n: "n \<le> maximum"
  have "\<not> starts_with (decimal n) ''+''"
    using decimal_digits [of n] by (cases "decimal n") (auto simp: starts_with_def is_ascii_digit_def)
  then show ?thesis using decimal_digits [of n] n by (simp add: parse_unsigned_def)
qed

end
