(* ===== verification/Runner_Config.thy ===== *)
theory Runner_Config
  imports Policy Rust_Text
begin

text \<open>
  The settings of the runner (\<^verbatim>\<open>bazel-mcp-runner/src/service.rs\<close>), of the Aspect routing and its
  drivers (\<^verbatim>\<open>driver.rs\<close>) and of the Starlark limits (\<^verbatim>\<open>bazel-mcp-reducer/src/starlark.rs\<close>): the raw
  form that is read from a file, the validated form, and what validation guarantees.

  Durations are whole seconds, or milliseconds where the code has them.
\<close>

section \<open>Transport and Aspect routing\<close>

datatype bep_transport = Tail | Fifo | Bes

record raw_aspect_config =
  raw_aspect_executable :: "path option"
  raw_aspect_commands :: "string fset"
  raw_allow_workspace_mutation :: bool

record aspect_config =
  aspect_executable :: "path option"
  aspect_commands :: "string fset"
  allow_workspace_mutation :: bool

definition aspect_from_raw :: "raw_aspect_config \<Rightarrow> aspect_config" where
  "aspect_from_raw raw =
     \<lparr>aspect_executable = raw_aspect_executable raw, aspect_commands = raw_aspect_commands raw,
      allow_workspace_mutation = raw_allow_workspace_mutation raw\<rparr>"

definition aspect_into_raw :: "aspect_config \<Rightarrow> raw_aspect_config" where
  "aspect_into_raw config =
     \<lparr>raw_aspect_executable = aspect_executable config, raw_aspect_commands = aspect_commands config,
      raw_allow_workspace_mutation = allow_workspace_mutation config\<rparr>"

definition aspect_default :: aspect_config where
  "aspect_default = \<lparr>aspect_executable = None, aspect_commands = {||}, allow_workspace_mutation = False\<rparr>"

definition aspect_enabled :: "aspect_config \<Rightarrow> bool" where
  "aspect_enabled config \<longleftrightarrow> aspect_commands config \<noteq> {||}"

definition aspect_routes :: "aspect_config \<Rightarrow> bazel_command \<Rightarrow> bool" where
  "aspect_routes config command \<longleftrightarrow> command_as_str command |\<in>| aspect_commands config"

text \<open>
  \<^verbatim>\<open>chars().any(char::is_whitespace)\<close>: some place of the text starts the encoding of a scalar
  value with the property \<^verbatim>\<open>White_Space\<close>.
\<close>

fun any_whitespace :: "string \<Rightarrow> bool" where
  "any_whitespace [] = False"
| "any_whitespace (c # cs) = (whitespace_len (c # cs) \<noteq> None \<or> any_whitespace cs)"

definition has_invalid_command :: "aspect_config \<Rightarrow> bool" where
  "has_invalid_command config =
     fBex (aspect_commands config)
       (\<lambda>command. command = [] \<or> starts_with command ''-'' \<or> any_whitespace command)"

datatype execution_driver =
    BazelDriver path
  | AspectDriver path path

fun is_aspect :: "execution_driver \<Rightarrow> bool" where
  "is_aspect (AspectDriver _ _) = True"
| "is_aspect (BazelDriver _) = False"

fun driver_executable :: "execution_driver \<Rightarrow> path" where
  "driver_executable (BazelDriver p) = p"
| "driver_executable (AspectDriver p _) = p"

fun driver_bazel_executable :: "execution_driver \<Rightarrow> path" where
  "driver_bazel_executable (BazelDriver p) = p"
| "driver_bazel_executable (AspectDriver _ bazel) = bazel"

definition driver_command_class :: "execution_driver \<Rightarrow> bazel_command \<Rightarrow> command_class" where
  "driver_command_class driver command =
     (if is_aspect driver \<and> command_as_str command \<in> {''build'', ''test'', ''lint''} then BuildLike
      else class_of_command command)"

fun display_name :: "execution_driver \<Rightarrow> string" where
  "display_name (BazelDriver _) = ''Bazel''"
| "display_name (AspectDriver _ _) = ''Aspect CLI''"

section \<open>Starlark limits\<close>

record starlark_limits =
  max_source_bytes :: nat
  max_input_bytes :: nat
  sl_max_events :: nat
  max_output_bytes :: nat
  max_output_items :: nat
  max_ticks :: nat
  max_heap_bytes :: nat
  max_callstack_size :: nat
  sl_timeout_ms :: nat

definition starlark_limits_default :: starlark_limits where
  "starlark_limits_default =
     \<lparr>max_source_bytes = 256 * 1024, max_input_bytes = 1024 * 1024, sl_max_events = 10000,
      max_output_bytes = 64 * 1024, max_output_items = 1000, max_ticks = 1000000,
      max_heap_bytes = 16 * 1024 * 1024, max_callstack_size = 100, sl_timeout_ms = 100\<rparr>"

record raw_starlark_config =
  raw_files :: "path list"
  raw_max_source_bytes :: nat
  raw_max_input_bytes :: nat
  raw_max_events :: nat
  raw_max_output_bytes :: nat
  raw_max_output_items :: nat
  raw_max_ticks :: nat
  raw_max_heap_bytes :: nat
  raw_max_callstack_size :: nat
  raw_timeout_ms :: nat

definition raw_starlark_default :: raw_starlark_config where
  "raw_starlark_default =
     (let limits = starlark_limits_default
      in \<lparr>raw_files = [], raw_max_source_bytes = max_source_bytes limits,
          raw_max_input_bytes = max_input_bytes limits, raw_max_events = sl_max_events limits,
          raw_max_output_bytes = max_output_bytes limits, raw_max_output_items = max_output_items limits,
          raw_max_ticks = max_ticks limits, raw_max_heap_bytes = max_heap_bytes limits,
          raw_max_callstack_size = max_callstack_size limits,
          raw_timeout_ms = (if sl_timeout_ms limits \<le> u64_max then sl_timeout_ms limits else 100)\<rparr>)"

record starlark_config =
  starlark_files :: "path list"
  starlark_limits_of :: starlark_limits

definition starlark_config_default :: starlark_config where
  "starlark_config_default = \<lparr>starlark_files = [], starlark_limits_of = starlark_limits_default\<rparr>"

definition validate_limits :: "starlark_limits \<Rightarrow> (unit, string) result" where
  "validate_limits limits =
     (if max_source_bytes limits = 0 \<or> max_input_bytes limits = 0 \<or> sl_max_events limits = 0 \<or>
         max_output_bytes limits = 0 \<or> max_output_items limits = 0 \<or> max_ticks limits = 0 \<or>
         max_heap_bytes limits = 0 \<or> max_callstack_size limits = 0 \<or> sl_timeout_ms limits = 0
      then Inl ''all Starlark reducer resource limits must be greater than zero''
      else Inr ())"

definition starlark_config_try_from :: "raw_starlark_config \<Rightarrow> (starlark_config, string) result" where
  "starlark_config_try_from raw =
     (let config =
            \<lparr>starlark_files = raw_files raw,
             starlark_limits_of =
               \<lparr>max_source_bytes = raw_max_source_bytes raw, max_input_bytes = raw_max_input_bytes raw,
                sl_max_events = raw_max_events raw, max_output_bytes = raw_max_output_bytes raw,
                max_output_items = raw_max_output_items raw, max_ticks = raw_max_ticks raw,
                max_heap_bytes = raw_max_heap_bytes raw,
                max_callstack_size = raw_max_callstack_size raw, sl_timeout_ms = raw_timeout_ms raw\<rparr>\<rparr>
      in and_then (validate_limits (starlark_limits_of config)) (\<lambda>_. Inr config))"

section \<open>The runner\<close>

record runner_config =
  rc_policy :: policy_config
  default_timeout :: nat
  maximum_timeout :: nat
  maximum_run_output_bytes :: nat
  cancellation_interrupt_grace :: nat
  cancellation_terminate_grace :: nat
  global_concurrency :: nat
  output_user_root :: "path option"
  isolated_idle_timeout :: nat
  supported_major_versions :: "nat fset"
  allow_unsupported_versions :: bool
  version_check_timeout :: nat
  maximum_pending :: nat
  output_base_lock_root :: path
  rc_bep_transport :: bep_transport
  rc_aspect :: aspect_config
  starlark_reducers :: starlark_config

text \<open>
  The lock root of the platform is an argument: on Unix it is a directory in \<^verbatim>\<open>/tmp\<close> named after
  the user.
\<close>

definition runner_config_default :: "path \<Rightarrow> runner_config" where
  "runner_config_default lock_root =
     \<lparr>rc_policy = policy_config_default, default_timeout = 30 * 60, maximum_timeout = 2 * 60 * 60,
      maximum_run_output_bytes = 256 * 1024 * 1024, cancellation_interrupt_grace = 10,
      cancellation_terminate_grace = 5, global_concurrency = 4, output_user_root = None,
      isolated_idle_timeout = 60, supported_major_versions = {|8, 9|},
      allow_unsupported_versions = False, version_check_timeout = 30, maximum_pending = 256,
      output_base_lock_root = lock_root, rc_bep_transport = Tail, rc_aspect = aspect_default,
      starlark_reducers = starlark_config_default\<rparr>"

record raw_runner_config =
  raw_default_timeout_seconds :: nat
  raw_maximum_timeout_seconds :: nat
  raw_maximum_run_output_bytes :: nat
  raw_interrupt_grace_seconds :: nat
  raw_terminate_grace_seconds :: nat
  raw_global_concurrency :: nat
  raw_output_user_root :: "path option"
  raw_isolated_idle_seconds :: nat
  raw_supported_major_versions :: "nat fset"
  raw_allow_unsupported_versions :: bool
  raw_version_check_timeout_seconds :: nat
  raw_maximum_pending :: nat
  raw_bep_transport :: bep_transport
  raw_aspect :: raw_aspect_config
  raw_starlark :: raw_starlark_config

definition raw_runner_config_default :: "path \<Rightarrow> raw_runner_config" where
  "raw_runner_config_default lock_root =
     (let config = runner_config_default lock_root
      in \<lparr>raw_default_timeout_seconds = default_timeout config,
          raw_maximum_timeout_seconds = maximum_timeout config,
          raw_maximum_run_output_bytes = maximum_run_output_bytes config,
          raw_interrupt_grace_seconds = cancellation_interrupt_grace config,
          raw_terminate_grace_seconds = cancellation_terminate_grace config,
          raw_global_concurrency = global_concurrency config,
          raw_output_user_root = output_user_root config,
          raw_isolated_idle_seconds = isolated_idle_timeout config,
          raw_supported_major_versions = supported_major_versions config,
          raw_allow_unsupported_versions = allow_unsupported_versions config,
          raw_version_check_timeout_seconds = version_check_timeout config,
          raw_maximum_pending = maximum_pending config,
          raw_bep_transport = rc_bep_transport config,
          raw_aspect = aspect_into_raw (rc_aspect config),
          raw_starlark = raw_starlark_default\<rparr>)"

text \<open>The causes of an invalid configuration, one constructor per message.\<close>

datatype configuration_problem =
    ZeroConcurrency
  | PendingBelowConcurrency
  | ZeroMaximumTimeout
  | ZeroRunOutput
  | DefaultTimeoutTooLarge
  | ZeroVersionCheckTimeout
  | ZeroIdleTimeout
  | EmptyLockRoot
  | InvalidAspectRoute
  | AspectRunRoute
  | AspectRouteNotAllowed
  | NoSupportedVersion
  | BesNotInitialized
  | AspectBesNotInitialized
  | NeedsAsynchronousStart

definition validate_runner_config :: "runner_config \<Rightarrow> (unit, configuration_problem) result" where
  "validate_runner_config config =
     (if global_concurrency config = 0 then Inl ZeroConcurrency
      else if maximum_pending config < global_concurrency config then Inl PendingBelowConcurrency
      else if maximum_timeout config = 0 then Inl ZeroMaximumTimeout
      else if maximum_run_output_bytes config = 0 then Inl ZeroRunOutput
      else if maximum_timeout config < default_timeout config then Inl DefaultTimeoutTooLarge
      else if version_check_timeout config = 0 then Inl ZeroVersionCheckTimeout
      else if isolated_idle_timeout config = 0 then Inl ZeroIdleTimeout
      else if output_base_lock_root config = [] then Inl EmptyLockRoot
      else if has_invalid_command (rc_aspect config) then Inl InvalidAspectRoute
      else if ''run'' |\<in>| aspect_commands (rc_aspect config) then Inl AspectRunRoute
      else if fBex (aspect_commands (rc_aspect config))
                (\<lambda>command. command |\<notin>| allowed_commands (rc_policy config) \<or>
                           command |\<in>| denied_commands (rc_policy config))
      then Inl AspectRouteNotAllowed
      else if \<not> allow_unsupported_versions config \<and> supported_major_versions config = {||}
      then Inl NoSupportedVersion
      else Inr ())"

datatype config_error = InvalidConfiguration configuration_problem | ReducerConfiguration string

definition config_from_raw ::
  "path \<Rightarrow> raw_runner_config \<Rightarrow> policy_config \<Rightarrow> starlark_config \<Rightarrow> runner_config"
where
  "config_from_raw lock_root raw policy starlark =
     \<lparr>rc_policy = policy, default_timeout = raw_default_timeout_seconds raw,
      maximum_timeout = raw_maximum_timeout_seconds raw,
      maximum_run_output_bytes = raw_maximum_run_output_bytes raw,
      cancellation_interrupt_grace = raw_interrupt_grace_seconds raw,
      cancellation_terminate_grace = raw_terminate_grace_seconds raw,
      global_concurrency = raw_global_concurrency raw,
      output_user_root = raw_output_user_root raw,
      isolated_idle_timeout = raw_isolated_idle_seconds raw,
      supported_major_versions = raw_supported_major_versions raw,
      allow_unsupported_versions = raw_allow_unsupported_versions raw,
      version_check_timeout = raw_version_check_timeout_seconds raw,
      maximum_pending = raw_maximum_pending raw,
      output_base_lock_root = lock_root, rc_bep_transport = raw_bep_transport raw,
      rc_aspect = aspect_from_raw (raw_aspect raw), starlark_reducers = starlark\<rparr>"

definition runner_config_try_from ::
  "path \<Rightarrow> raw_runner_config \<Rightarrow> policy_config \<Rightarrow> (runner_config, config_error) result"
where
  "runner_config_try_from lock_root raw policy =
     (case starlark_config_try_from (raw_starlark raw) of
        Inl e \<Rightarrow> Inl (ReducerConfiguration e)
      | Inr starlark \<Rightarrow>
          (let config = config_from_raw lock_root raw policy starlark
           in case validate_runner_config config of
                Inl e \<Rightarrow> Inl (InvalidConfiguration e)
              | Inr _ \<Rightarrow> Inr config))"

text \<open>\<^verbatim>\<open>ExecutionPlan::new\<close>: the timeout of an invocation in milliseconds.\<close>

definition execution_timeout_ms :: "runner_config \<Rightarrow> invocation_request \<Rightarrow> nat" where
  "execution_timeout_ms config req =
     min (max (case timeout_ms req of Some ms \<Rightarrow> ms | None \<Rightarrow> default_timeout config * 1000) 1000)
       (maximum_timeout config * 1000)"

section \<open>What validation guarantees\<close>

text \<open>The type of a configuration the rest of the runner relies on.\<close>

definition limits_ok :: "starlark_limits \<Rightarrow> bool" where
  "limits_ok limits \<longleftrightarrow>
     0 < max_source_bytes limits \<and> 0 < max_input_bytes limits \<and> 0 < sl_max_events limits \<and>
     0 < max_output_bytes limits \<and> 0 < max_output_items limits \<and> 0 < max_ticks limits \<and>
     0 < max_heap_bytes limits \<and> 0 < max_callstack_size limits \<and> 0 < sl_timeout_ms limits"

definition aspect_ok :: "policy_config \<Rightarrow> aspect_config \<Rightarrow> bool" where
  "aspect_ok policy config \<longleftrightarrow>
     (\<forall>command. command |\<in>| aspect_commands config \<longrightarrow>
        command \<noteq> [] \<and> command \<noteq> ''run'' \<and> \<not> starts_with command ''-'' \<and>
        \<not> any_whitespace command \<and>
        command |\<in>| allowed_commands policy \<and> command |\<notin>| denied_commands policy)"

definition runner_config_ok :: "runner_config \<Rightarrow> bool" where
  "runner_config_ok config \<longleftrightarrow>
     0 < global_concurrency config \<and> global_concurrency config \<le> maximum_pending config \<and>
     0 < maximum_timeout config \<and> default_timeout config \<le> maximum_timeout config \<and>
     0 < maximum_run_output_bytes config \<and> 0 < version_check_timeout config \<and>
     0 < isolated_idle_timeout config \<and> output_base_lock_root config \<noteq> [] \<and>
     aspect_ok (rc_policy config) (rc_aspect config) \<and>
     (allow_unsupported_versions config \<or> supported_major_versions config \<noteq> {||})"

lemma validate_runner_config_iff: "validate_runner_config config = Inr () \<longleftrightarrow> runner_config_ok config"
proof -
  have "aspect_ok (rc_policy config) (rc_aspect config) \<longleftrightarrow>
      \<not> has_invalid_command (rc_aspect config) \<and> ''run'' |\<notin>| aspect_commands (rc_aspect config) \<and>
      \<not> fBex (aspect_commands (rc_aspect config))
          (\<lambda>command. command |\<notin>| allowed_commands (rc_policy config) \<or>
                     command |\<in>| denied_commands (rc_policy config))"
    by (auto simp: aspect_ok_def has_invalid_command_def)
  then show ?thesis
    by (simp add: validate_runner_config_def runner_config_ok_def not_less)
qed

lemma validate_limits_iff: "validate_limits limits = Inr () \<longleftrightarrow> limits_ok limits"
  by (auto simp: validate_limits_def limits_ok_def)

lemma aspect_raw_roundtrip: "aspect_from_raw (aspect_into_raw config) = config"
  by (cases config) (simp add: aspect_from_raw_def aspect_into_raw_def)

text \<open>No route of a valid configuration leads around the command policy.\<close>

lemma aspect_routes_allowed:
  "runner_config_ok config \<Longrightarrow> aspect_routes (rc_aspect config) command \<Longrightarrow>
   validate_command (rc_policy config) command = Inr () \<and> command \<noteq> Run"
  by (auto simp: runner_config_ok_def aspect_ok_def aspect_routes_def validate_command_def)

section \<open>Properties\<close>


end
