(* ===== verification/Runner_Command.thy ===== *)
theory Runner_Command
  imports Runner_Config
begin

text \<open>
  The command lines the runner builds (\<^verbatim>\<open>start_execution\<close> of \<^verbatim>\<open>bazel-mcp-runner/src/execution.rs\<close>)
  and the paths in them (\<^verbatim>\<open>path_args.rs\<close>). The text of an invocation identifier and the endpoint
  of the event service are arguments. A panic is \<^const>\<open>None\<close>.
\<close>

section \<open>Text of paths and numbers\<close>

fun component_text :: "component \<Rightarrow> string" where
  "component_text RootDir = ''''"
| "component_text CurDir = ''.''"
| "component_text ParentDir = ''..''"
| "component_text (Normal w) = w"

fun join_with :: "string \<Rightarrow> string list \<Rightarrow> string" where
  "join_with sep [] = ''''"
| "join_with sep [w] = w"
| "join_with sep (w # ws) = w @ sep @ join_with sep ws"

text \<open>\<^verbatim>\<open>to_string_lossy\<close> of a path on Unix, whose components are separated by one slash.\<close>

definition path_text :: "path \<Rightarrow> string" where
  "path_text p = (if p = [RootDir] then ''/'' else join_with ''/'' (map component_text p))"

definition is_ascii_alphabetic :: "char \<Rightarrow> bool" where
  "is_ascii_alphabetic c =
     (let n = of_char c :: nat in 65 \<le> n \<and> n \<le> 90 \<or> 97 \<le> n \<and> n \<le> 122)"

definition backslash :: char where
  "backslash = CHR 0x5C"

definition windows_bazel_path :: "string \<Rightarrow> string" where
  "windows_bazel_path p =
     (let verbatim = [backslash, backslash, CHR ''?'', backslash]
      in case strip_prefix p (verbatim @ ''UNC'' @ [backslash]) of
           Some unc \<Rightarrow> [backslash, backslash] @ unc
         | None \<Rightarrow>
             (case strip_prefix p verbatim of
                Some drive \<Rightarrow>
                  if 3 \<le> length drive \<and> is_ascii_alphabetic (drive ! 0) \<and>
                     drive ! 1 = CHR '':'' \<and> drive ! 2 = backslash
                  then drive else p
              | None \<Rightarrow> p))"

definition bazel_path :: "bool \<Rightarrow> string \<Rightarrow> string" where
  "bazel_path windows p = (if windows then windows_bazel_path p else p)"

definition slashes :: "string \<Rightarrow> string" where
  "slashes s = map (\<lambda>c. if c = backslash then CHR ''/'' else c) s"

definition trim_end_slashes :: "string \<Rightarrow> string" where
  "trim_end_slashes s = rev (dropWhile (\<lambda>c. c = CHR ''/'') (rev s))"

text \<open>\<^verbatim>\<open>path.get(..n)\<close> is empty where the length is not a character boundary.\<close>

definition workspace_relative_path :: "string \<Rightarrow> string \<Rightarrow> bool \<Rightarrow> string" where
  "workspace_relative_path path0 workspace0 windows =
     (let p = (if windows then slashes (windows_bazel_path path0) else path0);
          w = trim_end_slashes (if windows then slashes (windows_bazel_path workspace0) else workspace0);
          matches = length w \<le> length p \<and> is_char_boundary p (length w) \<and>
            (if windows then eq_ignore_ascii_case (take (length w) p) w else take (length w) p = w)
      in if matches
         then (case strip_prefix (drop (length w) p) ''/'' of Some relative \<Rightarrow> relative | None \<Rightarrow> p)
         else p)"

section \<open>Command lines\<close>

fun captures_bep :: "command_class \<Rightarrow> bool" where
  "captures_bep BuildLike = True"
| "captures_bep RunClass = True"
| "captures_bep _ = False"

definition CAPTURE_ID_HEADER :: string where
  "CAPTURE_ID_HEADER = ''x-bazel-mcp-invocation-id''"

definition isolation_arguments :: "bool \<Rightarrow> runner_config \<Rightarrow> string list" where
  "isolation_arguments windows config =
     (case output_user_root config of
        None \<Rightarrow> []
      | Some root \<Rightarrow>
          [''--output_user_root='' @ bazel_path windows (path_text root),
           ''--max_idle_secs='' @ decimal (isolated_idle_timeout config)])"

text \<open>The file the events go to is the pipe where one was prepared, the evidence file otherwise.\<close>

definition transport_arguments ::
  "bool \<Rightarrow> bep_transport \<Rightarrow> string option \<Rightarrow> path \<Rightarrow> path option
     \<Rightarrow> (string list, configuration_problem) result"
where
  "transport_arguments windows transport endpoint bep fifo =
     (case transport of
        Tail \<Rightarrow>
          Inr [''--build_event_binary_file='' @ bazel_path windows (path_text bep),
               ''--build_event_binary_file_path_conversion=false'']
      | Fifo \<Rightarrow>
          Inr [''--build_event_binary_file='' @
                 bazel_path windows (path_text (case fifo of Some p \<Rightarrow> p | None \<Rightarrow> bep)),
               ''--build_event_binary_file_path_conversion=false'']
      | Bes \<Rightarrow>
          (case endpoint of
             None \<Rightarrow> Inl BesNotInitialized
           | Some e \<Rightarrow> Inr [''--bes_backend='' @ e, ''--bes_upload_mode=wait_for_upload_complete'']))"

definition test_arguments :: "bazel_command \<Rightarrow> string list" where
  "test_arguments command =
     (if command = Test \<or> command = Coverage then [''--test_output=errors'', ''--test_summary=short''] else [])"

definition run_arguments :: "bazel_command \<Rightarrow> string list" where
  "run_arguments command =
     (if command = Run
      then [''--run=true'', ''--omit_run_args=true'',
            ''--noexperimental_run_bep_event_include_residue'', ''--subcommands=false'']
      else [])"

definition owned_arguments ::
  "bool \<Rightarrow> (invocation_id \<Rightarrow> string) \<Rightarrow> bep_transport \<Rightarrow> string option \<Rightarrow> path \<Rightarrow> path option
     \<Rightarrow> invocation_request \<Rightarrow> (string list, configuration_problem) result"
where
  "owned_arguments windows id_text transport endpoint bep fifo req =
     and_then (transport_arguments windows transport endpoint bep fifo)
       (\<lambda>target_arguments.
          Inr ([''--invocation_id='' @ id_text (req_id req)] @ target_arguments @
               [''--tool_tag=bazel-mcp'', ''--color=no'', ''--curses=no'', ''--show_progress=false'',
                ''--show_result=0''] @
               test_arguments (req_command req) @ run_arguments (req_command req)))"

text \<open>A run without a target panics, which the validation of the request excludes.\<close>

definition bazel_command_line ::
  "bool \<Rightarrow> (invocation_id \<Rightarrow> string) \<Rightarrow> runner_config \<Rightarrow> bep_transport \<Rightarrow> string option \<Rightarrow> path \<Rightarrow> path option
     \<Rightarrow> invocation_request \<Rightarrow> (string list, configuration_problem) result option"
where
  "bazel_command_line windows id_text config transport endpoint bep fifo req =
     (case (if captures_bep (class_of_command (req_command req))
            then owned_arguments windows id_text transport endpoint bep fifo req else Inr []) of
        Inl e \<Rightarrow> Some (Inl e)
      | Inr owned \<Rightarrow>
          (let line = isolation_arguments windows config @ startup_arguments req @
                 [command_as_str (req_command req)] @ owned @ req_arguments req
           in if req_command req = Run
              then (case req_target req of
                      None \<Rightarrow> None
                    | Some t \<Rightarrow> Some (Inr (line @ [t, ''--''] @ program_arguments req)))
              else Some (Inr line)))"

definition aspect_owned_arguments ::
  "(invocation_id \<Rightarrow> string) \<Rightarrow> string option \<Rightarrow> invocation_request \<Rightarrow> (string list, configuration_problem) result"
where
  "aspect_owned_arguments id_text endpoint req =
     (case endpoint of
        None \<Rightarrow> Inl AspectBesNotInitialized
      | Some e \<Rightarrow>
          Inr (map (\<lambda>a. ''--bazel-flag='' @ a)
                 ([''--invocation_id='' @ id_text (req_id req), ''--tool_tag=bazel-mcp'', ''--color=no'',
                   ''--curses=no'', ''--show_progress=false'', ''--show_result=0''] @
                  test_arguments (req_command req)) @
               [''--bes-backend='' @ e,
                ''--bes-header='' @ CAPTURE_ID_HEADER @ ''='' @ id_text (req_id req)]))"

definition aspect_command_line ::
  "bool \<Rightarrow> (invocation_id \<Rightarrow> string) \<Rightarrow> runner_config \<Rightarrow> string option \<Rightarrow> execution_driver \<Rightarrow> invocation_request
     \<Rightarrow> (string list, configuration_problem) result"
where
  "aspect_command_line windows id_text config endpoint driver req =
     and_then
       (if driver_command_class driver (req_command req) = BuildLike
        then aspect_owned_arguments id_text endpoint req else Inr [])
       (\<lambda>owned.
          Inr ([''--task:id='' @ id_text (req_id req), ''--task:timing-summary=none'',
                command_as_str (req_command req)] @
               map (\<lambda>a. ''--bazel-startup-flag='' @ a) (isolation_arguments windows config) @
               map (\<lambda>a. ''--bazel-startup-flag='' @ a) (startup_arguments req) @
               owned @ req_arguments req))"

section \<open>Who sets the reserved flags\<close>

definition is_option :: "string \<Rightarrow> bool" where
  "is_option a \<longleftrightarrow> starts_with a ''-'' \<and> a \<noteq> ''--''"

text \<open>The options of a command line, up to the separator.\<close>

definition options_of :: "string list \<Rightarrow> string list" where
  "options_of line = takeWhile (\<lambda>a. a \<noteq> ''--'') line"

definition settings :: "string \<Rightarrow> string list \<Rightarrow> string list" where
  "settings flag line = filter (\<lambda>a. sets_flag a flag) line"

lemma settings_append [simp]: "settings flag (xs @ ys) = settings flag xs @ settings flag ys"
  by (simp add: settings_def)

lemma settings_Nil [simp]: "settings flag [] = []"
  by (simp add: settings_def)

lemma reserved_loop_Inr:
  "reserved_loop args = Inr () \<longleftrightarrow> list_all (\<lambda>a. list_all (\<lambda>f. \<not> sets_flag a f) RESERVED_FLAGS) args"
proof (induction args)
  case (Cons a args)
  then show ?case
    by (auto simp: find_None_iff list_all_iff split: option.splits dest!: find_Some_iff [THEN iffD1])
qed simp

lemma accepted_no_settings:
  assumes "validate_arguments args = Inr ()" and "flag \<in> set RESERVED_FLAGS" and "set xs \<subseteq> set args"
  shows "settings flag xs = []"
  using assms by (auto simp: validate_arguments_def result_simps reserved_loop_Inr list_all_iff settings_def filter_empty_conv)

lemma plain_no_settings: "flag \<in> set RESERVED_FLAGS \<Longrightarrow> \<not> starts_with a ''-'' \<Longrightarrow> \<not> sets_flag a flag"
  by (cases a) (auto simp: sets_flag_def starts_with_def RESERVED_FLAGS_def)

lemma sets_flag_other:
  "\<not> starts_with a flag \<Longrightarrow> \<not> sets_flag a flag"
  by (auto simp: sets_flag_def starts_with_iff_prefix dest: append_prefixD)

lemma isolation_no_settings:
  assumes "flag \<in> set RESERVED_FLAGS"
  shows "settings flag (isolation_arguments windows config) = []"
proof (cases "output_user_root config")
  case (Some root)
  have "\<not> starts_with (''--output_user_root='' @ x) flag" "\<not> starts_with (''--max_idle_secs='' @ x) flag" for x
    using assms by (auto simp: RESERVED_FLAGS_def starts_with_def)
  then show ?thesis using Some by (simp add: isolation_arguments_def settings_def sets_flag_other)
qed (simp add: isolation_arguments_def)

lemma isolation_options: "list_all is_option (isolation_arguments windows config)"
  by (auto simp: isolation_arguments_def is_option_def starts_with_def split: option.split)

lemma owned_options:
  "owned_arguments windows id_text transport endpoint bep fifo req = Inr owned \<Longrightarrow> list_all is_option owned"
  by (auto simp: owned_arguments_def transport_arguments_def result_simps is_option_def starts_with_def
      test_arguments_def run_arguments_def split: bep_transport.splits option.splits)

lemma options_of_append:
  "list_all is_option xs \<Longrightarrow> options_of (xs @ ys) = xs @ options_of ys"
  by (induction xs) (auto simp: options_of_def is_option_def)

lemma options_of_Cons: "options_of (a # xs) = (if a = ''--'' then [] else a # options_of xs)"
  by (simp add: options_of_def)

lemma find_append_options:
  "list_all is_option xs \<Longrightarrow> find (\<lambda>a. \<not> starts_with a ''-'') (xs @ ys) = find (\<lambda>a. \<not> starts_with a ''-'') ys"
  by (induction xs) (auto simp: is_option_def)

lemma set_options_of: "set (options_of xs) \<subseteq> set xs"
  by (auto simp: options_of_def dest: set_takeWhileD)

text \<open>
  C29: Where the startup arguments of an accepted request are options, the server alone decides
  what Bazel runs and how it reports: the first word of the command line is the command that was
  validated, every setting of a reserved flag before the separator is one the server wrote
  itself, and the arguments of a program that is run come last, behind target and separator.
  Building the line does not panic.
\<close>

theorem bazel_command_line_owned:
  assumes "validate_arguments (startup_arguments req) = Inr ()"
    and "validate_arguments (req_arguments req) = Inr ()"
    and "validate_run_arguments (req_command req) (req_arguments req) (req_target req)
           (program_arguments req) = Inr ()"
    and "list_all is_option (startup_arguments req)"
    and "\<not> starts_with (command_as_str (req_command req)) ''-''"
    and "owned_arguments windows id_text transport endpoint bep fifo req = Inr owned"
  shows "\<exists>line. bazel_command_line windows id_text config transport endpoint bep fifo req = Some (Inr line) \<and>
    find (\<lambda>a. \<not> starts_with a ''-'') line = Some (command_as_str (req_command req)) \<and>
    (\<forall>flag\<in>set RESERVED_FLAGS. settings flag (options_of line) =
       (if captures_bep (class_of_command (req_command req)) then settings flag owned else [])) \<and>
    (req_command req = Run \<longrightarrow>
       (\<exists>t. req_target req = Some t \<and> suffix ([t, ''--''] @ program_arguments req) line))"
proof -
  let ?cmd = "command_as_str (req_command req)"
  let ?own = "if captures_bep (class_of_command (req_command req)) then owned else []"
  let ?pre = "isolation_arguments windows config @ startup_arguments req"
  have pre: "list_all is_option ?pre" using isolation_options assms(4) by simp
  have own: "list_all is_option ?own" using owned_options [OF assms(6)] by simp
  have cmd: "?cmd \<noteq> ''--''" using assms(5) by (auto simp: starts_with_def)
  obtain tl where line: "bazel_command_line windows id_text config transport endpoint bep fifo req =
      Some (Inr (?pre @ ?cmd # ?own @ req_arguments req @ tl))"
    and tl: "req_command req \<noteq> Run \<and> tl = [] \<or>
      (\<exists>t. req_command req = Run \<and> req_target req = Some t \<and> \<not> starts_with t ''-'' \<and>
         tl = [t, ''--''] @ program_arguments req)"
  proof (cases "req_command req = Run")
    case True
    then obtain t where "req_target req = Some t" "\<not> starts_with t ''-''"
      using assms(3) by (auto simp: validate_run_arguments_def result_simps split: if_splits option.splits)
    then show thesis using True assms(6) that by (simp add: bazel_command_line_def Let_def)
  next
    case False
    then show thesis using assms(6) that by (auto simp: bazel_command_line_def Let_def)
  qed
  have "settings flag (options_of (?pre @ ?cmd # ?own @ req_arguments req @ tl)) = settings flag ?own"
    if f: "flag \<in> set RESERVED_FLAGS" for flag
  proof -
    have "settings flag (options_of (req_arguments req @ tl)) = []"
    proof -
      have "settings flag (options_of (xs @ tl)) = []" if "set xs \<subseteq> set (req_arguments req)" for xs
        using that
      proof (induction xs)
        case Nil
        have "\<not> sets_flag t flag" if "\<not> starts_with t ''-''" for t using plain_no_settings [OF f that] .
        then show ?case using tl by (auto simp: options_of_def settings_def)
      next
        case (Cons a xs)
        then have "settings flag [a] = []" by (intro accepted_no_settings [OF assms(2) f]) auto
        then show ?case using Cons by (auto simp: options_of_Cons settings_def split: if_splits)
      qed
      then show ?thesis by simp
    qed
    moreover have "settings flag ?pre = []"
      using isolation_no_settings [OF f] accepted_no_settings [OF assms(1) f] by simp
    moreover have "settings flag [?cmd] = []" using plain_no_settings [OF f assms(5)] by (simp add: settings_def)
    ultimately show ?thesis
      using options_of_append [OF pre] options_of_append [OF own] cmd settings_append [of flag "[?cmd]"]
      by (simp add: options_of_Cons)
  qed
  moreover have "find (\<lambda>a. \<not> starts_with a ''-'') (?pre @ ?cmd # ?own @ req_arguments req @ tl) = Some ?cmd"
    using find_append_options [OF pre] assms(5) by simp
  moreover have "suffix ([t, ''--''] @ program_arguments req) (?pre @ ?cmd # ?own @ req_arguments req @ tl)"
    if "tl = [t, ''--''] @ program_arguments req" for t
    unfolding that suffix_def by (metis append_Cons append_assoc)
  ultimately show ?thesis using line tl by auto
qed

definition sample_run :: invocation_request where
  "sample_run =
     (request_new 7 0 ''/w'' Run [''-k''])
       \<lparr>startup_arguments := [''--batch''], req_target := Some ''//x:y'', program_arguments := [''--color=yes'']\<rparr>"

theorem bazel_command_line_owned_witness:
  "\<exists>line. bazel_command_line False (\<lambda>_. ''id'') (runner_config_default [RootDir]) Tail None [RootDir, Normal ''bep''] None
       sample_run = Some (Inr line) \<and>
     find (\<lambda>a. \<not> starts_with a ''-'') line = Some ''run'' \<and> settings ''--color'' (options_of line) = [''--color=no''] \<and>
     suffix [''//x:y'', ''--'', ''--color=yes''] line"
proof -
  let ?own = "[''--invocation_id=id'', ''--build_event_binary_file=/bep'',
    ''--build_event_binary_file_path_conversion=false'', ''--tool_tag=bazel-mcp'', ''--color=no'', ''--curses=no'',
    ''--show_progress=false'', ''--show_result=0'', ''--run=true'', ''--omit_run_args=true'',
    ''--noexperimental_run_bep_event_include_residue'', ''--subcommands=false'']"
  have own: "owned_arguments False (\<lambda>_. ''id'') Tail None [RootDir, Normal ''bep''] None sample_run = Inr ?own"
    by (simp add: owned_arguments_def transport_arguments_def bazel_path_def path_text_def test_arguments_def
        run_arguments_def sample_run_def request_new_def)
  have accepted: "validate_arguments (startup_arguments sample_run) = Inr ()"
    "validate_arguments (req_arguments sample_run) = Inr ()"
    "validate_run_arguments (req_command sample_run) (req_arguments sample_run) (req_target sample_run)
       (program_arguments sample_run) = Inr ()"
    "list_all is_option (startup_arguments sample_run)"
    "\<not> starts_with (command_as_str (req_command sample_run)) ''-''"
    by (simp_all add: sample_run_def request_new_def validate_arguments_def validate_argument_shape_def
        RESERVED_FLAGS_def sets_flag_def starts_with_def MAX_ARGUMENT_BYTES_def MAX_ARGUMENT_COUNT_def
        MAX_ARGUMENTS_BYTES_def sat_add_def u64_max_def validate_run_arguments_def trim_is_empty_def ok_or_def
        is_option_def)
  have "''--color'' \<in> set RESERVED_FLAGS" by (simp add: RESERVED_FLAGS_def)
  then obtain line where line: "bazel_command_line False (\<lambda>_. ''id'') (runner_config_default [RootDir]) Tail None
      [RootDir, Normal ''bep''] None sample_run = Some (Inr line)"
    "find (\<lambda>a. \<not> starts_with a ''-'') line = Some (command_as_str (req_command sample_run))"
    "settings ''--color'' (options_of line) =
       (if captures_bep (class_of_command (req_command sample_run)) then settings ''--color'' ?own else [])"
    "\<exists>t. req_target sample_run = Some t \<and> suffix ([t, ''--''] @ program_arguments sample_run) line"
    using bazel_command_line_owned [OF accepted own, of "runner_config_default [RootDir]"]
    by (auto simp: sample_run_def request_new_def)
  then show ?thesis
    by (intro exI [of _ line]) (simp add: sample_run_def request_new_def settings_def sets_flag_def starts_with_def)
qed

definition startup_run :: invocation_request where
  "startup_run = (request_new 7 0 ''/w'' Build [])\<lparr>startup_arguments := [''run'', ''//x:y'']\<rparr>"


end
