(* ===== verification/Runner_Scheduler.thy ===== *)
theory Runner_Scheduler
  imports Runner_Command Rust_Utf8 "HOL-Library.Finite_Map"
begin

text \<open>
  Admission and serialization of invocations inside the process
  (\<^verbatim>\<open>bazel-mcp-runner/src/scheduler.rs\<close>), the coordination lock of an output base and the account
  of waiting for it (\<^verbatim>\<open>output_base_lock.rs\<close>), and the way an accepted invocation goes through them
  (\<^verbatim>\<open>run_prepared\<close> of \<^verbatim>\<open>service.rs\<close>), as steps that interleave with those of all others.

  A shared object is a number and its state is in a table; a semaphore is the number of its free
  permits. A permit, a guard or a reference that goes out of scope is given back.
\<close>

section \<open>The scheduler\<close>

record lock_cell =
  lc_strong :: nat
  lc_held :: bool

record live_invocation =
  li_token :: nat
  li_wait :: nat
  li_lifecycle :: invocation_state

record scheduler =
  sc_global :: nat
  sc_pending :: nat
  sc_locks :: "(path, nat) fmap"
  sc_cells :: "(nat, lock_cell) fmap"
  sc_live :: "(invocation_id, live_invocation) fmap"
  sc_active_count :: nat

definition scheduler_new :: "nat \<Rightarrow> nat \<Rightarrow> scheduler" where
  "scheduler_new concurrency pending =
     \<lparr>sc_global = concurrency, sc_pending = pending, sc_locks = fmempty, sc_cells = fmempty,
      sc_live = fmempty, sc_active_count = 0\<rparr>"

definition try_acquire_pending :: "scheduler \<Rightarrow> scheduler option" where
  "try_acquire_pending sc = (if sc_pending sc = 0 then None else Some (sc\<lparr>sc_pending := sc_pending sc - 1\<rparr>))"

text \<open>One attempt of \<^verbatim>\<open>acquire_execution\<close>; without a free permit it goes on waiting.\<close>

definition acquire_execution :: "scheduler \<Rightarrow> scheduler option" where
  "acquire_execution sc = (if sc_global sc = 0 then None else Some (sc\<lparr>sc_global := sc_global sc - 1\<rparr>))"

definition strong :: "scheduler \<Rightarrow> nat \<Rightarrow> nat" where
  "strong sc n = (case fmlookup (sc_cells sc) n of None \<Rightarrow> 0 | Some cell \<Rightarrow> lc_strong cell)"

definition held :: "scheduler \<Rightarrow> nat \<Rightarrow> bool" where
  "held sc n = (case fmlookup (sc_cells sc) n of None \<Rightarrow> False | Some cell \<Rightarrow> lc_held cell)"

definition set_cell :: "nat \<Rightarrow> nat \<Rightarrow> bool \<Rightarrow> scheduler \<Rightarrow> scheduler" where
  "set_cell n count locked sc = sc\<lparr>sc_cells := fmupd n \<lparr>lc_strong = count, lc_held = locked\<rparr> (sc_cells sc)\<rparr>"

definition fresh_cell :: "scheduler \<Rightarrow> nat" where
  "fresh_cell sc = (if sc_cells sc = fmempty then 0 else Max (fset (fmdom (sc_cells sc))) + 1)"

definition workspace_lock :: "path \<Rightarrow> scheduler \<Rightarrow> nat \<times> scheduler" where
  "workspace_lock key sc =
     (let locks = fmfilter (\<lambda>k. case fmlookup (sc_locks sc) k of None \<Rightarrow> False | Some n \<Rightarrow> 0 < strong sc n)
                    (sc_locks sc);
          sc1 = sc\<lparr>sc_locks := locks\<rparr>
      in case fmlookup locks key of
           Some n \<Rightarrow> (n, set_cell n (strong sc1 n + 1) (held sc1 n) sc1)
         | None \<Rightarrow>
             (let n = fresh_cell sc1
              in (n, (set_cell n 1 False sc1)\<lparr>sc_locks := fmupd key n locks\<rparr>)))"

definition sc_register ::
  "invocation_id \<Rightarrow> nat \<Rightarrow> nat \<Rightarrow> invocation_state \<Rightarrow> scheduler \<Rightarrow> scheduler"
where
  "sc_register ident token wait initial sc =
     (let live = fmupd ident \<lparr>li_token = token, li_wait = wait, li_lifecycle = initial\<rparr> (sc_live sc)
      in sc\<lparr>sc_live := live, sc_active_count := fcard (fmdom live)\<rparr>)"

definition sc_remove :: "invocation_id \<Rightarrow> scheduler \<Rightarrow> scheduler" where
  "sc_remove ident sc =
     (if fmlookup (sc_live sc) ident = None then sc
      else let live = fmdrop ident (sc_live sc)
           in sc\<lparr>sc_live := live, sc_active_count := fcard (fmdom live)\<rparr>)"

definition sc_cancellation :: "invocation_id \<Rightarrow> scheduler \<Rightarrow> nat option" where
  "sc_cancellation ident sc = map_option li_token (fmlookup (sc_live sc) ident)"

definition sc_output_base_wait :: "invocation_id \<Rightarrow> scheduler \<Rightarrow> nat option" where
  "sc_output_base_wait ident sc = map_option li_wait (fmlookup (sc_live sc) ident)"

definition lifecycle_state :: "invocation_id \<Rightarrow> scheduler \<Rightarrow> invocation_state option" where
  "lifecycle_state ident sc = map_option li_lifecycle (fmlookup (sc_live sc) ident)"

definition publish_state :: "invocation_id \<Rightarrow> invocation_state \<Rightarrow> scheduler \<Rightarrow> scheduler" where
  "publish_state ident st sc =
     (case fmlookup (sc_live sc) ident of
        None \<Rightarrow> sc
      | Some li \<Rightarrow> sc\<lparr>sc_live := fmupd ident (li\<lparr>li_lifecycle := st\<rparr>) (sc_live sc)\<rparr>)"

text \<open>The tokens that \<^verbatim>\<open>cancel_all\<close> cancels, and how many there are.\<close>

definition cancel_all :: "scheduler \<Rightarrow> nat fset \<times> nat" where
  "cancel_all sc =
     (fimage li_token (fmran (sc_live sc)), fcard (fmdom (sc_live sc)))"

definition active_count :: "scheduler \<Rightarrow> nat" where
  "active_count sc = fcard (fmdom (sc_live sc))"

text \<open>\<^verbatim>\<open>wait_until_idle\<close> returns once the published count is zero.\<close>

definition idle :: "scheduler \<Rightarrow> bool" where
  "idle sc \<longleftrightarrow> sc_active_count sc = 0"

section \<open>Waiting for an output base\<close>

text \<open>Times are milliseconds; a \<^verbatim>\<open>Duration\<close> saturates at its largest value.\<close>

definition duration_max_ms :: nat where
  "duration_max_ms = u64_max * 1000 + 999"

record wait_timing =
  active_since :: "nat option"
  accumulated :: nat
  wait_owner :: "string option"

definition wait_default :: wait_timing where
  "wait_default = \<lparr>active_since = None, accumulated = 0, wait_owner = None\<rparr>"

definition wait_begin :: "nat \<Rightarrow> string option \<Rightarrow> wait_timing \<Rightarrow> wait_timing" where
  "wait_begin now owner t =
     (if active_since t = None then t\<lparr>active_since := Some now, wait_owner := owner\<rparr>
      else if wait_owner t = None then t\<lparr>wait_owner := owner\<rparr>
      else t)"

definition duration_add :: "nat \<Rightarrow> nat \<Rightarrow> nat" where
  "duration_add a b = min (a + b) duration_max_ms"

definition wait_end :: "nat \<Rightarrow> wait_timing \<Rightarrow> wait_timing" where
  "wait_end now t =
     (case active_since t of
        None \<Rightarrow> t\<lparr>wait_owner := None\<rparr>
      | Some started \<Rightarrow>
          t\<lparr>active_since := None, accumulated := duration_add (accumulated t) (now - started),
            wait_owner := None\<rparr>)"

record wait_snapshot =
  ws_active :: bool
  ws_elapsed_ms :: nat
  ws_owner :: "string option"

definition duration_millis :: "nat \<Rightarrow> nat" where
  "duration_millis ms = (if ms \<le> u64_max then ms else u64_max)"

definition snapshot_of :: "nat \<Rightarrow> wait_timing \<Rightarrow> wait_snapshot" where
  "snapshot_of now t =
     \<lparr>ws_active = active_since t \<noteq> None,
      ws_elapsed_ms = duration_millis
        (duration_add (accumulated t) (case active_since t of None \<Rightarrow> 0 | Some started \<Rightarrow> now - started)),
      ws_owner = wait_owner t\<rparr>"

text \<open>
  \<^verbatim>\<open>acquire\<close>, over what each round of its loop meets: whether the invocation is cancelled at its
  start, what the attempt on the lock file gives, and whether it is cancelled while it sleeps.
  An error of the attempt returns at once.
\<close>

datatype lock_attempt = LockAcquired | LockBusy "nat option"

record lock_round =
  lr_now :: nat
  lr_cancelled :: bool
  lr_attempt :: "(lock_attempt, io_kind) result"
  lr_cancelled_asleep :: bool
  lr_later :: nat

datatype lock_outcome = LockGranted | LockCancelled

fun acquire_rounds ::
  "lock_round list \<Rightarrow> bool \<Rightarrow> wait_timing \<Rightarrow> (lock_outcome, io_kind) result option \<times> wait_timing"
where
  "acquire_rounds [] waiting t = (None, t)"
| "acquire_rounds (r # rs) waiting t =
     (if lr_cancelled r
      then (Some (Inr LockCancelled), if waiting then wait_end (lr_now r) t else t)
      else case lr_attempt r of
             Inl e \<Rightarrow> (Some (Inl e), t)
           | Inr LockAcquired \<Rightarrow> (Some (Inr LockGranted), if waiting then wait_end (lr_now r) t else t)
           | Inr (LockBusy owner) \<Rightarrow>
               (let t1 = (if waiting then t
                          else wait_begin (lr_now r)
                                 (map_option (\<lambda>pid. ''bazel_mcp:pid='' @ decimal pid) owner) t)
                in if lr_cancelled_asleep r
                   then (Some (Inr LockCancelled), wait_end (lr_later r) t1)
                   else acquire_rounds rs True t1))"

text \<open>What Bazel itself says about a lock it waits for.\<close>

definition NATIVE_WAIT_DETECTION_WINDOW_MS :: nat where
  "NATIVE_WAIT_DETECTION_WINDOW_MS = 2000"

definition NATIVE_LOCK_MARKER :: string where
  "NATIVE_LOCK_MARKER = ''Another command holds the output base lock:''"

definition NATIVE_WAIT_MARKER :: string where
  "NATIVE_WAIT_MARKER = ''Waiting for it to complete...''"

text \<open>The file of the lock names its owner.\<close>

definition parse_bazel_lock_pid :: "string \<Rightarrow> nat option" where
  "parse_bazel_lock_pid content =
     (if \<not> utf8_valid content then None
      else case List.map_filter (\<lambda>l. strip_prefix l ''pid='') (str_lines content) of
             [] \<Rightarrow> None
           | v # _ \<Rightarrow> parse_unsigned u32_max (str_trim v))"

text \<open>ASCII white space, as \<^verbatim>\<open>u8::is_ascii_whitespace\<close> has it.\<close>

definition is_ascii_whitespace :: "char \<Rightarrow> bool" where
  "is_ascii_whitespace c = (let n = of_char c :: nat in n = 9 \<or> n = 10 \<or> n = 12 \<or> n = 13 \<or> n = 32)"

text \<open>One round of \<^verbatim>\<open>observe_native_wait\<close>: the clock, the owner, the evidence files, the cancellation.\<close>

record observation =
  ob_now :: nat
  ob_elapsed :: nat
  ob_owner_alive :: bool
  ob_stderr_tail :: string
  ob_stdout_size :: nat
  ob_bep_size :: nat
  ob_cancelled :: bool

record observer =
  os_waiting :: bool
  os_marker_end :: "nat option"
  os_stdout :: nat
  os_bep :: nat
  os_stderr_len :: nat

text \<open>Looking for the markers, while no wait is known; \<^const>\<open>None\<close> is the end of the observation.\<close>

definition observe_start :: "observation \<Rightarrow> observer \<Rightarrow> wait_timing \<Rightarrow> (observer \<times> wait_timing) option" where
  "observe_start ob os t =
     (if os_waiting os then Some (os, t)
      else if str_contains (ob_stderr_tail ob) NATIVE_LOCK_MARKER \<or>
              str_contains (ob_stderr_tail ob) NATIVE_WAIT_MARKER
      then Some (os\<lparr>os_waiting := True, os_stdout := ob_stdout_size ob, os_bep := ob_bep_size ob\<rparr>,
                 wait_begin (ob_now ob) (Some ''bazel_client'') t)
      else if NATIVE_WAIT_DETECTION_WINDOW_MS \<le> ob_elapsed ob \<or> 0 < ob_stdout_size ob \<or> 0 < ob_bep_size ob
      then None
      else Some (os, t))"

text \<open>The end of the marker, and whether something other than white space follows it.\<close>

definition observe_marker :: "observation \<Rightarrow> observer \<Rightarrow> observer \<times> bool" where
  "observe_marker ob os =
     (case str_find (ob_stderr_tail ob) NATIVE_WAIT_MARKER of
        None \<Rightarrow> (os, False)
      | Some position \<Rightarrow>
          (let marker_end = sat_add position (length NATIVE_WAIT_MARKER)
           in (os\<lparr>os_marker_end := (case os_marker_end os of None \<Rightarrow> Some marker_end | Some e \<Rightarrow> Some e),
                   os_stderr_len := max (os_stderr_len os) (length (ob_stderr_tail ob))\<rparr>,
               list_ex (\<lambda>c. \<not> is_ascii_whitespace c) (drop marker_end (ob_stderr_tail ob)))))"

fun observe_native_wait ::
  "bool \<Rightarrow> observation list \<Rightarrow> observer \<Rightarrow> wait_timing \<Rightarrow> bool \<times> wait_timing"
where
  "observe_native_wait has_owner [] os t = (False, t)"
| "observe_native_wait has_owner (ob # obs) os t =
     (if has_owner \<and> \<not> ob_owner_alive ob then (True, wait_end (ob_now ob) t)
      else case observe_start ob os t of
             None \<Rightarrow> (True, t)
           | Some (os1, t1) \<Rightarrow>
               (let (os2, resumed) = (if os_waiting os1 then observe_marker ob os1 else (os1, False))
                in if resumed then (True, wait_end (ob_now ob) t1)
                   else if os_waiting os2 \<and> os_marker_end os2 \<noteq> None \<and>
                           (os_stdout os2 < ob_stdout_size ob \<or> os_bep os2 < ob_bep_size ob \<or>
                            os_stderr_len os2 < length (ob_stderr_tail ob))
                   then (True, wait_end (ob_now ob) t1)
                   else if ob_cancelled ob
                   then (True, if os_waiting os2 then wait_end (ob_now ob) t1 else t1)
                   else observe_native_wait has_owner obs os2 t1))"

section \<open>Workers\<close>

text \<open>Where an accepted invocation is, and the cell of its workspace lock once it has a reference.\<close>

datatype worker_position =
    AtPrepared
  | AtWorkspaceLock nat
  | AtOutputBase nat
  | AtPermit nat
  | AtExecution nat
  | AtEnd

record worker =
  wk_key :: path
  wk_at :: worker_position

text \<open>
  The locked files under the lock root, named by the digest of the output base, those of them
  that other processes hold, and the cancelled tokens.
\<close>

record system =
  sy_sched :: scheduler
  sy_workers :: "(invocation_id, worker) fmap"
  sy_files :: "nat fset"
  sy_foreign :: "nat fset"
  sy_cancelled :: "nat fset"

definition system_start :: "runner_config \<Rightarrow> system" where
  "system_start config =
     \<lparr>sy_sched = scheduler_new (global_concurrency config) (maximum_pending config), sy_workers = fmempty,
      sy_files = {||}, sy_foreign = {||}, sy_cancelled = {||}\<rparr>"

definition move_worker :: "invocation_id \<Rightarrow> worker \<Rightarrow> worker_position \<Rightarrow> system \<Rightarrow> system" where
  "move_worker ident w at sy = sy\<lparr>sy_workers := fmupd ident (w\<lparr>wk_at := at\<rparr>) (sy_workers sy)\<rparr>"

text \<open>Leaving \<^verbatim>\<open>run_prepared\<close>: what the worker holds is given back, and its pending permit.\<close>

definition release :: "(path \<Rightarrow> nat) \<Rightarrow> worker \<Rightarrow> system \<Rightarrow> system" where
  "release digest w sy =
     (let sc = sy_sched sy;
          returned = sc\<lparr>sc_pending := sc_pending sc + 1\<rparr>
      in case wk_at w of
           AtPrepared \<Rightarrow> sy\<lparr>sy_sched := returned\<rparr>
         | AtWorkspaceLock n \<Rightarrow> sy\<lparr>sy_sched := set_cell n (strong sc n - 1) (held sc n) returned\<rparr>
         | AtOutputBase n \<Rightarrow> sy\<lparr>sy_sched := set_cell n (strong sc n - 1) False returned\<rparr>
         | AtPermit n \<Rightarrow>
             sy\<lparr>sy_sched := set_cell n (strong sc n - 1) False returned,
                sy_files := sy_files sy |-| {|digest (wk_key w)|}\<rparr>
         | AtExecution n \<Rightarrow>
             sy\<lparr>sy_sched := (set_cell n (strong sc n - 1) False returned)\<lparr>sc_global := sc_global sc + 1\<rparr>,
                sy_files := sy_files sy |-| {|digest (wk_key w)|}\<rparr>
         | AtEnd \<Rightarrow> sy)"

text \<open>The next thing a worker does; \<^const>\<open>None\<close> while it has to wait.\<close>

definition advance :: "(path \<Rightarrow> nat) \<Rightarrow> invocation_id \<Rightarrow> system \<Rightarrow> system option" where
  "advance digest ident sy =
     (case fmlookup (sy_workers sy) ident of
        None \<Rightarrow> None
      | Some w \<Rightarrow>
          (case wk_at w of
             AtPrepared \<Rightarrow>
               (case workspace_lock (wk_key w) (sy_sched sy) of
                  (n, sc) \<Rightarrow> Some (move_worker ident w (AtWorkspaceLock n) (sy\<lparr>sy_sched := sc\<rparr>)))
           | AtWorkspaceLock n \<Rightarrow>
               if held (sy_sched sy) n then None
               else Some (move_worker ident w (AtOutputBase n)
                      (sy\<lparr>sy_sched := set_cell n (strong (sy_sched sy) n) True (sy_sched sy)\<rparr>))
           | AtOutputBase n \<Rightarrow>
               if digest (wk_key w) |\<in>| sy_files sy then None
               else Some (move_worker ident w (AtPermit n)
                      (sy\<lparr>sy_files := finsert (digest (wk_key w)) (sy_files sy)\<rparr>))
           | AtPermit n \<Rightarrow>
               map_option (\<lambda>sc. move_worker ident w (AtExecution n) (sy\<lparr>sy_sched := sc\<rparr>))
                 (acquire_execution (sy_sched sy))
           | AtExecution n \<Rightarrow> Some (move_worker ident w AtEnd (release digest w sy))
           | AtEnd \<Rightarrow> None))"

text \<open>
  What happens beside the workers' own progress: invocations are accepted, give up where they wait
  because they were cancelled or something failed, leave the registry, are cancelled; other
  processes lock and unlock output bases.
\<close>

inductive system_step :: "(path \<Rightarrow> nat) \<Rightarrow> system \<Rightarrow> system \<Rightarrow> bool" for digest where
  accept: "try_acquire_pending (sy_sched sy) = Some sc \<Longrightarrow> fmlookup (sy_workers sy) ident = None \<Longrightarrow>
    system_step digest sy
      (sy\<lparr>sy_sched := sc_register ident token wait Queued sc,
         sy_workers := fmupd ident \<lparr>wk_key = key, wk_at = AtPrepared\<rparr> (sy_workers sy)\<rparr>)"
| progress: "advance digest ident sy = Some sy' \<Longrightarrow> system_step digest sy sy'"
| give_up: "fmlookup (sy_workers sy) ident = Some w \<Longrightarrow> wk_at w \<noteq> AtEnd \<Longrightarrow>
    system_step digest sy (move_worker ident w AtEnd (release digest w sy))"
| leave_registry: "system_step digest sy (sy\<lparr>sy_sched := sc_remove ident (sy_sched sy)\<rparr>)"
| publish: "system_step digest sy (sy\<lparr>sy_sched := publish_state ident st (sy_sched sy)\<rparr>)"
| cancel: "system_step digest sy (sy\<lparr>sy_cancelled := finsert token (sy_cancelled sy)\<rparr>)"
| cancel_everything: "system_step digest sy
    (sy\<lparr>sy_cancelled := fst (cancel_all (sy_sched sy)) |\<union>| sy_cancelled sy\<rparr>)"
| foreign_lock: "f |\<notin>| sy_files sy \<Longrightarrow>
    system_step digest sy (sy\<lparr>sy_files := finsert f (sy_files sy), sy_foreign := finsert f (sy_foreign sy)\<rparr>)"
| foreign_unlock: "f |\<in>| sy_foreign sy \<Longrightarrow>
    system_step digest sy (sy\<lparr>sy_files := sy_files sy |-| {|f|}, sy_foreign := sy_foreign sy |-| {|f|}\<rparr>)"

inductive system_reachable :: "(path \<Rightarrow> nat) \<Rightarrow> runner_config \<Rightarrow> system \<Rightarrow> bool" for digest config where
  start: "system_reachable digest config (system_start config)"
| step: "system_reachable digest config sy \<Longrightarrow> system_step digest sy sy' \<Longrightarrow>
    system_reachable digest config sy'"

section \<open>Counting workers\<close>

definition workers_where :: "(worker \<Rightarrow> bool) \<Rightarrow> system \<Rightarrow> invocation_id set" where
  "workers_where P sy = {i. \<exists>w. fmlookup (sy_workers sy) i = Some w \<and> P w}"

definition count :: "(worker \<Rightarrow> bool) \<Rightarrow> system \<Rightarrow> nat" where
  "count P sy = card (workers_where P sy)"

lemma finite_workers [simp]: "finite (workers_where P sy)"
  by (rule finite_subset [of _ "fset (fmdom (sy_workers sy))"]) (auto simp: workers_where_def fmdomI)

lemma count_cong: "sy_workers sy' = sy_workers sy \<Longrightarrow> count P sy' = count P sy"
  by (simp add: count_def workers_where_def)

lemma count_new:
  assumes "fmlookup (sy_workers sy) i = None" and "sy_workers sy' = fmupd i w (sy_workers sy)"
  shows "count P sy' = count P sy + of_bool (P w)"
proof -
  have "workers_where P sy' = (if P w then insert i (workers_where P sy) else workers_where P sy)"
    using assms by (auto simp: workers_where_def)
  moreover have "i \<notin> workers_where P sy" using assms(1) by (simp add: workers_where_def)
  ultimately show ?thesis by (simp add: count_def)
qed

lemma count_move:
  assumes "fmlookup (sy_workers sy) i = Some w" and "sy_workers sy' = fmupd i w' (sy_workers sy)"
  shows "count P sy' + of_bool (P w) = count P sy + of_bool (P w')"
proof -
  have rest: "workers_where P sy' - {i} = workers_where P sy - {i}"
    using assms by (auto simp: workers_where_def)
  have mem: "i \<in> workers_where P sy \<longleftrightarrow> P w" "i \<in> workers_where P sy' \<longleftrightarrow> P w'"
    using assms by (auto simp: workers_where_def)
  have "card A = card (A - {i}) + of_bool (i \<in> A)" if "finite A" for A :: "invocation_id set"
    using that by (simp add: card_Diff_singleton_if) (metis One_nat_def Suc_pred card_gt_0_iff empty_iff)
  from this [of "workers_where P sy"] this [of "workers_where P sy'"] show ?thesis
    using rest mem by (simp add: count_def)
qed

lemma count_pos: "fmlookup (sy_workers sy) i = Some w \<Longrightarrow> P w \<Longrightarrow> 0 < count P sy"
  unfolding count_def card_gt_0_iff using finite_workers [of P sy] by (auto simp: workers_where_def)

lemma count_two:
  assumes "fmlookup (sy_workers sy) i = Some w" "P w" "fmlookup (sy_workers sy) j = Some v" "P v" "i \<noteq> j"
  shows "2 \<le> count P sy"
proof -
  have "{i, j} \<subseteq> workers_where P sy" using assms by (auto simp: workers_where_def)
  then have "card {i, j} \<le> count P sy" unfolding count_def by (rule card_mono [OF finite_workers])
  then show ?thesis using assms(5) by simp
qed

lemma count_zero: "count P sy = 0 \<longleftrightarrow> (\<forall>i w. fmlookup (sy_workers sy) i = Some w \<longrightarrow> \<not> P w)"
  unfolding count_def card_0_eq [OF finite_workers] by (auto simp: workers_where_def)

section \<open>The invariant\<close>

fun uses :: "nat \<Rightarrow> worker_position \<Rightarrow> bool" where
  "uses n (AtWorkspaceLock m) = (m = n)"
| "uses n (AtOutputBase m) = (m = n)"
| "uses n (AtPermit m) = (m = n)"
| "uses n (AtExecution m) = (m = n)"
| "uses n _ = False"

fun holds :: "nat \<Rightarrow> worker_position \<Rightarrow> bool" where
  "holds n (AtOutputBase m) = (m = n)"
| "holds n (AtPermit m) = (m = n)"
| "holds n (AtExecution m) = (m = n)"
| "holds n _ = False"

fun has_file :: "worker_position \<Rightarrow> bool" where
  "has_file (AtPermit _) = True"
| "has_file (AtExecution _) = True"
| "has_file _ = False"

fun executes :: "worker_position \<Rightarrow> bool" where
  "executes (AtExecution _) = True"
| "executes _ = False"

definition admission_inv :: "nat \<Rightarrow> nat \<Rightarrow> system \<Rightarrow> bool" where
  "admission_inv concurrency pending sy \<longleftrightarrow>
     sc_global (sy_sched sy) + count (\<lambda>w. executes (wk_at w)) sy = concurrency \<and>
     sc_pending (sy_sched sy) + count (\<lambda>w. wk_at w \<noteq> AtEnd) sy = pending"

definition cells_inv :: "system \<Rightarrow> bool" where
  "cells_inv sy \<longleftrightarrow>
     (\<forall>n. strong (sy_sched sy) n = count (\<lambda>w. uses n (wk_at w)) sy) \<and>
     (\<forall>n. of_bool (held (sy_sched sy) n) = count (\<lambda>w. holds n (wk_at w)) sy)"

definition keys_inv :: "system \<Rightarrow> bool" where
  "keys_inv sy \<longleftrightarrow>
     (\<forall>i w n. fmlookup (sy_workers sy) i = Some w \<longrightarrow> uses n (wk_at w) \<longrightarrow>
        fmlookup (sc_locks (sy_sched sy)) (wk_key w) = Some n)"

definition files_inv :: "(path \<Rightarrow> nat) \<Rightarrow> system \<Rightarrow> bool" where
  "files_inv digest sy \<longleftrightarrow>
     (\<forall>f. count (\<lambda>w. has_file (wk_at w) \<and> digest (wk_key w) = f) sy + of_bool (f |\<in>| sy_foreign sy) =
        (of_bool (f |\<in>| sy_files sy) :: nat))"

lemma cell_simps [simp]:
  "strong (set_cell n k b sc) m = (if m = n then k else strong sc m)"
  "held (set_cell n k b sc) m = (if m = n then b else held sc m)"
  "sc_global (set_cell n k b sc) = sc_global sc"
  "sc_pending (set_cell n k b sc) = sc_pending sc"
  "sc_locks (set_cell n k b sc) = sc_locks sc"
  by (simp_all add: set_cell_def strong_def held_def)

lemma cell_updates [simp]:
  "strong (sc\<lparr>sc_global := g\<rparr>) n = strong sc n" "held (sc\<lparr>sc_global := g\<rparr>) n = held sc n"
  "strong (sc\<lparr>sc_pending := g\<rparr>) n = strong sc n" "held (sc\<lparr>sc_pending := g\<rparr>) n = held sc n"
  "strong (sc\<lparr>sc_locks := l\<rparr>) n = strong sc n" "held (sc\<lparr>sc_locks := l\<rparr>) n = held sc n"
  by (simp_all add: strong_def held_def)

lemma registry_simps [simp]:
  "strong (sc_register i t w s sc) n = strong sc n" "held (sc_register i t w s sc) n = held sc n"
  "sc_global (sc_register i t w s sc) = sc_global sc" "sc_pending (sc_register i t w s sc) = sc_pending sc"
  "sc_locks (sc_register i t w s sc) = sc_locks sc"
  "strong (sc_remove i sc) n = strong sc n" "held (sc_remove i sc) n = held sc n"
  "sc_global (sc_remove i sc) = sc_global sc" "sc_pending (sc_remove i sc) = sc_pending sc"
  "sc_locks (sc_remove i sc) = sc_locks sc"
  "strong (publish_state i s sc) n = strong sc n" "held (publish_state i s sc) n = held sc n"
  "sc_global (publish_state i s sc) = sc_global sc" "sc_pending (publish_state i s sc) = sc_pending sc"
  "sc_locks (publish_state i s sc) = sc_locks sc"
  by (simp_all add: sc_register_def sc_remove_def publish_state_def strong_def held_def Let_def split: option.split)

lemma move_worker_simps [simp]:
  "sy_workers (move_worker i w at sy) = fmupd i (w\<lparr>wk_at := at\<rparr>) (sy_workers sy)"
  "sy_sched (move_worker i w at sy) = sy_sched sy" "sy_files (move_worker i w at sy) = sy_files sy"
  "sy_foreign (move_worker i w at sy) = sy_foreign sy"
  by (simp_all add: move_worker_def)

text \<open>A fresh cell is one that nobody refers to.\<close>

lemma strong_fresh: "strong sc (fresh_cell sc) = 0" "\<not> held sc (fresh_cell sc)"
proof -
  have "fmlookup (sc_cells sc) (fresh_cell sc) = None"
  proof (cases "sc_cells sc = fmempty")
    case False
    have "fresh_cell sc \<notin> fset (fmdom (sc_cells sc))"
    proof
      assume "fresh_cell sc \<in> fset (fmdom (sc_cells sc))"
      then have "fresh_cell sc \<le> Max (fset (fmdom (sc_cells sc)))" by simp
      then show False using False by (simp add: fresh_cell_def)
    qed
    then show ?thesis by (simp add: fmdom_notD)
  qed (simp add: fresh_cell_def)
  then show "strong sc (fresh_cell sc) = 0" "\<not> held sc (fresh_cell sc)" by (simp_all add: strong_def held_def)
qed

text \<open>What \<^const>\<open>workspace_lock\<close> does: one more reference, to the cell that users of the key have.\<close>

lemma workspace_lock_spec:
  assumes "workspace_lock key sc = (n, sc')"
  shows "strong sc' m = strong sc m + of_bool (m = n)" "held sc' m = held sc m"
    "sc_global sc' = sc_global sc" "sc_pending sc' = sc_pending sc"
    "fmlookup (sc_locks sc') key = Some n"
    "fmlookup (sc_locks sc) k = Some j \<Longrightarrow> 0 < strong sc j \<Longrightarrow> fmlookup (sc_locks sc') k = Some j"
proof -
  let ?locks = "fmfilter (\<lambda>k. case fmlookup (sc_locks sc) k of None \<Rightarrow> False | Some n \<Rightarrow> 0 < strong sc n) (sc_locks sc)"
  let ?sc = "sc\<lparr>sc_locks := ?locks\<rparr>"
  have fresh: "strong sc (fresh_cell ?sc) = 0" "\<not> held sc (fresh_cell ?sc)"
    using strong_fresh [of ?sc] by simp_all
  show "strong sc' m = strong sc m + of_bool (m = n)" "held sc' m = held sc m"
    "sc_global sc' = sc_global sc" "sc_pending sc' = sc_pending sc"
    "fmlookup (sc_locks sc') key = Some n"
    using assms fresh by (auto simp: workspace_lock_def Let_def split: option.splits if_splits)
  show "fmlookup (sc_locks sc') k = Some j" if "fmlookup (sc_locks sc) k = Some j" "0 < strong sc j"
  proof -
    have kept: "fmlookup ?locks k = Some j" using that by simp
    show ?thesis
    proof (cases "fmlookup ?locks key")
      case None
      then have "k \<noteq> key" using kept by auto
      then show ?thesis using assms None kept by (auto simp: workspace_lock_def Let_def)
    next
      case (Some m)
      then show ?thesis using assms kept by (auto simp: workspace_lock_def Let_def)
    qed
  qed
qed

section \<open>Steps keep the invariant\<close>

lemma release_simps [simp]:
  "sy_workers (release digest w sy) = sy_workers sy" "sy_foreign (release digest w sy) = sy_foreign sy"
  "sc_locks (sy_sched (release digest w sy)) = sc_locks (sy_sched sy)"
  by (simp_all add: release_def Let_def split: worker_position.split)

lemma admission_release:
  assumes "fmlookup (sy_workers sy) i = Some w" and "wk_at w \<noteq> AtEnd" and "admission_inv g p sy"
  shows "admission_inv g p (move_worker i w AtEnd (release digest w sy))"
proof -
  let ?sy = "move_worker i w AtEnd (release digest w sy)"
  have c: "count P ?sy + of_bool (P w) = count P sy + of_bool (P (w\<lparr>wk_at := AtEnd\<rparr>))" for P
    by (rule count_move [OF assms(1)]) simp
  show ?thesis
    using assms(2,3) c [of "\<lambda>w. executes (wk_at w)"] c [of "\<lambda>w. wk_at w \<noteq> AtEnd"]
    by (cases "wk_at w") (simp_all add: admission_inv_def release_def Let_def)
qed

lemma cells_release:
  assumes "fmlookup (sy_workers sy) i = Some w" and "wk_at w \<noteq> AtEnd" and inv: "cells_inv sy"
  shows "cells_inv (move_worker i w AtEnd (release digest w sy))"
proof -
  let ?sy = "move_worker i w AtEnd (release digest w sy)"
  have c: "count P ?sy + of_bool (P w) = count P sy + of_bool (P (w\<lparr>wk_at := AtEnd\<rparr>))" for P
    by (rule count_move [OF assms(1)]) simp
  have s: "strong (sy_sched sy) n = count (\<lambda>w. uses n (wk_at w)) sy"
    and h: "of_bool (held (sy_sched sy) n) = count (\<lambda>w. holds n (wk_at w)) sy" for n
    using inv by (simp_all add: cells_inv_def)
  have "strong (sy_sched ?sy) n = count (\<lambda>w. uses n (wk_at w)) ?sy" for n
    using c [of "\<lambda>w. uses n (wk_at w)"] s [of n] assms(2)
    by (cases "wk_at w") (auto simp: release_def Let_def)
  moreover have "of_bool (held (sy_sched ?sy) n) = count (\<lambda>w. holds n (wk_at w)) ?sy" for n
  proof -
    have "count (\<lambda>w. holds n (wk_at w)) sy \<le> 1" unfolding h [symmetric] by simp
    then show ?thesis
      using c [of "\<lambda>w. holds n (wk_at w)"] h [of n] assms(2)
      by (cases "wk_at w") (auto simp: release_def Let_def split: if_splits)
  qed
  ultimately show ?thesis by (simp add: cells_inv_def)
qed

lemma keys_move:
  assumes "keys_inv sy" and "fmlookup (sy_workers sy) i = Some w"
    and "sy_workers sy' = fmupd i (w\<lparr>wk_at := at\<rparr>) (sy_workers sy)"
    and "sc_locks (sy_sched sy') = sc_locks (sy_sched sy)" and "\<And>n. uses n at \<Longrightarrow> uses n (wk_at w)"
  shows "keys_inv sy'"
  using assms by (auto simp: keys_inv_def)

lemma files_release:
  assumes "fmlookup (sy_workers sy) i = Some w" and "wk_at w \<noteq> AtEnd" and inv: "files_inv digest sy"
  shows "files_inv digest (move_worker i w AtEnd (release digest w sy))"
  unfolding files_inv_def
proof
  fix f
  let ?sy = "move_worker i w AtEnd (release digest w sy)"
  let ?P = "\<lambda>w. has_file (wk_at w) \<and> digest (wk_key w) = f"
  have c: "count ?P ?sy + of_bool (?P w) = count ?P sy + of_bool (?P (w\<lparr>wk_at := AtEnd\<rparr>))"
    by (rule count_move [OF assms(1)]) simp
  have "count ?P sy + of_bool (f |\<in>| sy_foreign sy) = of_bool (f |\<in>| sy_files sy)"
    using inv by (simp add: files_inv_def)
  moreover have "f |\<in>| sy_files ?sy \<longleftrightarrow> f |\<in>| sy_files sy \<and> \<not> ?P w"
    by (cases "wk_at w") (auto simp: release_def Let_def)
  ultimately show "count ?P ?sy + of_bool (f |\<in>| sy_foreign ?sy) = of_bool (f |\<in>| sy_files ?sy)"
    using c by (cases "f |\<in>| sy_files sy"; cases "?P w"; cases "f |\<in>| sy_foreign sy") simp_all
qed

text \<open>The moves of a worker through the locks.\<close>

lemma advance_cases:
  assumes "advance digest i sy = Some sy'"
  obtains (prepared) w n sc where "fmlookup (sy_workers sy) i = Some w" "wk_at w = AtPrepared"
      "workspace_lock (wk_key w) (sy_sched sy) = (n, sc)"
      "sy' = move_worker i w (AtWorkspaceLock n) (sy\<lparr>sy_sched := sc\<rparr>)"
  | (workspace) w n where "fmlookup (sy_workers sy) i = Some w" "wk_at w = AtWorkspaceLock n"
      "\<not> held (sy_sched sy) n"
      "sy' = move_worker i w (AtOutputBase n)
        (sy\<lparr>sy_sched := set_cell n (strong (sy_sched sy) n) True (sy_sched sy)\<rparr>)"
  | (output_base) w n where "fmlookup (sy_workers sy) i = Some w" "wk_at w = AtOutputBase n"
      "digest (wk_key w) |\<notin>| sy_files sy"
      "sy' = move_worker i w (AtPermit n) (sy\<lparr>sy_files := finsert (digest (wk_key w)) (sy_files sy)\<rparr>)"
  | (permit) w n where "fmlookup (sy_workers sy) i = Some w" "wk_at w = AtPermit n" "0 < sc_global (sy_sched sy)"
      "sy' = move_worker i w (AtExecution n)
        (sy\<lparr>sy_sched := (sy_sched sy)\<lparr>sc_global := sc_global (sy_sched sy) - 1\<rparr>\<rparr>)"
  | (finished) w n where "fmlookup (sy_workers sy) i = Some w" "wk_at w = AtExecution n"
      "sy' = move_worker i w AtEnd (release digest w sy)"
proof -
  obtain w where w: "fmlookup (sy_workers sy) i = Some w"
    using assms by (auto simp: advance_def split: option.splits)
  show thesis
  proof (cases "wk_at w")
    case AtPrepared
    then show ?thesis using assms w prepared by (auto simp: advance_def split: prod.splits)
  next
    case (AtWorkspaceLock n)
    then show ?thesis using assms w workspace by (auto simp: advance_def split: if_splits)
  next
    case (AtOutputBase n)
    then show ?thesis using assms w output_base by (auto simp: advance_def split: if_splits)
  next
    case (AtPermit n)
    then show ?thesis using assms w permit by (auto simp: advance_def acquire_execution_def split: if_splits)
  next
    case (AtExecution n)
    then show ?thesis using assms w finished by (auto simp: advance_def)
  next
    case AtEnd
    then show ?thesis using assms w by (simp add: advance_def)
  qed
qed

definition system_inv :: "(path \<Rightarrow> nat) \<Rightarrow> nat \<Rightarrow> nat \<Rightarrow> system \<Rightarrow> bool" where
  "system_inv digest g p sy \<longleftrightarrow> admission_inv g p sy \<and> cells_inv sy \<and> keys_inv sy \<and> files_inv digest sy"

lemma release_inv:
  assumes "fmlookup (sy_workers sy) i = Some w" and "wk_at w \<noteq> AtEnd" and "system_inv digest g p sy"
  shows "system_inv digest g p (move_worker i w AtEnd (release digest w sy))"
  using assms admission_release [OF assms(1,2)] cells_release [OF assms(1,2)] files_release [OF assms(1,2)]
    keys_move [of sy i w "move_worker i w AtEnd (release digest w sy)" AtEnd]
  by (simp add: system_inv_def)

text \<open>A move that is neither into nor out of the states a part of the invariant counts.\<close>

lemma move_inv:
  assumes w: "fmlookup (sy_workers sy) i = Some w" and sy: "sy_workers sy0 = sy_workers sy"
    and inv: "system_inv digest g p sy"
    and global: "sc_global (sy_sched sy0) + of_bool (executes at) = sc_global (sy_sched sy) + of_bool (executes (wk_at w))"
    and pending: "sc_pending (sy_sched sy0) = sc_pending (sy_sched sy)" "wk_at w \<noteq> AtEnd" "at \<noteq> AtEnd"
    and refs: "\<And>n. strong (sy_sched sy0) n + of_bool (uses n (wk_at w)) = strong (sy_sched sy) n + of_bool (uses n at)"
    and helds: "\<And>n. of_bool (held (sy_sched sy0) n) + of_bool (holds n (wk_at w)) =
      of_bool (held (sy_sched sy) n) + (of_bool (holds n at) :: nat)"
    and files: "\<And>f. of_bool (f |\<in>| sy_files sy0) + of_bool (has_file (wk_at w) \<and> digest (wk_key w) = f) =
      of_bool (f |\<in>| sy_files sy) + (of_bool (has_file at \<and> digest (wk_key w) = f) :: nat)"
      "sy_foreign sy0 = sy_foreign sy"
    and keys: "keys_inv (move_worker i w at sy0)"
  shows "system_inv digest g p (move_worker i w at sy0)"
proof -
  let ?sy = "move_worker i w at sy0"
  have c: "count P ?sy + of_bool (P w) = count P sy + of_bool (P (w\<lparr>wk_at := at\<rparr>))" for P
    by (rule count_move [OF w]) (simp add: sy)
  have "admission_inv g p ?sy"
    using inv c [of "\<lambda>w. executes (wk_at w)"] c [of "\<lambda>w. wk_at w \<noteq> AtEnd"] global pending
    by (simp add: system_inv_def admission_inv_def)
  moreover have "strong (sy_sched ?sy) n = count (\<lambda>w. uses n (wk_at w)) ?sy" for n
  proof -
    have "strong (sy_sched sy) n = count (\<lambda>w. uses n (wk_at w)) sy"
      using inv by (simp add: system_inv_def cells_inv_def)
    then show ?thesis using c [of "\<lambda>w. uses n (wk_at w)"] refs [of n] by simp
  qed
  moreover have "of_bool (held (sy_sched ?sy) n) = count (\<lambda>w. holds n (wk_at w)) ?sy" for n
  proof -
    have "of_bool (held (sy_sched sy) n) = count (\<lambda>w. holds n (wk_at w)) sy"
      using inv by (simp add: system_inv_def cells_inv_def)
    then show ?thesis using c [of "\<lambda>w. holds n (wk_at w)"] helds [of n] by simp
  qed
  moreover have "count (\<lambda>w. has_file (wk_at w) \<and> digest (wk_key w) = f) ?sy + of_bool (f |\<in>| sy_foreign ?sy) =
      of_bool (f |\<in>| sy_files ?sy)" for f
  proof -
    have "count (\<lambda>w. has_file (wk_at w) \<and> digest (wk_key w) = f) sy + of_bool (f |\<in>| sy_foreign sy) =
        of_bool (f |\<in>| sy_files sy)"
      using inv by (simp add: system_inv_def files_inv_def)
    then show ?thesis
      using c [of "\<lambda>w. has_file (wk_at w) \<and> digest (wk_key w) = f"] files(1) [of f] files(2) by simp
  qed
  ultimately show ?thesis using keys by (simp add: system_inv_def cells_inv_def files_inv_def)
qed

lemma cell_in_use:
  assumes "cells_inv sy" and "fmlookup (sy_workers sy) i = Some w" and "uses n (wk_at w)"
  shows "0 < strong (sy_sched sy) n"
  using assms count_pos [of sy i w "\<lambda>w. uses n (wk_at w)"] by (simp add: cells_inv_def)

lemma keys_prepared:
  assumes inv: "keys_inv sy" "cells_inv sy" and w: "fmlookup (sy_workers sy) i = Some w" "wk_at w = AtPrepared"
    and lock: "workspace_lock (wk_key w) (sy_sched sy) = (n, sc)"
  shows "keys_inv (move_worker i w (AtWorkspaceLock n) (sy\<lparr>sy_sched := sc\<rparr>))"
  unfolding keys_inv_def
proof (intro allI impI)
  fix j v m
  let ?sy = "move_worker i w (AtWorkspaceLock n) (sy\<lparr>sy_sched := sc\<rparr>)"
  assume a: "fmlookup (sy_workers ?sy) j = Some v" "uses m (wk_at v)"
  show "fmlookup (sc_locks (sy_sched ?sy)) (wk_key v) = Some m"
  proof (cases "j = i")
    case True
    then show ?thesis using a workspace_lock_spec(5) [OF lock] by auto
  next
    case False
    then have v: "fmlookup (sy_workers sy) j = Some v" using a by simp
    then have "fmlookup (sc_locks (sy_sched sy)) (wk_key v) = Some m" using inv(1) a(2) by (auto simp: keys_inv_def)
    then show ?thesis using workspace_lock_spec(6) [OF lock] cell_in_use [OF inv(2) v a(2)] by simp
  qed
qed

lemma advance_inv:
  assumes "advance digest i sy = Some sy'" and inv: "system_inv digest g p sy"
  shows "system_inv digest g p sy'"
  using assms(1)
proof (cases rule: advance_cases)
  case (prepared w n sc)
  note lock = workspace_lock_spec [OF prepared(3)]
  have "keys_inv sy'"
    using keys_prepared [OF _ _ prepared(1-3)] inv prepared(4) by (simp add: system_inv_def)
  then show ?thesis
    unfolding prepared(4)
    by (intro move_inv [OF prepared(1) _ inv]) (auto simp: prepared(2) lock)
next
  case (workspace w n)
  have "keys_inv sy'"
    using inv workspace by (auto simp: system_inv_def intro: keys_move)
  then show ?thesis
    unfolding workspace(4)
    by (intro move_inv [OF workspace(1) _ inv]) (auto simp: workspace(2,3))
next
  case (output_base w n)
  have "keys_inv sy'"
    using inv output_base by (auto simp: system_inv_def intro: keys_move)
  then show ?thesis
    unfolding output_base(4)
    by (intro move_inv [OF output_base(1) _ inv]) (use output_base(2,3) in auto)
next
  case (permit w n)
  have "keys_inv sy'"
    using inv permit by (auto simp: system_inv_def intro: keys_move)
  then show ?thesis
    unfolding permit(4)
    by (intro move_inv [OF permit(1) _ inv]) (use permit(2,3) in auto)
next
  case (finished w n)
  then show ?thesis using release_inv [OF finished(1) _ inv] by simp
qed

lemma same_workers_inv:
  assumes "system_inv digest g p sy" and "sy_workers sy' = sy_workers sy"
    and "sc_global (sy_sched sy') = sc_global (sy_sched sy)" "sc_pending (sy_sched sy') = sc_pending (sy_sched sy)"
    "\<And>n. strong (sy_sched sy') n = strong (sy_sched sy) n" "\<And>n. held (sy_sched sy') n = held (sy_sched sy) n"
    "sc_locks (sy_sched sy') = sc_locks (sy_sched sy)"
    and "\<And>f. of_bool (f |\<in>| sy_files sy') + of_bool (f |\<in>| sy_foreign sy) =
      of_bool (f |\<in>| sy_files sy) + (of_bool (f |\<in>| sy_foreign sy') :: nat)"
  shows "system_inv digest g p sy'"
proof -
  have "count (\<lambda>w. has_file (wk_at w) \<and> digest (wk_key w) = f) sy + of_bool (f |\<in>| sy_foreign sy') =
      of_bool (f |\<in>| sy_files sy')" for f
  proof -
    have "count (\<lambda>w. has_file (wk_at w) \<and> digest (wk_key w) = f) sy + of_bool (f |\<in>| sy_foreign sy) =
        of_bool (f |\<in>| sy_files sy)"
      using assms(1) by (simp add: system_inv_def files_inv_def)
    then show ?thesis using assms(8) [of f] by linarith
  qed
  then show ?thesis
    using assms(1-7) count_cong [OF assms(2)]
    by (simp add: system_inv_def admission_inv_def cells_inv_def keys_inv_def files_inv_def)
qed

lemma accept_inv:
  assumes "try_acquire_pending (sy_sched sy) = Some sc" and new: "fmlookup (sy_workers sy) i = None"
    and inv: "system_inv digest g p sy"
  shows "system_inv digest g p
    (sy\<lparr>sy_sched := sc_register i token wait Queued sc,
       sy_workers := fmupd i \<lparr>wk_key = key, wk_at = AtPrepared\<rparr> (sy_workers sy)\<rparr>)"
proof -
  let ?sy = "sy\<lparr>sy_sched := sc_register i token wait Queued sc,
       sy_workers := fmupd i \<lparr>wk_key = key, wk_at = AtPrepared\<rparr> (sy_workers sy)\<rparr>"
  have c: "count P ?sy = count P sy + of_bool (P \<lparr>wk_key = key, wk_at = AtPrepared\<rparr>)" for P
    by (rule count_new [OF new]) simp
  have sc: "sc = (sy_sched sy)\<lparr>sc_pending := sc_pending (sy_sched sy) - 1\<rparr>" "0 < sc_pending (sy_sched sy)"
    using assms(1) by (auto simp: try_acquire_pending_def split: if_splits)
  show ?thesis
    using inv sc c new
    by (auto simp: system_inv_def admission_inv_def cells_inv_def keys_inv_def files_inv_def)
qed

lemma foreign_files: "files_inv digest sy \<Longrightarrow> f |\<in>| sy_foreign sy \<Longrightarrow> f |\<in>| sy_files sy"
  unfolding files_inv_def by (drule spec [of _ f]) (cases "f |\<in>| sy_files sy"; simp)

lemma system_step_inv:
  assumes "system_step digest sy sy'" and inv: "system_inv digest g p sy"
  shows "system_inv digest g p sy'"
  using assms(1)
proof cases
  case (accept sc ident token wait key)
  then show ?thesis using accept_inv [OF _ _ inv] by simp
next
  case (progress ident)
  then show ?thesis using advance_inv inv by blast
next
  case (give_up ident w)
  then show ?thesis using release_inv [OF _ _ inv] by simp
next
  case (foreign_lock f)
  then have "f |\<notin>| sy_foreign sy" using foreign_files [of digest sy f] inv by (auto simp: system_inv_def)
  then show ?thesis
    unfolding foreign_lock(1) using foreign_lock(2) by (intro same_workers_inv [OF inv]) auto
next
  case (foreign_unlock f)
  then have "f |\<in>| sy_files sy" using foreign_files [of digest sy f] inv by (simp add: system_inv_def)
  then show ?thesis
    unfolding foreign_unlock(1) using foreign_unlock(2) by (intro same_workers_inv [OF inv]) auto
next
  case (leave_registry ident)
  show ?thesis unfolding leave_registry by (intro same_workers_inv [OF inv]) simp_all
next
  case (publish ident st)
  show ?thesis unfolding publish by (intro same_workers_inv [OF inv]) simp_all
next
  case (cancel token)
  show ?thesis unfolding cancel by (intro same_workers_inv [OF inv]) simp_all
next
  case cancel_everything
  show ?thesis unfolding cancel_everything by (intro same_workers_inv [OF inv]) simp_all
qed

lemma system_start_inv: "system_inv digest (global_concurrency config) (maximum_pending config) (system_start config)"
  by (simp add: system_inv_def admission_inv_def cells_inv_def keys_inv_def files_inv_def system_start_def
      scheduler_new_def count_def workers_where_def strong_def held_def)

lemma system_reachable_inv:
  "system_reachable digest config sy \<Longrightarrow>
   system_inv digest (global_concurrency config) (maximum_pending config) sy"
  by (induction rule: system_reachable.induct) (auto intro: system_start_inv system_step_inv)

section \<open>Progress\<close>

fun remaining :: "worker_position \<Rightarrow> nat" where
  "remaining AtPrepared = 5"
| "remaining (AtWorkspaceLock _) = 4"
| "remaining (AtOutputBase _) = 3"
| "remaining (AtPermit _) = 2"
| "remaining (AtExecution _) = 1"
| "remaining AtEnd = 0"

text \<open>The number of steps all workers together have before them.\<close>

definition work :: "system \<Rightarrow> nat" where
  "work sy = (\<Sum>i\<in>fset (fmdom (sy_workers sy)). case fmlookup (sy_workers sy) i of None \<Rightarrow> 0 | Some w \<Rightarrow> remaining (wk_at w))"

lemma work_move:
  assumes "fmlookup (sy_workers sy) i = Some w" and "sy_workers sy' = fmupd i w' (sy_workers sy)"
  shows "work sy' + remaining (wk_at w) = work sy + remaining (wk_at w')"
proof -
  let ?D = "fset (fmdom (sy_workers sy))"
  let ?f = "\<lambda>sy i. case fmlookup (sy_workers sy) i of None \<Rightarrow> 0 | Some w \<Rightarrow> remaining (wk_at w)"
  have i: "i \<in> ?D" using assms(1) by (simp add: fmdomI)
  have dom: "fset (fmdom (sy_workers sy')) = ?D" using i assms(2) by auto
  have "work sy = ?f sy i + sum (?f sy) (?D - {i})" unfolding work_def by (rule sum.remove) (use i in auto)
  moreover have "work sy' = ?f sy' i + sum (?f sy') (?D - {i})"
    unfolding work_def dom by (rule sum.remove) (use i in auto)
  moreover have "sum (?f sy') (?D - {i}) = sum (?f sy) (?D - {i})" by (rule sum.cong) (use assms(2) in auto)
  ultimately show ?thesis using assms by simp
qed

lemma advance_work:
  assumes "advance digest i sy = Some sy'"
  shows "work sy' < work sy \<and> sy_foreign sy' = sy_foreign sy"
  using assms
proof (cases rule: advance_cases)
  case (prepared w n sc)
  then show ?thesis using work_move [OF prepared(1), of sy' "w\<lparr>wk_at := AtWorkspaceLock n\<rparr>"] by simp
next
  case (workspace w n)
  then show ?thesis using work_move [OF workspace(1), of sy' "w\<lparr>wk_at := AtOutputBase n\<rparr>"] by simp
next
  case (output_base w n)
  then show ?thesis using work_move [OF output_base(1), of sy' "w\<lparr>wk_at := AtPermit n\<rparr>"] by simp
next
  case (permit w n)
  then show ?thesis using work_move [OF permit(1), of sy' "w\<lparr>wk_at := AtExecution n\<rparr>"] by simp
next
  case (finished w n)
  then show ?thesis using work_move [OF finished(1), of sy' "w\<lparr>wk_at := AtEnd\<rparr>"] by simp
qed

text \<open>While no other process holds an output base, some unfinished worker is not blocked.\<close>

lemma some_worker_advances:
  assumes inv: "system_inv digest g p sy" and g: "0 < g" and foreign: "sy_foreign sy = {||}"
    and w: "fmlookup (sy_workers sy) i = Some w" "wk_at w \<noteq> AtEnd"
  shows "\<exists>j. advance digest j sy \<noteq> None"
proof (rule ccontr)
  assume "\<not> ?thesis"
  then have stuck: "advance digest j sy = None" for j by blast
  have no: "wk_at v \<noteq> AtPrepared \<and> \<not> executes (wk_at v)" if "fmlookup (sy_workers sy) j = Some v" for j v
    using stuck [of j] that by (cases "wk_at v") (auto simp: advance_def split: prod.splits)
  have "count (\<lambda>w. executes (wk_at w)) sy = 0" unfolding count_zero using no by blast
  then have free: "0 < sc_global (sy_sched sy)" using inv g by (simp add: system_inv_def admission_inv_def)
  have no2: "\<not> has_file (wk_at v)" if "fmlookup (sy_workers sy) j = Some v" for j v
    using stuck [of j] that no [OF that] free
    by (cases "wk_at v") (auto simp: advance_def acquire_execution_def)
  have "f |\<notin>| sy_files sy" for f
  proof -
    have "count (\<lambda>w. has_file (wk_at w) \<and> digest (wk_key w) = f) sy = 0" unfolding count_zero using no2 by blast
    moreover have "count (\<lambda>w. has_file (wk_at w) \<and> digest (wk_key w) = f) sy + of_bool (f |\<in>| sy_foreign sy) =
        of_bool (f |\<in>| sy_files sy)"
      using inv by (simp add: system_inv_def files_inv_def)
    ultimately show ?thesis using foreign by (cases "f |\<in>| sy_files sy") simp_all
  qed
  then have no3: "\<not> holds n (wk_at v)" if "fmlookup (sy_workers sy) j = Some v" for j v n
    using stuck [of j] that no2 [OF that] by (cases "wk_at v") (auto simp: advance_def)
  have "\<not> held (sy_sched sy) n" for n
  proof -
    have "count (\<lambda>w. holds n (wk_at w)) sy = 0" unfolding count_zero using no3 by blast
    moreover have "of_bool (held (sy_sched sy) n) = count (\<lambda>w. holds n (wk_at w)) sy"
      using inv by (simp add: system_inv_def cells_inv_def)
    ultimately show ?thesis by (cases "held (sy_sched sy) n") simp_all
  qed
  then show False
    using stuck [of i] w no [OF w(1)] no2 [OF w(1)] no3 [OF w(1)]
    by (cases "wk_at w") (auto simp: advance_def)
qed

text \<open>A schedule: whose turn it is, each of them able to move.\<close>

fun run_schedule :: "(path \<Rightarrow> nat) \<Rightarrow> invocation_id list \<Rightarrow> system \<Rightarrow> system option" where
  "run_schedule digest [] sy = Some sy"
| "run_schedule digest (i # is) sy = Option.bind (advance digest i sy) (run_schedule digest is)"

lemma run_schedule_inv:
  "run_schedule digest is sy = Some sy' \<Longrightarrow> system_inv digest g p sy \<Longrightarrow>
   system_inv digest g p sy' \<and> sy_foreign sy' = sy_foreign sy \<and> length is + work sy' \<le> work sy"
proof (induction "is" arbitrary: sy)
  case (Cons i "is")
  then obtain sy1 where sy1: "advance digest i sy = Some sy1" "run_schedule digest is sy1 = Some sy'"
    by (auto simp: bind_eq_Some_conv)
  then show ?case
    using Cons.IH [OF sy1(2) advance_inv [OF sy1(1) Cons.prems(2)]] advance_work [OF sy1(1)] by simp
qed simp

lemma all_done:
  assumes inv: "system_inv digest g p sy" and foreign: "sy_foreign sy = {||}"
    and over: "\<And>i w. fmlookup (sy_workers sy) i = Some w \<Longrightarrow> wk_at w = AtEnd"
  shows "sc_global (sy_sched sy) = g \<and> sc_pending (sy_sched sy) = p \<and> sy_files sy = {||}"
proof -
  have "count (\<lambda>w. executes (wk_at w)) sy = 0" "count (\<lambda>w. wk_at w \<noteq> AtEnd) sy = 0"
    unfolding count_zero using over by fastforce+
  moreover have "f |\<notin>| sy_files sy" for f
  proof -
    have "count (\<lambda>w. has_file (wk_at w) \<and> digest (wk_key w) = f) sy = 0" unfolding count_zero using over by fastforce
    moreover have "count (\<lambda>w. has_file (wk_at w) \<and> digest (wk_key w) = f) sy + of_bool (f |\<in>| sy_foreign sy) =
        of_bool (f |\<in>| sy_files sy)"
      using inv by (simp add: system_inv_def files_inv_def)
    ultimately show ?thesis using foreign by (cases "f |\<in>| sy_files sy") simp_all
  qed
  ultimately show ?thesis using inv by (auto simp: system_inv_def admission_inv_def)
qed

lemma drain_exists:
  "system_inv digest g p sy \<Longrightarrow> 0 < g \<Longrightarrow> sy_foreign sy = {||} \<Longrightarrow>
   \<exists>is sy'. run_schedule digest is sy = Some sy' \<and>
     (\<forall>i w. fmlookup (sy_workers sy') i = Some w \<longrightarrow> wk_at w = AtEnd)"
proof (induction "work sy" arbitrary: sy rule: less_induct)
  case less
  show ?case
  proof (cases "\<forall>i w. fmlookup (sy_workers sy) i = Some w \<longrightarrow> wk_at w = AtEnd")
    case True
    then show ?thesis by (intro exI [of _ "[]"] exI [of _ sy]) simp
  next
    case False
    then obtain j sy1 where sy1: "advance digest j sy = Some sy1"
      using some_worker_advances [OF less.prems] by fast
    then obtain "is" sy' where "run_schedule digest is sy1 = Some sy'"
      "\<forall>i w. fmlookup (sy_workers sy') i = Some w \<longrightarrow> wk_at w = AtEnd"
      using less.hyps [of sy1] advance_work [OF sy1] advance_inv [OF sy1 less.prems(1)] less.prems by auto
    then show ?thesis using sy1 by (intro exI [of _ "j # is"] exI [of _ sy']) simp
  qed
qed

section \<open>Accounts of waiting\<close>

text \<open>Once the lock is granted or the invocation is cancelled, no wait is open.\<close>

lemma acquire_closes_wait:
  "acquire_rounds rs waiting t = (Some (Inr outcome), t') \<Longrightarrow> active_since t = None \<or> waiting \<Longrightarrow>
   active_since t' = None"
  by (induction rs waiting t rule: acquire_rounds.induct)
    (auto simp: wait_end_def wait_begin_def Let_def split: if_splits sum.splits lock_attempt.splits option.splits)

text \<open>An attempt that fails after a busy one leaves the wait open.\<close>

lemma acquire_error_leaves_wait:
  "acquire_rounds
     [\<lparr>lr_now = 1, lr_cancelled = False, lr_attempt = Inr (LockBusy None), lr_cancelled_asleep = False, lr_later = 2\<rparr>,
      \<lparr>lr_now = 2, lr_cancelled = False, lr_attempt = Inl OtherIo, lr_cancelled_asleep = False, lr_later = 3\<rparr>]
     False wait_default = (Some (Inl OtherIo), \<lparr>active_since = Some 1, accumulated = 0, wait_owner = None\<rparr>)"
  by (simp add: wait_begin_def wait_default_def)

text \<open>The observer closes the wait it opened whenever it ends.\<close>

lemma observe_closes_wait:
  "observe_native_wait has_owner obs os t = (True, t') \<Longrightarrow> (os_waiting os \<longleftrightarrow> active_since t \<noteq> None) \<Longrightarrow>
   active_since t' = None"
proof (induction has_owner obs os t rule: observe_native_wait.induct)
  case (2 has_owner ob obs os t)
  show ?case
  proof (cases "has_owner \<and> \<not> ob_owner_alive ob")
    case True
    then show ?thesis using 2(2) by (auto simp: wait_end_def split: option.splits)
  next
    case alive: False
    show ?thesis
    proof (cases "observe_start ob os t")
      case None
      then have "\<not> os_waiting os" by (auto simp: observe_start_def split: if_splits)
      then show ?thesis using 2(2,3) alive None by simp
    next
      case (Some p)
      obtain os1 t1 where p: "p = (os1, t1)" by fastforce
      have s1: "os_waiting os1 \<longleftrightarrow> active_since t1 \<noteq> None"
        using Some p 2(3) by (auto simp: observe_start_def wait_begin_def split: if_splits)
      obtain os2 resumed where m: "(if os_waiting os1 then observe_marker ob os1 else (os1, False)) = (os2, resumed)"
        by fastforce
      have s2: "os_waiting os2 = os_waiting os1"
        using m by (auto simp: observe_marker_def Let_def split: if_splits option.splits)
      have ended: "active_since (wait_end n t1) = None" for n by (simp add: wait_end_def split: option.split)
      show ?thesis
        using 2(2) alive Some p m s1 s2 ended 2(1) [OF alive Some p [symmetric] refl m [symmetric]] by (auto split: if_splits)
    qed
  qed
qed simp

section \<open>The registry of live invocations\<close>

lemma active_count_published:
  "sc_active_count (sc_register i t w s sc) = active_count (sc_register i t w s sc)"
  "sc_active_count sc = active_count sc \<Longrightarrow> sc_active_count (sc_remove i sc) = active_count (sc_remove i sc)"
  "sc_active_count sc = active_count sc \<Longrightarrow> sc_active_count (publish_state i s sc) = active_count (publish_state i s sc)"
  by (auto simp: sc_register_def sc_remove_def publish_state_def active_count_def Let_def fmdom_notI
      finsert_absorb fmdomI split: option.split)

section \<open>Two invocations\<close>

lemma run_schedule_reachable:
  "run_schedule digest is sy = Some sy' \<Longrightarrow> system_reachable digest config sy \<Longrightarrow> system_reachable digest config sy'"
proof (induction "is" arbitrary: sy)
  case (Cons i "is")
  then obtain sy1 where "advance digest i sy = Some sy1" "run_schedule digest is sy1 = Some sy'"
    by (auto simp: bind_eq_Some_conv)
  then show ?case using Cons.IH Cons.prems(2) system_reachable.step system_step.progress by blast
qed simp

definition two_config :: runner_config where
  "two_config = (runner_config_default [RootDir])\<lparr>global_concurrency := 2, maximum_pending := 2\<rparr>"

definition accepted :: "invocation_id \<Rightarrow> path \<Rightarrow> system \<Rightarrow> system" where
  "accepted ident key sy =
     (case try_acquire_pending (sy_sched sy) of
        None \<Rightarrow> sy
      | Some sc \<Rightarrow>
          sy\<lparr>sy_sched := sc_register ident 0 0 Queued sc,
             sy_workers := fmupd ident \<lparr>wk_key = key, wk_at = AtPrepared\<rparr> (sy_workers sy)\<rparr>)"

lemma accepted_reachable:
  "system_reachable digest config sy \<Longrightarrow> fmlookup (sy_workers sy) ident = None \<Longrightarrow>
   system_reachable digest config (accepted ident key sy)"
  unfolding accepted_def by (auto split: option.split intro: system_reachable.step system_step.accept)

definition two_accepted :: system where
  "two_accepted = accepted 2 [RootDir, Normal ''b''] (accepted 1 [RootDir] (system_start two_config))"

lemma two_accepted_reachable: "system_reachable length two_config two_accepted"
  unfolding two_accepted_def
  by (intro accepted_reachable system_reachable.start)
    (simp_all add: accepted_def try_acquire_pending_def system_start_def scheduler_new_def two_config_def)

lemma two_execute:
  "\<exists>sy. run_schedule length [1, 2, 1, 2, 1, 2, 1, 2] two_accepted = Some sy \<and>
     fmlookup (sy_workers sy) 1 = Some \<lparr>wk_key = [RootDir], wk_at = AtExecution 0\<rparr> \<and>
     fmlookup (sy_workers sy) 2 = Some \<lparr>wk_key = [RootDir, Normal ''b''], wk_at = AtExecution 1\<rparr>"
  by (simp add: two_accepted_def accepted_def try_acquire_pending_def system_start_def scheduler_new_def
      two_config_def advance_def workspace_lock_def move_worker_def acquire_execution_def Let_def set_cell_def
      strong_def held_def fresh_cell_def sc_register_def)

section \<open>Properties\<close>

text \<open>
  C27: Two invocations that execute at the same time have different output bases, as workspace keys
  and as lock files; at most as many execute as the configured concurrency, and at most as many are
  accepted and unfinished as the configured limit. This holds in every interleaving of acceptance,
  waiting, cancellation, failure and completion, and whatever other processes lock.
\<close>

theorem executions_exclude_each_other:
  assumes "system_reachable digest config sy"
    and "fmlookup (sy_workers sy) i = Some v" and "executes (wk_at v)"
    and "fmlookup (sy_workers sy) j = Some w" and "executes (wk_at w)" and "i \<noteq> j"
  shows "wk_key v \<noteq> wk_key w \<and> digest (wk_key v) \<noteq> digest (wk_key w) \<and>
    card {i. \<exists>w. fmlookup (sy_workers sy) i = Some w \<and> executes (wk_at w)} \<le> global_concurrency config \<and>
    card {i. \<exists>w. fmlookup (sy_workers sy) i = Some w \<and> wk_at w \<noteq> AtEnd} \<le> maximum_pending config"
proof -
  have inv: "system_inv digest (global_concurrency config) (maximum_pending config) sy"
    by (rule system_reachable_inv [OF assms(1)])
  have "digest (wk_key v) \<noteq> digest (wk_key w)"
  proof
    assume same: "digest (wk_key v) = digest (wk_key w)"
    let ?P = "\<lambda>u. has_file (wk_at u) \<and> digest (wk_key u) = digest (wk_key w)"
    have "has_file (wk_at v)" "has_file (wk_at w)" using assms(3,5) by (auto elim: executes.elims)
    then have "2 \<le> count ?P sy" using count_two [of sy i v ?P j w] assms(2,4,6) same by simp
    moreover have "count ?P sy + of_bool (digest (wk_key w) |\<in>| sy_foreign sy) =
        (of_bool (digest (wk_key w) |\<in>| sy_files sy) :: nat)"
      using inv by (simp add: system_inv_def files_inv_def)
    ultimately show False by (cases "digest (wk_key w) |\<in>| sy_files sy") simp_all
  qed
  then show ?thesis
    using inv by (auto simp: system_inv_def admission_inv_def count_def workers_where_def)
qed

theorem executions_exclude_each_other_witness:
  "\<exists>sy. run_schedule length [1, 2, 1, 2, 1, 2, 1, 2] two_accepted = Some sy \<and>
     fmlookup (sy_workers sy) 1 = Some \<lparr>wk_key = [RootDir], wk_at = AtExecution 0\<rparr> \<and>
     fmlookup (sy_workers sy) 2 = Some \<lparr>wk_key = [RootDir, Normal ''b''], wk_at = AtExecution 1\<rparr> \<and>
     card {i. \<exists>w. fmlookup (sy_workers sy) i = Some w \<and> executes (wk_at w)} \<le> 2"
proof -
  obtain sy where sy: "run_schedule length [1, 2, 1, 2, 1, 2, 1, 2] two_accepted = Some sy"
    "fmlookup (sy_workers sy) 1 = Some \<lparr>wk_key = [RootDir], wk_at = AtExecution 0\<rparr>"
    "fmlookup (sy_workers sy) 2 = Some \<lparr>wk_key = [RootDir, Normal ''b''], wk_at = AtExecution 1\<rparr>"
    using two_execute by blast
  have "system_reachable length two_config sy" by (rule run_schedule_reachable [OF sy(1) two_accepted_reachable])
  from executions_exclude_each_other [OF this sy(2) _ sy(3)] show ?thesis
    using sy by (intro exI [of _ sy]) (simp add: two_config_def)
qed

text \<open>
  C28: The order of the locks cannot deadlock. While no other process holds an output base, every
  schedule of the accepted invocations is finite, it can only stop where all of them have ended,
  and one that ends exists; then every permit and every lock is free again.
\<close>

theorem accepted_invocations_drain:
  assumes "system_reachable digest config sy" and "0 < global_concurrency config" and "sy_foreign sy = {||}"
  shows "(\<exists>is sy'. run_schedule digest is sy = Some sy' \<and> (\<forall>i. advance digest i sy' = None)) \<and>
    (\<forall>is sy'. run_schedule digest is sy = Some sy' \<longrightarrow>
       length is \<le> work sy \<and>
       ((\<forall>i. advance digest i sy' = None) \<longrightarrow>
          (\<forall>i w. fmlookup (sy_workers sy') i = Some w \<longrightarrow> wk_at w = AtEnd) \<and>
          sc_global (sy_sched sy') = global_concurrency config \<and>
          sc_pending (sy_sched sy') = maximum_pending config \<and> sy_files sy' = {||}))"
proof -
  let ?g = "global_concurrency config" and ?p = "maximum_pending config"
  have inv: "system_inv digest ?g ?p sy" by (rule system_reachable_inv [OF assms(1)])
  obtain "is" sy' where "run_schedule digest is sy = Some sy'"
    "\<forall>i w. fmlookup (sy_workers sy') i = Some w \<longrightarrow> wk_at w = AtEnd"
    using drain_exists [OF inv assms(2,3)] by blast
  then have "\<exists>is sy'. run_schedule digest is sy = Some sy' \<and> (\<forall>i. advance digest i sy' = None)"
    by (intro exI [of _ "is"] exI [of _ sy']) (auto simp: advance_def split: option.split)
  moreover have "length is \<le> work sy \<and> ((\<forall>i. advance digest i sy' = None) \<longrightarrow>
      (\<forall>i w. fmlookup (sy_workers sy') i = Some w \<longrightarrow> wk_at w = AtEnd) \<and>
      sc_global (sy_sched sy') = ?g \<and> sc_pending (sy_sched sy') = ?p \<and> sy_files sy' = {||})"
    if run: "run_schedule digest is sy = Some sy'" for "is" sy'
  proof -
    note r = run_schedule_inv [OF run inv]
    have over: "wk_at w = AtEnd" if "\<forall>i. advance digest i sy' = None" "fmlookup (sy_workers sy') i = Some w" for i w
      using some_worker_advances [of digest ?g ?p sy' i w] r assms(2,3) that by auto
    then show ?thesis using all_done [of digest ?g ?p sy'] r assms(3) by auto
  qed
  ultimately show ?thesis by blast
qed

theorem accepted_invocations_drain_witness:
  "0 < global_concurrency two_config \<and>
   (\<exists>is sy'. run_schedule length is two_accepted = Some sy' \<and>
      (\<forall>i w. fmlookup (sy_workers sy') i = Some w \<longrightarrow> wk_at w = AtEnd) \<and> sc_global (sy_sched sy') = 2)"
proof -
  have c: "0 < global_concurrency two_config" "sy_foreign two_accepted = {||}"
    by (simp_all add: two_config_def two_accepted_def accepted_def system_start_def split: option.split)
  from accepted_invocations_drain [OF two_accepted_reachable this]
  obtain "is" sy' where "run_schedule length is two_accepted = Some sy'"
    "(\<forall>i w. fmlookup (sy_workers sy') i = Some w \<longrightarrow> wk_at w = AtEnd) \<and>
     sc_global (sy_sched sy') = global_concurrency two_config"
    by metis
  then show ?thesis using c(1) by (intro conjI exI [of _ "is"] exI [of _ sy']) (simp_all add: two_config_def)
qed

end
