(* ===== verification/Reducer_Diagnostics.thy ===== *)
theory Reducer_Diagnostics
  imports Domain_Types Rust_Text "HOL-Library.Product_Lexorder" "HOL-Library.Multiset"
begin

text \<open>
  Ranking, aggregation and bounding of diagnostics (\<^verbatim>\<open>bazel-mcp-reducer/src/build.rs\<close>, the part
  around \<^verbatim>\<open>finalize_diagnostics\<close>, and \<^verbatim>\<open>budget.rs\<close>). Repeated diagnostics become one with their
  number, the order is by severity, category and quality of the evidence, and the result keeps to
  a budget of items and bytes.
\<close>

section \<open>Budgets and bounded texts\<close>

record budget =
  max_bytes :: nat
  max_items :: nat

definition result_default :: budget where
  "result_default = \<lparr>max_bytes = 4 * 1024, max_items = 20\<rparr>"

definition inspect_default :: budget where
  "inspect_default = \<lparr>max_bytes = 8 * 1024, max_items = 50\<rparr>"

definition ellipsis :: string where
  "ellipsis = [CHR 0xE2, CHR 0x80, CHR 0xA6]"

definition bounded_text :: "string \<Rightarrow> nat \<Rightarrow> string" where
  "bounded_text value maximum_bytes =
     (if length value \<le> maximum_bytes then value
      else take (floor_char_boundary value maximum_bytes) value @ ellipsis)"

section \<open>Priority\<close>

text \<open>The order that \<^verbatim>\<open>Ord\<close> derives for \<^verbatim>\<open>Severity\<close>.\<close>

fun severity_rank :: "severity \<Rightarrow> nat" where
  "severity_rank Error = 0"
| "severity_rank Warning = 1"
| "severity_rank Note = 2"

instantiation severity :: linorder
begin

definition less_eq_severity :: "severity \<Rightarrow> severity \<Rightarrow> bool" where
  "less_eq_severity a b \<longleftrightarrow> severity_rank a \<le> severity_rank b"

definition less_severity :: "severity \<Rightarrow> severity \<Rightarrow> bool" where
  "less_severity a b \<longleftrightarrow> severity_rank a < severity_rank b"

instance
proof
  fix x y :: severity
  show "x \<le> y \<Longrightarrow> y \<le> x \<Longrightarrow> x = y"
    by (cases x; cases y) (simp_all add: less_eq_severity_def)
qed (auto simp: less_eq_severity_def less_severity_def)

end

definition text_contains :: "string \<Rightarrow> string \<Rightarrow> bool" where
  "text_contains value needle \<longleftrightarrow>
     needle = [] \<or>
     list_ex (\<lambda>i. eq_ignore_ascii_case (take (length needle) (drop i value)) needle)
       [0..<length value + 1 - length needle]"

definition text_starts_with :: "string \<Rightarrow> string \<Rightarrow> bool" where
  "text_starts_with value p \<longleftrightarrow>
     length p \<le> length value \<and> eq_ignore_ascii_case (take (length p) value) p"

fun category_rank :: "diagnostic_category \<Rightarrow> nat" where
  "category_rank Loading = 0"
| "category_rank Visibility = 0"
| "category_rank Analysis = 0"
| "category_rank Compilation = 0"
| "category_rank TestCategory = 1"
| "category_rank Workspace = 2"
| "category_rank Bazel = 3"
| "category_rank UnknownCategory = 4"
| "category_rank Action = 5"

definition evidence_quality :: "diagnostic \<Rightarrow> nat" where
  "evidence_quality d =
     (let message = diag_message d;
          rust_failure = text_contains message ''panicked at'' \<or>
            text_contains message ''assertion'' \<and> text_contains message '' failed''
      in if diag_location d \<noteq> None \<or>
            text_contains message ''root_cause'' \<and> \<not> text_contains message ''error executing''
         then 0
         else if diag_category d = TestCategory \<and> rust_failure then 1
         else if text_starts_with message ''test failed:'' \<or> text_starts_with message ''test timed out:'' \<or>
                 text_starts_with message ''test was incomplete:'' \<or>
                 text_starts_with message ''test result was unavailable:''
         then 3
         else if text_contains message ''error executing'' then 2
         else 1)"

definition diagnostic_priority :: "diagnostic \<Rightarrow> severity \<times> nat \<times> nat" where
  "diagnostic_priority d = (diag_severity d, category_rank (diag_category d), evidence_quality d)"

section \<open>Aggregation\<close>

type_synonym diagnostic_identity =
  "severity \<times> diagnostic_category \<times> string \<times> (string \<times> nat option \<times> nat option) option \<times>
   string option \<times> string option"

text \<open>The target is not part of the key of a failed action.\<close>

definition diagnostic_key :: "diagnostic \<Rightarrow> diagnostic_identity" where
  "diagnostic_key d =
     (diag_severity d, diag_category d, diag_message d,
      map_option (\<lambda>l. (loc_path l, loc_line l, loc_column l)) (diag_location d),
      if diag_category d = Action then None else diag_target d,
      diag_action d)"

definition sat_add_u32 :: "nat \<Rightarrow> nat \<Rightarrow> nat" where
  "sat_add_u32 a b = min (a + b) u32_max"

record dedup_state =
  dd_positions :: "diagnostic_identity \<rightharpoonup> nat"
  dd_counts :: "nat list"
  dd_retained :: "bool list"
  dd_clear :: "bool list"

definition dedup_start :: "nat \<Rightarrow> dedup_state" where
  "dedup_start n =
     \<lparr>dd_positions = Map.empty, dd_counts = replicate n 0, dd_retained = replicate n False,
      dd_clear = replicate n False\<rparr>"

definition dedup_step :: "diagnostic list \<Rightarrow> dedup_state \<Rightarrow> nat \<Rightarrow> dedup_state" where
  "dedup_step ds st i =
     (let d = ds ! i; key = diagnostic_key d
      in case dd_positions st key of
           Some j \<Rightarrow>
             st\<lparr>dd_clear := (if diag_category d = Action \<and> diag_target (ds ! j) \<noteq> diag_target d
                             then (dd_clear st)[j := True] else dd_clear st),
                dd_counts := (dd_counts st)[j := sat_add_u32 (dd_counts st ! j) (repetition_count d)]\<rparr>
         | None \<Rightarrow>
             st\<lparr>dd_positions := (dd_positions st)(key \<mapsto> i),
                dd_counts := (dd_counts st)[i := repetition_count d],
                dd_retained := (dd_retained st)[i := True]\<rparr>)"

definition retain_merged :: "dedup_state \<Rightarrow> diagnostic list \<Rightarrow> diagnostic list" where
  "retain_merged st ds =
     map (\<lambda>i. (ds ! i)\<lparr>repetition_count := dd_counts st ! i,
                       diag_target := (if dd_clear st ! i then None else diag_target (ds ! i))\<rparr>)
       (filter (\<lambda>i. dd_retained st ! i) [0..<length ds])"

definition deduplicate_diagnostics :: "diagnostic list \<Rightarrow> diagnostic list" where
  "deduplicate_diagnostics ds =
     retain_merged (foldl (dedup_step ds) (dedup_start (length ds)) [0..<length ds]) ds"

section \<open>The final list\<close>

text \<open>The loop of \<^verbatim>\<open>retain\<close>: the bytes used so far, and whether one was left out.\<close>

fun retain_within :: "nat \<Rightarrow> nat \<Rightarrow> diagnostic list \<Rightarrow> diagnostic list \<times> bool" where
  "retain_within limit used [] = ([], False)"
| "retain_within limit used (d # ds) =
     (let next_used = sat_add used (length (diag_message d))
      in if limit < next_used then (fst (retain_within limit used ds), True)
         else (let (kept, left_out) = retain_within limit next_used ds in (d # kept, left_out)))"

definition finalize_diagnostics :: "budget \<Rightarrow> invocation_summary \<Rightarrow> invocation_summary" where
  "finalize_diagnostics b s =
     (let ranked = sort_key diagnostic_priority (deduplicate_diagnostics (sum_diagnostics s));
          (kept, left_out) = retain_within (max_bytes b) 0 (take (max_items b) ranked);
          truncated = (sum_truncated s \<or> max_items b < length ranked \<or> left_out)
      in s\<lparr>sum_diagnostics := kept, sum_truncated := truncated,
           sum_inspect_hint := (if truncated then Some HintDiagnostics else sum_inspect_hint s),
           sum_headline := (case kept of
              first # _ \<Rightarrow> if sum_success s then sum_headline s
                          else ''Bazel failed: '' @ diag_message first
            | [] \<Rightarrow> sum_headline s)\<rparr>)"

section \<open>What aggregation does\<close>

definition first_with :: "diagnostic list \<Rightarrow> nat \<Rightarrow> diagnostic_identity \<Rightarrow> nat option" where
  "first_with ds n k = find (\<lambda>j. diagnostic_key (ds ! j) = k) [0..<n]"

definition repetitions :: "diagnostic list \<Rightarrow> nat \<Rightarrow> diagnostic_identity \<Rightarrow> nat" where
  "repetitions ds n k =
     sum_list (map (\<lambda>j. repetition_count (ds ! j)) (filter (\<lambda>j. diagnostic_key (ds ! j) = k) [0..<n]))"

lemma find_snoc:
  "find P (xs @ [x]) = (case find P xs of Some y \<Rightarrow> Some y | None \<Rightarrow> if P x then Some x else None)"
  by (induction xs) auto

lemma first_with_0 [simp]: "first_with ds 0 k = None"
  by (simp add: first_with_def)

lemma first_with_Suc:
  "first_with ds (Suc n) k =
     (case first_with ds n k of
        Some j \<Rightarrow> Some j | None \<Rightarrow> if diagnostic_key (ds ! n) = k then Some n else None)"
  by (simp add: first_with_def find_snoc)

lemma repetitions_Suc:
  "repetitions ds 0 k = 0"
  "repetitions ds (Suc n) k =
     repetitions ds n k + (if diagnostic_key (ds ! n) = k then repetition_count (ds ! n) else 0)"
  by (simp_all add: repetitions_def)

lemma first_with_Some: "first_with ds n k = Some j \<Longrightarrow> j < n \<and> diagnostic_key (ds ! j) = k"
  by (induction n) (auto simp: first_with_Suc split: option.splits if_splits)

lemma first_with_None: "first_with ds n k = None \<longleftrightarrow> (\<forall>j < n. diagnostic_key (ds ! j) \<noteq> k)"
  by (induction n) (auto simp: first_with_Suc less_Suc_eq split: option.splits)

lemma repetitions_none: "first_with ds n k = None \<Longrightarrow> repetitions ds n k = 0"
  by (induction n) (auto simp: first_with_Suc repetitions_Suc split: option.splits if_splits)

definition dedup_inv :: "diagnostic list \<Rightarrow> nat \<Rightarrow> dedup_state \<Rightarrow> bool" where
  "dedup_inv ds n st \<longleftrightarrow>
     length (dd_counts st) = length ds \<and> length (dd_retained st) = length ds \<and>
     length (dd_clear st) = length ds \<and> dd_positions st = first_with ds n \<and>
     (\<forall>i < length ds. dd_retained st ! i \<longleftrightarrow> first_with ds n (diagnostic_key (ds ! i)) = Some i) \<and>
     (\<forall>i < length ds. first_with ds n (diagnostic_key (ds ! i)) = Some i \<longrightarrow>
        dd_counts st ! i = min (repetitions ds n (diagnostic_key (ds ! i))) u32_max) \<and>
     (\<forall>i < length ds. dd_clear st ! i \<longleftrightarrow>
        first_with ds n (diagnostic_key (ds ! i)) = Some i \<and> diag_category (ds ! i) = Action \<and>
        (\<exists>j < n. diagnostic_key (ds ! j) = diagnostic_key (ds ! i) \<and>
                 diag_target (ds ! j) \<noteq> diag_target (ds ! i)))"

lemma key_category: "diagnostic_key d = diagnostic_key e \<Longrightarrow> diag_category d = diag_category e"
  by (simp add: diagnostic_key_def)

lemma dedup_invD:
  assumes "dedup_inv ds n st"
  shows "length (dd_counts st) = length ds" and "length (dd_retained st) = length ds"
    and "length (dd_clear st) = length ds" and "dd_positions st = first_with ds n"
    and "i < length ds \<Longrightarrow> dd_retained st ! i \<longleftrightarrow> first_with ds n (diagnostic_key (ds ! i)) = Some i"
    and "i < length ds \<Longrightarrow> first_with ds n (diagnostic_key (ds ! i)) = Some i \<Longrightarrow>
      dd_counts st ! i = min (repetitions ds n (diagnostic_key (ds ! i))) u32_max"
    and "i < length ds \<Longrightarrow> dd_clear st ! i \<longleftrightarrow>
      first_with ds n (diagnostic_key (ds ! i)) = Some i \<and> diag_category (ds ! i) = Action \<and>
      (\<exists>j < n. diagnostic_key (ds ! j) = diagnostic_key (ds ! i) \<and>
        diag_target (ds ! j) \<noteq> diag_target (ds ! i))"
  using assms by (simp_all add: dedup_inv_def)

lemma dedup_inv_new:
  assumes inv: "dedup_inv ds n st" and n: "n < length ds"
    and u32: "repetition_count (ds ! n) \<le> u32_max"
    and new: "first_with ds n (diagnostic_key (ds ! n)) = None"
  shows "dedup_inv ds (Suc n) (dedup_step ds st n)"
proof -
  let ?k = "diagnostic_key (ds ! n)"
  note d = dedup_invD [OF inv]
  have step: "dedup_step ds st n =
      st\<lparr>dd_positions := (first_with ds n)(?k \<mapsto> n),
         dd_counts := (dd_counts st)[n := repetition_count (ds ! n)],
         dd_retained := (dd_retained st)[n := True]\<rparr>"
    using new d(4) by (simp add: dedup_step_def Let_def)
  have first: "first_with ds (Suc n) k = (if k = ?k then Some n else first_with ds n k)" for k
    using new by (auto simp: first_with_Suc split: option.split)
  have reps: "repetitions ds (Suc n) k = (if k = ?k then repetition_count (ds ! n) else repetitions ds n k)" for k
    using repetitions_none [OF new] by (simp add: repetitions_Suc)
  have other: "diagnostic_key (ds ! j) \<noteq> ?k" if "j < n" for j
    using new that by (simp add: first_with_None)
  have self: "i < n" if "first_with ds n (diagnostic_key (ds ! i)) = Some i" for i
    using first_with_Some that by blast
  have "dd_retained (dedup_step ds st n) ! i \<longleftrightarrow> first_with ds (Suc n) (diagnostic_key (ds ! i)) = Some i"
    if "i < length ds" for i
    using that n d(2) d(5) [OF that] self [of i] other [of i] by (auto simp: step first nth_list_update)
  moreover have "dd_counts (dedup_step ds st n) ! i = min (repetitions ds (Suc n) (diagnostic_key (ds ! i))) u32_max"
    if i: "i < length ds" "first_with ds (Suc n) (diagnostic_key (ds ! i)) = Some i" for i
  proof (cases "diagnostic_key (ds ! i) = ?k")
    case True
    then have "i = n" using i(2) by (simp add: first)
    then show ?thesis using n d(1) u32 by (simp add: step reps)
  next
    case False
    then have "i \<noteq> n" "first_with ds n (diagnostic_key (ds ! i)) = Some i" using i(2) by (auto simp: first)
    then show ?thesis using False d(6) [OF i(1)] by (simp add: step reps)
  qed
  moreover have "dd_clear (dedup_step ds st n) ! i \<longleftrightarrow>
      first_with ds (Suc n) (diagnostic_key (ds ! i)) = Some i \<and> diag_category (ds ! i) = Action \<and>
      (\<exists>j < Suc n. diagnostic_key (ds ! j) = diagnostic_key (ds ! i) \<and>
        diag_target (ds ! j) \<noteq> diag_target (ds ! i))"
    if "i < length ds" for i
  proof (cases "diagnostic_key (ds ! i) = ?k")
    case True
    have none: "first_with ds n (diagnostic_key (ds ! i)) = None" unfolding True by (rule new)
    have "\<not> dd_clear (dedup_step ds st n) ! i" using d(7) [OF that] unfolding step none by simp
    moreover have "j = i" if "i = n" "j < Suc n" "diagnostic_key (ds ! j) = diagnostic_key (ds ! i)" for j
      using other [of j] that by (metis less_SucE)
    moreover have "first_with ds (Suc n) (diagnostic_key (ds ! i)) = Some i \<longleftrightarrow> i = n"
      unfolding first True by auto
    ultimately show ?thesis by blast
  next
    case False
    then show ?thesis using d(7) [OF that] by (simp add: step first) (auto simp: less_Suc_eq)
  qed
  moreover have "dd_positions (dedup_step ds st n) = first_with ds (Suc n)"
    by (simp add: step first fun_eq_iff)
  ultimately show ?thesis using d(1-3) unfolding dedup_inv_def by (simp add: step)
qed

lemma dedup_inv_again:
  assumes inv: "dedup_inv ds n st" and n: "n < length ds"
    and again: "first_with ds n (diagnostic_key (ds ! n)) = Some j"
  shows "dedup_inv ds (Suc n) (dedup_step ds st n)"
proof -
  let ?k = "diagnostic_key (ds ! n)"
  note d = dedup_invD [OF inv]
  have j: "j < n" "diagnostic_key (ds ! j) = ?k" using first_with_Some [OF again] by auto
  have step: "dedup_step ds st n =
      st\<lparr>dd_clear := (if diag_category (ds ! n) = Action \<and> diag_target (ds ! j) \<noteq> diag_target (ds ! n)
                      then (dd_clear st)[j := True] else dd_clear st),
         dd_counts := (dd_counts st)[j := sat_add_u32 (dd_counts st ! j) (repetition_count (ds ! n))]\<rparr>"
    using again d(4) by (simp add: dedup_step_def Let_def)
  have first: "first_with ds (Suc n) = first_with ds n"
    using again by (auto simp: fun_eq_iff first_with_Suc split: option.split)
  have only: "i = j" if "first_with ds n (diagnostic_key (ds ! i)) = Some i" "diagnostic_key (ds ! i) = ?k" for i
    using that again by simp
  have "dd_counts (dedup_step ds st n) ! i = min (repetitions ds (Suc n) (diagnostic_key (ds ! i))) u32_max"
    if i: "i < length ds" "first_with ds n (diagnostic_key (ds ! i)) = Some i" for i
  proof (cases "diagnostic_key (ds ! i) = ?k")
    case True
    have "i = j" by (rule only [OF i(2) True])
    moreover have "repetitions ds (Suc n) (diagnostic_key (ds ! i)) =
        repetitions ds n (diagnostic_key (ds ! i)) + repetition_count (ds ! n)"
      using True by (simp add: repetitions_Suc)
    ultimately show ?thesis
      using d(1) d(6) [OF i] i(1) by (simp add: step sat_add_u32_def min_def)
  next
    case False
    then have "i \<noteq> j" using j by auto
    then show ?thesis using False d(6) [OF i] by (simp add: step repetitions_Suc)
  qed
  moreover have "dd_clear (dedup_step ds st n) ! i \<longleftrightarrow>
      first_with ds n (diagnostic_key (ds ! i)) = Some i \<and> diag_category (ds ! i) = Action \<and>
      (\<exists>j < Suc n. diagnostic_key (ds ! j) = diagnostic_key (ds ! i) \<and>
        diag_target (ds ! j) \<noteq> diag_target (ds ! i))"
    if i: "i < length ds" for i
  proof -
    let ?Q = "\<lambda>m. diagnostic_key (ds ! m) = diagnostic_key (ds ! i) \<and> diag_target (ds ! m) \<noteq> diag_target (ds ! i)"
    have ex: "(\<exists>m < Suc n. ?Q m) \<longleftrightarrow> (\<exists>m < n. ?Q m) \<or> ?Q n" by (auto simp only: less_Suc_eq)
    show ?thesis
    proof (cases "i = j")
      case True
      have "first_with ds n (diagnostic_key (ds ! i)) = Some i" unfolding True j(2) by (rule again)
      moreover have "?Q n \<longleftrightarrow> diag_target (ds ! j) \<noteq> diag_target (ds ! n)" unfolding True using j(2) by auto
      moreover have "dd_clear (dedup_step ds st n) ! i \<longleftrightarrow>
          diag_category (ds ! n) = Action \<and> diag_target (ds ! j) \<noteq> diag_target (ds ! n) \<or> dd_clear st ! i"
        using i d(3) unfolding True by (auto simp: step)
      ultimately show ?thesis using d(7) [OF i] key_category [OF j(2)] ex unfolding True by argo
    next
      case False
      then have "\<not> ?Q n" if "first_with ds n (diagnostic_key (ds ! i)) = Some i"
        using again that by auto
      moreover have "dd_clear (dedup_step ds st n) ! i = dd_clear st ! i" using False by (simp add: step)
      ultimately show ?thesis using d(7) [OF i] unfolding ex by blast
    qed
  qed
  ultimately show ?thesis using d(1-5) unfolding dedup_inv_def by (simp add: step first)
qed

lemma dedup_inv_fold:
  assumes "\<And>d. d \<in> set ds \<Longrightarrow> repetition_count d \<le> u32_max" and "n \<le> length ds"
  shows "dedup_inv ds n (foldl (dedup_step ds) (dedup_start (length ds)) [0..<n])"
  using assms(2)
proof (induction n)
  case 0
  show ?case by (simp add: dedup_inv_def dedup_start_def fun_eq_iff)
next
  case (Suc n)
  let ?st = "foldl (dedup_step ds) (dedup_start (length ds)) [0..<n]"
  have inv: "dedup_inv ds n ?st" using Suc by simp
  have "dedup_inv ds (Suc n) (dedup_step ds ?st n)"
    using dedup_inv_new [OF inv] dedup_inv_again [OF inv] assms(1) Suc.prems
    by (cases "first_with ds n (diagnostic_key (ds ! n))") auto
  then show ?case by simp
qed

text \<open>The keys of a list, each once, in the order in which they first occur.\<close>

definition first_keys :: "diagnostic list \<Rightarrow> diagnostic_identity list" where
  "first_keys ds = rev (remdups (rev (map diagnostic_key ds)))"

lemma first_indices_keys:
  assumes "n \<le> length ds"
  shows "map (\<lambda>i. diagnostic_key (ds ! i)) (filter (\<lambda>i. first_with ds n (diagnostic_key (ds ! i)) = Some i) [0..<n])
    = first_keys (take n ds)"
  using assms
proof (induction n)
  case (Suc n)
  let ?k = "diagnostic_key (ds ! n)"
  have "first_with ds (Suc n) (diagnostic_key (ds ! i)) = Some i \<longleftrightarrow>
      first_with ds n (diagnostic_key (ds ! i)) = Some i" if "i < n" for i
  proof -
    have "first_with ds n (diagnostic_key (ds ! i)) \<noteq> None" using that by (auto simp: first_with_None)
    then show ?thesis by (auto simp: first_with_Suc)
  qed
  then have same: "filter (\<lambda>i. first_with ds (Suc n) (diagnostic_key (ds ! i)) = Some i) [0..<n] =
      filter (\<lambda>i. first_with ds n (diagnostic_key (ds ! i)) = Some i) [0..<n]"
    by (intro filter_cong) auto
  have "first_with ds (Suc n) ?k = Some n \<longleftrightarrow> first_with ds n ?k = None"
    using first_with_Some [of ds n ?k n] by (auto simp: first_with_Suc split: option.splits)
  moreover have "set (take n ds) = nth ds ` {0..<n}" using nth_image [of n ds] Suc.prems by simp
  then have "first_with ds n ?k = None \<longleftrightarrow> ?k \<notin> diagnostic_key ` set (take n ds)"
    by (auto simp: first_with_None) (metis atLeastLessThan_iff image_eqI zero_le)
  ultimately show ?case
    using Suc same by (simp add: first_keys_def take_Suc_conv_app_nth)
qed (simp add: first_keys_def)

lemma repetitions_eq:
  assumes "n \<le> length ds"
  shows "repetitions ds n k = sum_list (map repetition_count (filter (\<lambda>d. diagnostic_key d = k) (take n ds)))"
  using assms
  by (induction n) (auto simp: repetitions_Suc take_Suc_conv_app_nth)

lemma merged_key:
  "(clear \<Longrightarrow> diag_category d = Action) \<Longrightarrow>
     diagnostic_key (d\<lparr>repetition_count := k, diag_target := if clear then None else diag_target d\<rparr>) =
     diagnostic_key d"
  by (simp add: diagnostic_key_def)

lemma dedup_members:
  assumes u32: "\<And>d. d \<in> set ds \<Longrightarrow> repetition_count d \<le> u32_max"
  shows "map diagnostic_key (deduplicate_diagnostics ds) = first_keys ds"
    and "d \<in> set (deduplicate_diagnostics ds) \<Longrightarrow>
      repetition_count d =
        min (sum_list (map repetition_count (filter (\<lambda>e. diagnostic_key e = diagnostic_key d) ds))) u32_max"
proof -
  let ?n = "length ds"
  let ?st = "foldl (dedup_step ds) (dedup_start ?n) [0..<?n]"
  have "dedup_inv ds ?n ?st" by (rule dedup_inv_fold [OF u32]) simp_all
  note inv = dedup_invD [OF this]
  have ret: "filter (\<lambda>i. dd_retained ?st ! i) [0..<?n] =
      filter (\<lambda>i. first_with ds ?n (diagnostic_key (ds ! i)) = Some i) [0..<?n]"
    using inv(5) by (intro filter_cong) auto
  have key: "diagnostic_key ((ds ! i)\<lparr>repetition_count := dd_counts ?st ! i,
      diag_target := (if dd_clear ?st ! i then None else diag_target (ds ! i))\<rparr>) = diagnostic_key (ds ! i)"
    if "i < ?n" for i
    by (rule merged_key) (use inv(7) [OF that] in blast)
  show "map diagnostic_key (deduplicate_diagnostics ds) = first_keys ds"
  proof -
    have "map diagnostic_key (deduplicate_diagnostics ds) = map (\<lambda>i. diagnostic_key (ds ! i))
        (filter (\<lambda>i. first_with ds ?n (diagnostic_key (ds ! i)) = Some i) [0..<?n])"
      unfolding deduplicate_diagnostics_def retain_merged_def ret map_map comp_def
      by (intro map_cong refl key) simp
    then show ?thesis using first_indices_keys [of ?n ds] by simp
  qed
  assume "d \<in> set (deduplicate_diagnostics ds)"
  then obtain i where i: "i < ?n" "first_with ds ?n (diagnostic_key (ds ! i)) = Some i"
    and d: "d = (ds ! i)\<lparr>repetition_count := dd_counts ?st ! i,
      diag_target := (if dd_clear ?st ! i then None else diag_target (ds ! i))\<rparr>"
    by (auto simp: deduplicate_diagnostics_def retain_merged_def ret)
  have "diagnostic_key d = diagnostic_key (ds ! i)" unfolding d by (rule key [OF i(1)])
  then show "repetition_count d =
        min (sum_list (map repetition_count (filter (\<lambda>e. diagnostic_key e = diagnostic_key d) ds))) u32_max"
    using inv(6) [OF i] repetitions_eq [of ?n ds] unfolding d by simp
qed

section \<open>What the final list holds\<close>

lemma retain_within_sub: "set (fst (retain_within limit used ds)) \<subseteq> set ds"
  by (induction limit used ds rule: retain_within.induct) (auto simp: Let_def split: prod.splits)

lemma retain_within_length: "length (fst (retain_within limit used ds)) \<le> length ds"
  by (induction limit used ds rule: retain_within.induct) (auto simp: Let_def split: prod.splits)

lemma retain_within_all: "\<not> snd (retain_within limit used ds) \<Longrightarrow> fst (retain_within limit used ds) = ds"
  by (induction limit used ds rule: retain_within.induct) (auto simp: Let_def split: prod.splits if_splits)

lemma retain_within_sorted:
  "sorted (map f ds) \<Longrightarrow> sorted (map f (fst (retain_within limit used ds)))"
proof (induction limit used ds rule: retain_within.induct)
  case (2 limit used d ds)
  then show ?case
    using retain_within_sub [of limit "sat_add used (length (diag_message d))" ds]
    by (auto simp: Let_def split: prod.splits)
qed simp

lemma retain_within_distinct:
  "distinct (map f ds) \<Longrightarrow> distinct (map f (fst (retain_within limit used ds)))"
proof (induction limit used ds rule: retain_within.induct)
  case (2 limit used d ds)
  then show ?case
    using retain_within_sub [of limit "sat_add used (length (diag_message d))" ds]
    by (auto simp: Let_def split: prod.splits)
qed simp

text \<open>The bytes of the messages; the account saturates, so the bound has to be below its maximum.\<close>

definition message_bytes :: "diagnostic list \<Rightarrow> nat" where
  "message_bytes ds = sum_list (map (\<lambda>d. length (diag_message d)) ds)"

lemma retain_within_bytes:
  assumes "limit < u64_max" and "used \<le> limit"
  shows "used + message_bytes (fst (retain_within limit used ds)) \<le> limit"
  using assms
proof (induction limit used ds rule: retain_within.induct)
  case (2 limit used d ds)
  show ?case
  proof (cases "limit < sat_add used (length (diag_message d))")
    case True
    then show ?thesis using 2 by (simp add: Let_def)
  next
    case False
    then have sum: "sat_add used (length (diag_message d)) = used + length (diag_message d)"
      using 2(3) by (auto simp: sat_add_def)
    then have "used + length (diag_message d) \<le> limit" using False by simp
    then have "used + length (diag_message d) +
        message_bytes (fst (retain_within limit (used + length (diag_message d)) ds)) \<le> limit"
      using 2(2) False 2(3) sum by simp
    then show ?thesis
      using False sum by (simp add: Let_def message_bytes_def case_prod_beta)
  qed
qed (simp add: message_bytes_def)

text \<open>
  C36: The list of diagnostics that a result shows keeps to its budget of items and bytes, is in the
  order of priority, and has each kind of diagnostic at most once. Unless the summary says that it
  is truncated, it has every kind of diagnostic that was collected, with the total number of its
  repetitions; a truncated summary points to the diagnostics. The headline of a failure is the
  first of them.
\<close>

theorem finalize_diagnostics_spec:
  assumes u32: "\<forall>d \<in> set (sum_diagnostics s). repetition_count d \<le> u32_max"
    and b: "max_bytes b < u64_max"
  shows "let ds = sum_diagnostics s; s' = finalize_diagnostics b s; ds' = sum_diagnostics s' in
    length ds' \<le> max_items b \<and> message_bytes ds' \<le> max_bytes b \<and>
    sorted (map diagnostic_priority ds') \<and> distinct (map diagnostic_key ds') \<and>
    diagnostic_key ` set ds' \<subseteq> diagnostic_key ` set ds \<and>
    (\<forall>d \<in> set ds'. repetition_count d =
       min (sum_list (map repetition_count (filter (\<lambda>e. diagnostic_key e = diagnostic_key d) ds))) u32_max) \<and>
    (\<not> sum_truncated s' \<longrightarrow> diagnostic_key ` set ds' = diagnostic_key ` set ds) \<and>
    (sum_truncated s' \<longrightarrow> sum_inspect_hint s' = Some HintDiagnostics) \<and>
    (\<not> sum_success s \<longrightarrow> ds' \<noteq> [] \<longrightarrow>
       sum_headline s' = ''Bazel failed: '' @ diag_message (hd ds'))"
proof -
  let ?s = "finalize_diagnostics b s"
  let ?dd = "deduplicate_diagnostics (sum_diagnostics s)"
  let ?ranked = "sort_key diagnostic_priority ?dd"
  let ?top = "take (max_items b) ?ranked"
  let ?kept = "fst (retain_within (max_bytes b) 0 ?top)"
  note dd = dedup_members [of "sum_diagnostics s"]
  have kept: "sum_diagnostics ?s = ?kept" by (simp add: finalize_diagnostics_def Let_def case_prod_beta)
  have trunc: "sum_truncated ?s \<longleftrightarrow> sum_truncated s \<or> max_items b < length ?ranked \<or>
      snd (retain_within (max_bytes b) 0 ?top)"
    by (simp add: finalize_diagnostics_def Let_def case_prod_beta)
  have sub: "set ?kept \<subseteq> set ?dd"
    using retain_within_sub [of "max_bytes b" 0 ?top] set_take_subset [of "max_items b" ?ranked] by auto
  have keys: "diagnostic_key ` set ?dd = diagnostic_key ` set (sum_diagnostics s)"
    using arg_cong [OF dd(1), of set] u32 by (simp add: first_keys_def)
  have "distinct (map diagnostic_key ?dd)" using dd(1) u32 by (simp add: first_keys_def)
  moreover have "mset (map diagnostic_key ?ranked) = mset (map diagnostic_key ?dd)" by simp
  ultimately have "distinct (map diagnostic_key ?ranked)" by (metis mset_eq_imp_distinct_iff)
  then have distinct: "distinct (map diagnostic_key ?kept)"
    by (intro retain_within_distinct) (simp add: distinct_take flip: take_map)
  have sorted: "sorted (map diagnostic_priority ?kept)"
    by (intro retain_within_sorted) (simp add: sorted_wrt_take flip: take_map)
  have all: "?kept = ?ranked" if "\<not> sum_truncated ?s"
  proof -
    have fits: "length ?ranked \<le> max_items b" "\<not> snd (retain_within (max_bytes b) 0 ?top)"
      using that unfolding trunc by (blast intro: leI)+
    have "?kept = ?top" by (rule retain_within_all [OF fits(2)])
    then show ?thesis using take_all [OF fits(1)] by simp
  qed
  have "length ?kept \<le> max_items b" using retain_within_length [of "max_bytes b" 0 ?top] by simp
  moreover have "message_bytes ?kept \<le> max_bytes b" using retain_within_bytes [OF b, of 0 ?top] by simp
  moreover have "diagnostic_key ` set ?kept \<subseteq> diagnostic_key ` set (sum_diagnostics s)"
    using sub keys by blast
  moreover have "repetition_count d = min (sum_list (map repetition_count
      (filter (\<lambda>e. diagnostic_key e = diagnostic_key d) (sum_diagnostics s)))) u32_max" if "d \<in> set ?kept" for d
    using dd(2) [of d] u32 sub that by blast
  moreover have "diagnostic_key ` set ?kept = diagnostic_key ` set (sum_diagnostics s)" if "\<not> sum_truncated ?s"
    using all [OF that] keys by simp
  moreover have "sum_inspect_hint ?s = Some HintDiagnostics" if "sum_truncated ?s"
    using that by (simp add: finalize_diagnostics_def Let_def case_prod_beta)
  moreover have "sum_headline ?s = ''Bazel failed: '' @ diag_message (hd ?kept)"
    if "\<not> sum_success s" "?kept \<noteq> []"
    using that by (simp add: finalize_diagnostics_def Let_def case_prod_beta split: list.split)
  ultimately show ?thesis using distinct sorted unfolding Let_def kept by blast
qed

definition sample_diagnostic :: "diagnostic_category \<Rightarrow> string \<Rightarrow> string option \<Rightarrow> diagnostic" where
  "sample_diagnostic category message target =
     \<lparr>diag_severity = Error, diag_category = category, diag_message = message, diag_location = None,
      diag_target = target, diag_action = None, repetition_count = 1\<rparr>"

definition sample_summary :: invocation_summary where
  "sample_summary =
     \<lparr>sum_success = False, sum_headline = [], sum_targets = [],
      sum_target_counts = \<lparr>tgt_requested = 0, tgt_succeeded = 0, tgt_failed = 0\<rparr>,
      sum_diagnostics =
        [sample_diagnostic Action ''CC failed'' (Some ''//a''), sample_diagnostic Loading ''no such target'' None,
         sample_diagnostic Action ''CC failed'' (Some ''//b'')],
      sum_tests = [],
      sum_test_counts = \<lparr>tc_passed = 0, tc_failed = 0, tc_flaky = 0, tc_skipped = 0, tc_incomplete = 0\<rparr>,
      sum_coverage = None, sum_query_sample = [], sum_query_result_count = None, sum_elapsed_ms = 0,
      sum_truncated = False, sum_inspect_hint = None\<rparr>"

lemma sample_counts: "\<forall>d \<in> set (sum_diagnostics sample_summary). repetition_count d \<le> u32_max"
  by (simp add: sample_summary_def sample_diagnostic_def u32_max_def)

theorem finalize_diagnostics_spec_witness:
  "length (sum_diagnostics (finalize_diagnostics result_default sample_summary)) \<le> 20 \<and>
   distinct (map diagnostic_key (sum_diagnostics (finalize_diagnostics result_default sample_summary)))"
proof -
  have "max_bytes result_default < u64_max" "max_items result_default = 20"
    by (simp_all add: result_default_def u64_max_def)
  then show ?thesis
    using finalize_diagnostics_spec [OF sample_counts, of result_default] by (simp only: Let_def)
qed

end
