(* ===== verification/Reducer_Build.thy ===== *)
theory Reducer_Build
  imports Reducer_Diagnostics "HOL-Library.Finite_Map" "HOL-Library.List_Lexorder" "HOL-Library.Char_ord"
begin

text \<open>
  Reduction of build events (\<^verbatim>\<open>bazel-mcp-reducer/src/build.rs\<close>). The reference reducers read a list of
  all events (\<^verbatim>\<open>reduce_invocation\<close>, \<^verbatim>\<open>reduce_artifacts\<close>, \<^verbatim>\<open>extract_canonical_arguments\<close>); the accumulator
  sees one event at a time and keeps a bounded extract. What the protocol buffer decoder makes of
  an event is a value of \<^verbatim>\<open>build_event\<close>, and the diagnostics that the console output gives are a
  parameter. Texts are ordered by their bytes.
\<close>

section \<open>Events\<close>

datatype file_content = FileUri string | SymlinkTargetPath string | FileContents

record file_view =
  fv_name :: string
  fv_path_prefix :: "string list"
  fv_file :: "file_content option"
  fv_length :: int

datatype event_id =
    TargetCompletedId string
  | ActionCompletedId string
  | TestSummaryId string
  | TestResultId string
  | UnconfiguredLabelId string
  | ConfiguredLabelId string
  | NamedSetId string
  | OtherId

record action_view =
  av_success :: bool
  av_type :: string
  av_exit_code :: int
  av_label :: string
  av_primary_output :: "file_view option"

record output_group =
  og_file_sets :: "string list"
  og_inline_files :: "file_view list"

record completed_view =
  cv_success :: bool
  cv_target_kind :: string
  cv_output_group :: "output_group list"
  cv_important_output :: "file_view list"
  cv_directory_output :: "file_view list"

record test_summary_view =
  tv_overall_status :: int
  tv_total_run_duration_millis :: int
  tv_attempt_count :: int
  tv_shard_count :: int

datatype payload =
    AbortedPayload int string
  | ActionPayload action_view
  | CompletedPayload completed_view
  | TestSummaryPayload test_summary_view
  | TestResultPayload int "file_view list"
  | NamedSetPayload "file_view list" "string list"
  | OptionsParsedPayload "string list" "string list"
  | FinishedPayload bool
  | ExecRequestPayload bool
  | OtherPayload

text \<open>The identifier is missing where it could not be decoded.\<close>

record build_event =
  be_id :: "event_id option"
  be_payload :: "payload option"

section \<open>Parts of events\<close>

definition nonempty :: "string \<Rightarrow> string option" where
  "nonempty value = (if value = [] then None else Some value)"

definition label_from_id :: "event_id option \<Rightarrow> string option" where
  "label_from_id ident =
     (case ident of
        Some (TargetCompletedId label) \<Rightarrow> nonempty label
      | Some (ActionCompletedId label) \<Rightarrow> nonempty label
      | Some (TestSummaryId label) \<Rightarrow> nonempty label
      | Some (TestResultId label) \<Rightarrow> nonempty label
      | Some (UnconfiguredLabelId label) \<Rightarrow> nonempty label
      | Some (ConfiguredLabelId label) \<Rightarrow> nonempty label
      | _ \<Rightarrow> None)"

definition abort_category :: "int \<Rightarrow> diagnostic_category" where
  "abort_category reason = (if reason = 5 then Loading else if reason = 6 then Analysis else Bazel)"

definition test_status_from :: "int \<Rightarrow> test_status" where
  "test_status_from value =
     (if value = 1 then Passed
      else if value = 2 then Flaky
      else if value = 3 then TestTimedOut
      else if value = 4 \<or> value = 7 \<or> value = 8 then TestFailed
      else if value = 5 then Incomplete
      else if value = 6 then RemoteTest
      else Incomplete)"

fun join_parts :: "string \<Rightarrow> string list \<Rightarrow> string" where
  "join_parts sep [] = []"
| "join_parts sep [x] = x"
| "join_parts sep (x # y # zs) = x @ sep @ join_parts sep (y # zs)"

definition file_artifact :: "file_view \<Rightarrow> artifact option" where
  "file_artifact file =
     (let name = bounded_text (join_parts ''/'' (filter (\<lambda>part. part \<noteq> []) (fv_path_prefix file @ [fv_name file]))) 1000;
          size = (if 0 \<le> fv_length file then Some (nat (fv_length file)) else None);
          artifact = (\<lambda>uri kind available.
            Some \<lparr>art_name = name, art_kind = kind, art_uri = uri, art_size_bytes = size,
                  art_locally_available = available\<rparr>)
      in case fv_file file of
           Some (FileUri uri) \<Rightarrow>
             artifact (bounded_text uri 1000)
               (if fv_name file = ''test.log'' \<or> fv_name file = ''test.xml'' then TestLogArtifact
                else if str_contains (fv_name file) ''coverage'' \<or> ends_with (fv_name file) ''.dat''
                then CoverageArtifact
                else if starts_with uri ''file:'' then FileArtifact
                else RemoteArtifact)
               (starts_with uri ''file:'')
         | Some (SymlinkTargetPath target) \<Rightarrow> artifact (bounded_text target 1000) FileArtifact True
         | Some FileContents \<Rightarrow> artifact ''inline://redacted'' FileArtifact True
         | None \<Rightarrow> None)"

definition test_outcome_diagnostic :: "string \<Rightarrow> test_status \<Rightarrow> diagnostic option" where
  "test_outcome_diagnostic label status =
     (let diagnostic = (\<lambda>severity message.
            Some \<lparr>diag_severity = severity, diag_category = TestCategory, diag_message = message @ label,
                  diag_location = None, diag_target = Some label, diag_action = None,
                  repetition_count = 1\<rparr>)
      in case status of
           Passed \<Rightarrow> None
         | Skipped \<Rightarrow> None
         | Flaky \<Rightarrow> diagnostic Warning ''Test was flaky: ''
         | TestFailed \<Rightarrow> diagnostic Error ''Test failed: ''
         | TestTimedOut \<Rightarrow> diagnostic Error ''Test timed out: ''
         | Incomplete \<Rightarrow> diagnostic Error ''Test was incomplete: ''
         | RemoteTest \<Rightarrow> diagnostic Error ''Test result was unavailable: '')"

text \<open>Signed decimal numbers, and an optional exit code as \<^verbatim>\<open>{:?}\<close> shows it.\<close>

definition signed_decimal :: "int \<Rightarrow> string" where
  "signed_decimal i = (if i < 0 then ''-'' @ decimal (nat (- i)) else decimal (nat i))"

definition show_exit_code :: "int option \<Rightarrow> string" where
  "show_exit_code code =
     (case code of None \<Rightarrow> ''None'' | Some i \<Rightarrow> ''Some('' @ signed_decimal i @ '')'')"

definition aborted_diagnostic :: "event_id option \<Rightarrow> int \<Rightarrow> string \<Rightarrow> diagnostic" where
  "aborted_diagnostic ident reason message =
     \<lparr>diag_severity = Error, diag_category = abort_category reason, diag_message = message,
      diag_location = None, diag_target = label_from_id ident, diag_action = None,
      repetition_count = 1\<rparr>"

definition option_or :: "'a option \<Rightarrow> 'a option \<Rightarrow> 'a option" where
  "option_or a b = (case a of None \<Rightarrow> b | Some x \<Rightarrow> Some x)"

definition action_diagnostic :: "event_id option \<Rightarrow> action_view \<Rightarrow> diagnostic" where
  "action_diagnostic ident a =
     \<lparr>diag_severity = Error, diag_category = Action,
      diag_message = (if av_type a = [] then ''Bazel'' else av_type a) @
        '' action failed with exit code '' @ signed_decimal (av_exit_code a),
      diag_location = None, diag_target = option_or (label_from_id ident) (nonempty (av_label a)),
      diag_action = nonempty (av_type a), repetition_count = 1\<rparr>"

definition completed_target :: "event_id option \<Rightarrow> completed_view \<Rightarrow> target_result" where
  "completed_target ident c =
     \<lparr>tr_label = (case label_from_id ident of None \<Rightarrow> ''<unknown target>'' | Some l \<Rightarrow> l),
      tr_success = cv_success c\<rparr>"

definition summarized_test :: "string \<Rightarrow> test_summary_view \<Rightarrow> test_result" where
  "summarized_test label v =
     (let status = test_status_from (tv_overall_status v)
      in \<lparr>test_label = label, test_status_of = status,
          test_duration_ms = (if 0 \<le> tv_total_run_duration_millis v
                              then Some (nat (tv_total_run_duration_millis v)) else None),
          test_attempts = nat (max 1 (tv_attempt_count v)),
          test_shard = (if 0 < tv_shard_count v then Some (nat (tv_shard_count v)) else None),
          test_cases = [], test_log_available = False,
          test_log_unavailable_reason =
            (if status \<noteq> Passed then Some ''test_log_not_snapshotted'' else None)\<rparr>)"

definition test_label_of :: "event_id option \<Rightarrow> string" where
  "test_label_of ident = (case label_from_id ident of None \<Rightarrow> ''<unknown test>'' | Some l \<Rightarrow> l)"

section \<open>The accumulator\<close>

definition STREAM_MAX_ITEMS :: nat where
  "STREAM_MAX_ITEMS = 250000"

definition STREAM_MAX_RETAINED_BYTES :: nat where
  "STREAM_MAX_RETAINED_BYTES = 64 * 1024 * 1024"

record test_attempt_outcome =
  ta_passed :: bool
  ta_not_passed :: bool
  ta_flaky :: bool
  ta_attempts :: nat

definition attempt_default :: test_attempt_outcome where
  "attempt_default = \<lparr>ta_passed = False, ta_not_passed = False, ta_flaky = False, ta_attempts = 0\<rparr>"

definition observe_attempt :: "test_status \<Rightarrow> test_attempt_outcome \<Rightarrow> test_attempt_outcome" where
  "observe_attempt status t =
     (let t1 = t\<lparr>ta_attempts := sat_add_u32 (ta_attempts t) 1\<rparr>
      in case status of
           Passed \<Rightarrow> t1\<lparr>ta_passed := True\<rparr>
         | Flaky \<Rightarrow> t1\<lparr>ta_flaky := True\<rparr>
         | _ \<Rightarrow> t1\<lparr>ta_not_passed := True\<rparr>)"

definition successful_status :: "test_attempt_outcome \<Rightarrow> test_status option" where
  "successful_status t =
     (if ta_flaky t \<or> ta_passed t \<and> ta_not_passed t then Some Flaky
      else if ta_passed t then Some Passed
      else None)"

text \<open>The files of a named set are artifacts in the accumulator and views of events in \<^verbatim>\<open>reduce_artifacts\<close>.\<close>

record 'f named_set =
  ns_files :: "'f list"
  ns_children :: "string list"

type_synonym owned_named_set = "artifact named_set"

record run_bep_outcome =
  build_success :: "bool option"
  exec_request_should_execute :: "bool option"
  test_result_seen :: bool
  recovered_test_targets :: nat

definition run_bep_default :: run_bep_outcome where
  "run_bep_default =
     \<lparr>build_success = None, exec_request_should_execute = None, test_result_seen = False,
      recovered_test_targets = 0\<rparr>"

datatype reducer_event_kind = AbortedEvent | ActionEvent | TargetEvent | TestSummaryEvent

record reducer_event =
  re_ordinal :: nat
  re_kind :: reducer_event_kind
  re_label :: "string option"
  re_target_kind :: "string option"
  re_action_type :: "string option"
  re_success :: "bool option"
  re_exit_code :: "int option"
  re_message :: "string option"

record event_collector =
  ec_events :: "reducer_event list"
  ec_retained_bytes :: nat
  ec_max_events :: nat
  ec_max_bytes :: nat
  ec_truncated :: bool

record bep_accumulator =
  ac_diagnostics :: "diagnostic list"
  ac_targets :: "target_result list"
  ac_tests :: "test_result list"
  ac_test_attempts :: "(string, test_attempt_outcome) fmap"
  ac_named_sets :: "(string, owned_named_set) fmap"
  ac_artifact_roots :: "string list"
  ac_direct_artifacts :: "artifact list"
  ac_canonical_arguments :: "string list option"
  ac_run :: run_bep_outcome
  ac_retained_items :: nat
  ac_retained_bytes :: nat
  ac_truncated :: bool
  ac_extension :: "event_collector option"
  ac_next_ordinal :: nat

definition accumulator_default :: bep_accumulator where
  "accumulator_default =
     \<lparr>ac_diagnostics = [], ac_targets = [], ac_tests = [], ac_test_attempts = fmempty,
      ac_named_sets = fmempty, ac_artifact_roots = [], ac_direct_artifacts = [],
      ac_canonical_arguments = None, ac_run = run_bep_default, ac_retained_items = 0,
      ac_retained_bytes = 0, ac_truncated = False, ac_extension = None, ac_next_ordinal = 0\<rparr>"

definition with_extension_events :: "nat \<Rightarrow> nat \<Rightarrow> bep_accumulator" where
  "with_extension_events max_events max_bytes0 =
     accumulator_default\<lparr>ac_extension :=
       Some \<lparr>ec_events = [], ec_retained_bytes = 0, ec_max_events = max_events,
             ec_max_bytes = max_bytes0, ec_truncated = False\<rparr>\<rparr>"

definition opt_len :: "string option \<Rightarrow> nat" where
  "opt_len s = (case s of None \<Rightarrow> 0 | Some v \<Rightarrow> length v)"

definition event_bytes :: "reducer_event \<Rightarrow> nat" where
  "event_bytes e = opt_len (re_label e) + opt_len (re_target_kind e) + opt_len (re_action_type e) + opt_len (re_message e)"

definition collector_push :: "reducer_event \<Rightarrow> event_collector \<Rightarrow> event_collector" where
  "collector_push e c =
     (if ec_max_events c \<le> length (ec_events c) \<or>
         ec_max_bytes c < sat_add (ec_retained_bytes c) (event_bytes e)
      then c\<lparr>ec_truncated := True\<rparr>
      else c\<lparr>ec_retained_bytes := sat_add (ec_retained_bytes c) (event_bytes e),
             ec_events := ec_events c @ [e]\<rparr>)"

definition extension_event :: "nat \<Rightarrow> build_event \<Rightarrow> reducer_event option" where
  "extension_event ordinal e =
     (let ident = be_id e;
          base = \<lparr>re_ordinal = ordinal, re_kind = AbortedEvent, re_label = label_from_id ident,
                  re_target_kind = None, re_action_type = None, re_success = None,
                  re_exit_code = None, re_message = None\<rparr>
      in case be_payload e of
           Some (AbortedPayload reason description) \<Rightarrow>
             Some (base\<lparr>re_success := Some False,
                        re_message := Some (bounded_text description (64 * 1024))\<rparr>)
         | Some (ActionPayload a) \<Rightarrow>
             Some (base\<lparr>re_kind := ActionEvent,
                        re_label := option_or (label_from_id ident) (nonempty (av_label a)),
                        re_action_type := nonempty (av_type a), re_success := Some (av_success a),
                        re_exit_code := Some (av_exit_code a)\<rparr>)
         | Some (CompletedPayload c) \<Rightarrow>
             Some (base\<lparr>re_kind := TargetEvent, re_target_kind := nonempty (cv_target_kind c),
                        re_success := Some (cv_success c)\<rparr>)
         | Some (TestSummaryPayload v) \<Rightarrow>
             Some (base\<lparr>re_kind := TestSummaryEvent,
                        re_success := Some (test_status_from (tv_overall_status v) = Passed)\<rparr>)
         | _ \<Rightarrow> None)"

definition observe_extension_event :: "nat \<Rightarrow> build_event \<Rightarrow> bep_accumulator \<Rightarrow> bep_accumulator" where
  "observe_extension_event ordinal e acc =
     (case ac_extension acc of
        None \<Rightarrow> acc
      | Some collector \<Rightarrow>
          (case extension_event ordinal e of
             None \<Rightarrow> acc
           | Some r \<Rightarrow> acc\<lparr>ac_extension := Some (collector_push r collector)\<rparr>))"

definition reserve :: "nat \<Rightarrow> nat \<Rightarrow> bep_accumulator \<Rightarrow> bool \<times> bep_accumulator" where
  "reserve items bytes acc =
     (let next_items = sat_add (ac_retained_items acc) items;
          next_bytes = sat_add (ac_retained_bytes acc) bytes
      in if STREAM_MAX_ITEMS < next_items \<or> STREAM_MAX_RETAINED_BYTES < next_bytes
         then (False, acc\<lparr>ac_truncated := True\<rparr>)
         else (True, acc\<lparr>ac_retained_items := next_items, ac_retained_bytes := next_bytes\<rparr>))"

text \<open>\<^verbatim>\<open>if self.reserve(items, bytes) { update }\<close>\<close>

definition reserved ::
  "nat \<Rightarrow> nat \<Rightarrow> (bep_accumulator \<Rightarrow> bep_accumulator) \<Rightarrow> bep_accumulator \<Rightarrow> bep_accumulator"
where
  "reserved items bytes update acc =
     (let (granted, acc1) = reserve items bytes acc in if granted then update acc1 else acc1)"

definition diagnostic_bytes :: "diagnostic \<Rightarrow> nat" where
  "diagnostic_bytes d = length (diag_message d) + opt_len (diag_target d) + opt_len (diag_action d)"

definition push_diagnostic :: "diagnostic \<Rightarrow> bep_accumulator \<Rightarrow> bep_accumulator" where
  "push_diagnostic d =
     reserved 1 (diagnostic_bytes d) (\<lambda>acc. acc\<lparr>ac_diagnostics := ac_diagnostics acc @ [d]\<rparr>)"

definition push_root :: "string \<Rightarrow> bep_accumulator \<Rightarrow> bep_accumulator" where
  "push_root ident =
     (let root = bounded_text ident (4 * 1024)
      in reserved 1 (length root) (\<lambda>acc. acc\<lparr>ac_artifact_roots := ac_artifact_roots acc @ [root]\<rparr>))"

definition artifact_bytes :: "artifact \<Rightarrow> nat" where
  "artifact_bytes a = length (art_name a) + length (art_uri a)"

definition push_direct_artifact :: "artifact \<Rightarrow> bep_accumulator \<Rightarrow> bep_accumulator" where
  "push_direct_artifact a =
     reserved 1 (artifact_bytes a) (\<lambda>acc. acc\<lparr>ac_direct_artifacts := ac_direct_artifacts acc @ [a]\<rparr>)"

definition push_file :: "file_view \<Rightarrow> bep_accumulator \<Rightarrow> bep_accumulator" where
  "push_file file acc =
     (case file_artifact file of None \<Rightarrow> acc | Some a \<Rightarrow> push_direct_artifact a acc)"

definition push_group :: "output_group \<Rightarrow> bep_accumulator \<Rightarrow> bep_accumulator" where
  "push_group g acc = fold push_file (og_inline_files g) (fold push_root (og_file_sets g) acc)"

definition observe_completed :: "event_id option \<Rightarrow> completed_view \<Rightarrow> bep_accumulator \<Rightarrow> bep_accumulator" where
  "observe_completed ident c acc =
     (let target = completed_target ident c;
          acc1 = reserved 1 (length (tr_label target))
                   (\<lambda>acc. acc\<lparr>ac_targets := ac_targets acc @ [target]\<rparr>) acc;
          acc2 = fold push_group (cv_output_group c) acc1
      in fold push_file (cv_important_output c @ cv_directory_output c) acc2)"

definition observe_test_summary ::
  "event_id option \<Rightarrow> test_summary_view \<Rightarrow> bep_accumulator \<Rightarrow> bep_accumulator"
where
  "observe_test_summary ident v acc =
     (let label = test_label_of ident;
          test = summarized_test label v;
          acc1 = (case test_outcome_diagnostic label (test_status_from (tv_overall_status v)) of
                    None \<Rightarrow> acc
                  | Some d \<Rightarrow>
                      reserved 1 (length (diag_message d) + opt_len (diag_target d))
                        (\<lambda>acc. acc\<lparr>ac_diagnostics := ac_diagnostics acc @ [d]\<rparr>) acc)
      in reserved 1 (length (test_label test) + opt_len (test_log_unavailable_reason test))
           (\<lambda>acc. acc\<lparr>ac_tests := ac_tests acc @ [test]\<rparr>) acc1)"

definition observe_test_result ::
  "event_id option \<Rightarrow> int \<Rightarrow> file_view list \<Rightarrow> bep_accumulator \<Rightarrow> bep_accumulator"
where
  "observe_test_result ident status files acc =
     (let acc1 = acc\<lparr>ac_run := (ac_run acc)\<lparr>test_result_seen := True\<rparr>\<rparr>;
          insert_attempt = (\<lambda>label t acc. acc\<lparr>ac_test_attempts :=
            fmupd label (observe_attempt (test_status_from status) t) (ac_test_attempts acc)\<rparr>);
          acc2 = (case label_from_id ident of
                    None \<Rightarrow> acc1
                  | Some label \<Rightarrow>
                      (case fmlookup (ac_test_attempts acc1) label of
                         Some t \<Rightarrow> insert_attempt label t acc1
                       | None \<Rightarrow>
                           reserved 1 (length label) (insert_attempt label attempt_default) acc1))
      in fold push_file files acc2)"

definition named_set_bytes :: "string \<Rightarrow> owned_named_set \<Rightarrow> nat" where
  "named_set_bytes key s =
     length key + sum_list (map artifact_bytes (ns_files s)) + sum_list (map length (ns_children s))"

definition named_set_items :: "owned_named_set \<Rightarrow> nat" where
  "named_set_items s = sat_add (sat_add 1 (length (ns_files s))) (length (ns_children s))"

definition observe_named_set ::
  "event_id option \<Rightarrow> file_view list \<Rightarrow> string list \<Rightarrow> bep_accumulator \<Rightarrow> bep_accumulator"
where
  "observe_named_set ident files sets acc =
     (case ident of
        Some (NamedSetId named) \<Rightarrow>
          (let s = \<lparr>ns_files = List.map_filter file_artifact files,
                    ns_children = map (\<lambda>i. bounded_text i (4 * 1024)) sets\<rparr>;
               key = bounded_text named (4 * 1024)
           in reserved (named_set_items s) (named_set_bytes key s)
                (\<lambda>acc. acc\<lparr>ac_named_sets := fmupd key s (ac_named_sets acc)\<rparr>) acc)
      | _ \<Rightarrow> acc)"

definition observe_options :: "string list \<Rightarrow> string list \<Rightarrow> bep_accumulator \<Rightarrow> bep_accumulator" where
  "observe_options startup cmd_line acc =
     (if ac_canonical_arguments acc \<noteq> None then acc
      else let arguments = map (\<lambda>v. bounded_text v (64 * 1024)) (startup @ cmd_line)
           in reserved (length arguments) (sum_list (map length arguments))
                (\<lambda>acc. acc\<lparr>ac_canonical_arguments := Some arguments\<rparr>) acc)"

definition observe_action :: "event_id option \<Rightarrow> action_view \<Rightarrow> bep_accumulator \<Rightarrow> bep_accumulator" where
  "observe_action ident a acc =
     (if av_success a then acc
      else let acc1 = push_diagnostic (action_diagnostic ident a) acc
           in case av_primary_output a of None \<Rightarrow> acc1 | Some file \<Rightarrow> push_file file acc1)"

definition observe_payload :: "build_event \<Rightarrow> bep_accumulator \<Rightarrow> bep_accumulator" where
  "observe_payload e acc =
     (let ident = be_id e
      in case be_payload e of
           Some (AbortedPayload reason description) \<Rightarrow>
             (let d = aborted_diagnostic ident reason (bounded_text description (64 * 1024))
              in reserved 1 (length (diag_message d) + opt_len (diag_target d))
                   (\<lambda>acc. acc\<lparr>ac_diagnostics := ac_diagnostics acc @ [d]\<rparr>) acc)
         | Some (ActionPayload a) \<Rightarrow> observe_action ident a acc
         | Some (CompletedPayload c) \<Rightarrow> observe_completed ident c acc
         | Some (TestSummaryPayload v) \<Rightarrow> observe_test_summary ident v acc
         | Some (TestResultPayload status files) \<Rightarrow> observe_test_result ident status files acc
         | Some (NamedSetPayload files sets) \<Rightarrow> observe_named_set ident files sets acc
         | Some (OptionsParsedPayload startup cmd_line) \<Rightarrow> observe_options startup cmd_line acc
         | Some (FinishedPayload success) \<Rightarrow>
             acc\<lparr>ac_run := (ac_run acc)\<lparr>build_success := Some success\<rparr>\<rparr>
         | Some (ExecRequestPayload should_exec) \<Rightarrow>
             acc\<lparr>ac_run := (ac_run acc)\<lparr>exec_request_should_execute := Some should_exec\<rparr>\<rparr>
         | _ \<Rightarrow> acc)"

definition observe_view :: "build_event \<Rightarrow> bep_accumulator \<Rightarrow> bep_accumulator" where
  "observe_view e acc =
     (let ordinal = ac_next_ordinal acc;
          acc1 = acc\<lparr>ac_next_ordinal := sat_add ordinal 1\<rparr>
      in observe_payload e (observe_extension_event ordinal e acc1))"

definition observe_all :: "build_event list \<Rightarrow> bep_accumulator \<Rightarrow> bep_accumulator" where
  "observe_all es acc = fold observe_view es acc"

section \<open>The artifacts\<close>

lemma unvisited_less:
  assumes "fmlookup sets ident = Some s" and "ident |\<notin>| visited"
  shows "fcard (fmdom sets |-| finsert ident visited) < fcard (fmdom sets |-| visited)"
proof (rule pfsubset_fcard_mono)
  have "ident |\<in>| fmdom sets |-| visited" using assms by (simp add: fmdomI)
  then show "fmdom sets |-| finsert ident visited |\<subset>| fmdom sets |-| visited" by blast
qed

lemma unvisited_le: "fcard (fmdom sets |-| finsert ident visited) \<le> fcard (fmdom sets |-| visited)"
  by (rule fcard_mono) blast

text \<open>
  The worklist of named sets; an identifier is taken from its end. Each set is expanded once, so
  that cycles end.
\<close>

function resolve_loop ::
  "(string, 'f named_set) fmap \<Rightarrow> string list \<Rightarrow> string fset \<Rightarrow> 'f list \<Rightarrow> 'f list"
where
  "resolve_loop sets pending visited artifacts =
     (if pending = [] then artifacts
      else
        (let ident = last pending; rest = butlast pending
         in if ident |\<in>| visited then resolve_loop sets rest visited artifacts
            else (case fmlookup sets ident of
                    None \<Rightarrow> resolve_loop sets rest (finsert ident visited) artifacts
                  | Some s \<Rightarrow>
                      resolve_loop sets (rest @ ns_children s) (finsert ident visited)
                        (artifacts @ ns_files s))))"
  by pat_completeness auto

termination
proof (relation "measures [\<lambda>(sets, pending, visited, _). fcard (fmdom sets |-| visited),
    \<lambda>(sets, pending, visited, _). length pending]", goal_cases)
  case (3 sets pending visited artifacts ident rest)
  then show ?case
    using unvisited_le [of sets ident visited] by (simp add: le_less)
next
  case (4 sets pending visited artifacts ident rest s)
  then show ?case using unvisited_less [of sets ident s visited] by simp
qed simp_all

declare resolve_loop.simps [simp del]

fun keep_first :: "('a \<Rightarrow> 'k) \<Rightarrow> 'k list \<Rightarrow> 'a list \<Rightarrow> 'a list" where
  "keep_first f seen [] = []"
| "keep_first f seen (x # xs) =
     (if f x \<in> set seen then keep_first f seen xs else x # keep_first f (f x # seen) xs)"

definition artifact_key :: "artifact \<Rightarrow> string \<times> string" where
  "artifact_key a = (art_name a, art_uri a)"

definition resolve_artifacts :: "bep_accumulator \<Rightarrow> artifact list" where
  "resolve_artifacts acc =
     keep_first artifact_key []
       (resolve_loop (ac_named_sets acc) (ac_artifact_roots acc) {||} (ac_direct_artifacts acc))"

section \<open>The summary\<close>

fun dedup_by_key :: "('a \<Rightarrow> 'k) \<Rightarrow> 'a list \<Rightarrow> 'a list" where
  "dedup_by_key f (x # y # zs) =
     (if f x = f y then dedup_by_key f (x # zs) else x # dedup_by_key f (y # zs))"
| "dedup_by_key f xs = xs"

definition sorted_targets :: "target_result list \<Rightarrow> target_result list" where
  "sorted_targets ts = dedup_by_key tr_label (sort_key tr_label ts)"

definition sorted_tests :: "test_result list \<Rightarrow> test_result list" where
  "sorted_tests ts = dedup_by_key test_label (sort_key test_label ts)"

definition count_targets :: "target_result list \<Rightarrow> target_counts" where
  "count_targets ts =
     \<lparr>tgt_requested = length ts, tgt_succeeded = length (filter tr_success ts),
      tgt_failed = length (filter (\<lambda>t. \<not> tr_success t) ts)\<rparr>"

definition count_test :: "test_result \<Rightarrow> test_counts \<Rightarrow> test_counts" where
  "count_test t c =
     (case test_status_of t of
        Passed \<Rightarrow> c\<lparr>tc_passed := tc_passed c + 1\<rparr>
      | TestFailed \<Rightarrow> c\<lparr>tc_failed := tc_failed c + 1\<rparr>
      | Flaky \<Rightarrow> c\<lparr>tc_flaky := tc_flaky c + 1\<rparr>
      | Skipped \<Rightarrow> c\<lparr>tc_skipped := tc_skipped c + 1\<rparr>
      | _ \<Rightarrow> c\<lparr>tc_incomplete := tc_incomplete c + 1\<rparr>)"

definition count_tests :: "test_result list \<Rightarrow> test_counts" where
  "count_tests ts =
     fold count_test ts \<lparr>tc_passed = 0, tc_failed = 0, tc_flaky = 0, tc_skipped = 0, tc_incomplete = 0\<rparr>"

text \<open>The tests that no summary reported, from their attempts, in the order of their labels.\<close>

definition recovered_test :: "string \<Rightarrow> test_attempt_outcome \<Rightarrow> test_result option" where
  "recovered_test label t =
     map_option (\<lambda>status. \<lparr>test_label = label, test_status_of = status, test_duration_ms = None,
         test_attempts = ta_attempts t, test_shard = None, test_cases = [],
         test_log_available = False, test_log_unavailable_reason = None\<rparr>)
       (successful_status t)"

definition recovered_tests :: "(string, test_attempt_outcome) fmap \<Rightarrow> test_result list \<Rightarrow> test_result list" where
  "recovered_tests attempts tests =
     List.map_filter
       (\<lambda>label. if label \<in> test_label ` set tests then None
                else Option.bind (fmlookup attempts label) (recovered_test label))
       (sorted_list_of_fset (fmdom attempts))"

definition summary_of ::
  "bool \<Rightarrow> int option \<Rightarrow> nat \<Rightarrow> target_result list \<Rightarrow> diagnostic list \<Rightarrow> test_result list \<Rightarrow> bool
     \<Rightarrow> invocation_summary"
where
  "summary_of success exit_code elapsed_ms targets diagnostics tests truncated =
     \<lparr>sum_success = success,
      sum_headline = (if success then ''Bazel completed successfully in '' @ decimal elapsed_ms @ '' ms''
                      else ''Bazel failed with exit code '' @ show_exit_code exit_code),
      sum_targets = targets, sum_target_counts = count_targets targets,
      sum_diagnostics = diagnostics, sum_tests = tests, sum_test_counts = count_tests tests,
      sum_coverage = None, sum_query_sample = [], sum_query_result_count = None,
      sum_elapsed_ms = elapsed_ms, sum_truncated = truncated,
      sum_inspect_hint = (if truncated then Some HintDiagnostics else None)\<rparr>"

record reduction_output =
  ro_summary :: invocation_summary
  ro_artifacts :: "artifact list"
  ro_canonical_arguments :: "string list option"
  ro_reducer_events :: "reducer_event list"
  ro_input_truncated :: bool
  ro_run :: run_bep_outcome

definition accumulator_finish ::
  "(string \<Rightarrow> diagnostic list) \<Rightarrow> string \<Rightarrow> string \<Rightarrow> int option \<Rightarrow> nat \<Rightarrow> budget \<Rightarrow> bep_accumulator
     \<Rightarrow> reduction_output"
where
  "accumulator_finish text_diagnostics stdout stderr exit_code elapsed_ms b acc =
     (let success = (exit_code = Some 0);
          diagnostics = (if success then ac_diagnostics acc
                         else ac_diagnostics acc @ text_diagnostics stderr @ text_diagnostics stdout);
          targets = sorted_targets (ac_targets acc);
          tests = sorted_tests (ac_tests acc);
          recovered = (if success \<and> build_success (ac_run acc) = Some True
                       then recovered_tests (ac_test_attempts acc) tests else []);
          all_tests = (if success \<and> build_success (ac_run acc) = Some True
                       then sort_key test_label (tests @ recovered) else tests)
      in \<lparr>ro_summary = finalize_diagnostics b
            (summary_of success exit_code elapsed_ms targets diagnostics all_tests (ac_truncated acc)),
          ro_artifacts = resolve_artifacts acc,
          ro_canonical_arguments = ac_canonical_arguments acc,
          ro_reducer_events = (case ac_extension acc of None \<Rightarrow> [] | Some c \<Rightarrow> ec_events c),
          ro_input_truncated = (case ac_extension acc of None \<Rightarrow> False | Some c \<Rightarrow> ec_truncated c),
          ro_run = (ac_run acc)\<lparr>recovered_test_targets :=
            recovered_test_targets (ac_run acc) + length recovered\<rparr>\<rparr>)"

section \<open>The reference reducers\<close>

record collected =
  cl_diagnostics :: "diagnostic list"
  cl_targets :: "target_result list"
  cl_tests :: "test_result list"

definition collect_event :: "build_event \<Rightarrow> collected \<Rightarrow> collected" where
  "collect_event e cl =
     (let ident = be_id e
      in case be_payload e of
           Some (AbortedPayload reason description) \<Rightarrow>
             cl\<lparr>cl_diagnostics := cl_diagnostics cl @ [aborted_diagnostic ident reason description]\<rparr>
         | Some (ActionPayload a) \<Rightarrow>
             if av_success a then cl
             else cl\<lparr>cl_diagnostics := cl_diagnostics cl @ [action_diagnostic ident a]\<rparr>
         | Some (CompletedPayload c) \<Rightarrow>
             cl\<lparr>cl_targets := cl_targets cl @ [completed_target ident c]\<rparr>
         | Some (TestSummaryPayload v) \<Rightarrow>
             (let label = test_label_of ident;
                  d = test_outcome_diagnostic label (test_status_from (tv_overall_status v))
              in cl\<lparr>cl_diagnostics := cl_diagnostics cl @ (case d of None \<Rightarrow> [] | Some d \<Rightarrow> [d]),
                    cl_tests := cl_tests cl @ [summarized_test label v]\<rparr>)
         | _ \<Rightarrow> cl)"

definition reduce_invocation ::
  "(string \<Rightarrow> diagnostic list) \<Rightarrow> build_event list \<Rightarrow> string \<Rightarrow> string \<Rightarrow> int option \<Rightarrow> nat \<Rightarrow> budget
     \<Rightarrow> invocation_summary"
where
  "reduce_invocation text_diagnostics es stdout stderr exit_code elapsed_ms b =
     (let success = (exit_code = Some 0);
          cl = fold collect_event es \<lparr>cl_diagnostics = [], cl_targets = [], cl_tests = []\<rparr>;
          diagnostics = (if success then cl_diagnostics cl
                         else cl_diagnostics cl @ text_diagnostics stderr @ text_diagnostics stdout)
      in finalize_diagnostics b
           (summary_of success exit_code elapsed_ms (sorted_targets (cl_targets cl)) diagnostics
              (sorted_tests (cl_tests cl)) False))"

text \<open>\<^verbatim>\<open>reduce_artifacts\<close>: the named sets, the roots and the files that events name directly.\<close>

record gathered =
  ga_sets :: "(string, file_view named_set) fmap"
  ga_roots :: "string list"
  ga_direct :: "file_view list"

definition gather_event :: "build_event \<Rightarrow> gathered \<Rightarrow> gathered" where
  "gather_event e g =
     (case be_payload e of
        Some (NamedSetPayload files sets) \<Rightarrow>
          (case be_id e of
             Some (NamedSetId named) \<Rightarrow> g\<lparr>ga_sets := fmupd named \<lparr>ns_files = files, ns_children = sets\<rparr> (ga_sets g)\<rparr>
           | _ \<Rightarrow> g)
      | Some (CompletedPayload c) \<Rightarrow>
          g\<lparr>ga_roots := ga_roots g @ concat (map og_file_sets (cv_output_group c)),
            ga_direct := ga_direct g @ concat (map og_inline_files (cv_output_group c)) @
              cv_important_output c @ cv_directory_output c\<rparr>
      | Some (ActionPayload a) \<Rightarrow>
          if av_success a then g
          else g\<lparr>ga_direct := ga_direct g @ (case av_primary_output a of None \<Rightarrow> [] | Some f \<Rightarrow> [f])\<rparr>
      | Some (TestResultPayload status files) \<Rightarrow> g\<lparr>ga_direct := ga_direct g @ files\<rparr>
      | _ \<Rightarrow> g)"

definition reduce_artifacts :: "build_event list \<Rightarrow> artifact list" where
  "reduce_artifacts es =
     (let g = fold gather_event es \<lparr>ga_sets = fmempty, ga_roots = [], ga_direct = []\<rparr>
      in keep_first artifact_key []
           (List.map_filter file_artifact (resolve_loop (ga_sets g) (ga_roots g) {||} (ga_direct g))))"

definition canonical_of :: "build_event \<Rightarrow> string list option" where
  "canonical_of e =
     (case be_payload e of
        Some (OptionsParsedPayload startup cmd_line) \<Rightarrow> Some (startup @ cmd_line)
      | _ \<Rightarrow> None)"

fun extract_canonical_arguments :: "build_event list \<Rightarrow> string list option" where
  "extract_canonical_arguments [] = None"
| "extract_canonical_arguments (e # es) =
     (case canonical_of e of Some a \<Rightarrow> Some a | None \<Rightarrow> extract_canonical_arguments es)"

section \<open>The accumulator follows the reference reducers\<close>

text \<open>An accumulator with another account; everything else it holds is the same.\<close>

definition charge :: "nat \<Rightarrow> nat \<Rightarrow> bep_accumulator \<Rightarrow> bep_accumulator" where
  "charge i b acc = acc\<lparr>ac_retained_items := i, ac_retained_bytes := b\<rparr>"

lemma charge_simps [simp]:
  "ac_diagnostics (charge i b acc) = ac_diagnostics acc" "ac_targets (charge i b acc) = ac_targets acc"
  "ac_tests (charge i b acc) = ac_tests acc" "ac_test_attempts (charge i b acc) = ac_test_attempts acc"
  "ac_named_sets (charge i b acc) = ac_named_sets acc"
  "ac_artifact_roots (charge i b acc) = ac_artifact_roots acc"
  "ac_direct_artifacts (charge i b acc) = ac_direct_artifacts acc"
  "ac_canonical_arguments (charge i b acc) = ac_canonical_arguments acc"
  "ac_run (charge i b acc) = ac_run acc" "ac_truncated (charge i b acc) = ac_truncated acc"
  "ac_extension (charge i b acc) = ac_extension acc" "ac_next_ordinal (charge i b acc) = ac_next_ordinal acc"
  "charge i b (charge i' b' acc) = charge i b acc"
  by (simp_all add: charge_def)

text \<open>An update that was paid for, told from what it leaves.\<close>

definition paid :: "bep_accumulator \<Rightarrow> bep_accumulator \<Rightarrow> bool" where
  "paid acc acc' \<longleftrightarrow> (\<exists>i b. acc' = charge i b acc)"

lemma paid_refl: "paid acc acc"
  unfolding paid_def by (rule exI [of _ "ac_retained_items acc"], rule exI [of _ "ac_retained_bytes acc"])
    (simp add: charge_def)

lemma paid_trans: "paid a b \<Longrightarrow> paid b c \<Longrightarrow> paid a c"
  unfolding paid_def by (metis charge_simps(13))

text \<open>An update that leaves the account and the mark of truncation alone.\<close>

definition plain :: "(bep_accumulator \<Rightarrow> bep_accumulator) \<Rightarrow> bool" where
  "plain f \<longleftrightarrow> (\<forall>a i b. f (charge i b a) = charge i b (f a) \<and> ac_truncated (f a) = ac_truncated a)"

lemma plain_updates [simp]:
  "plain (\<lambda>acc. acc\<lparr>ac_diagnostics := ac_diagnostics acc @ ds\<rparr>)"
  "plain (\<lambda>acc. acc\<lparr>ac_targets := ac_targets acc @ ts\<rparr>)"
  "plain (\<lambda>acc. acc\<lparr>ac_tests := ac_tests acc @ us\<rparr>)"
  "plain (\<lambda>acc. acc\<lparr>ac_artifact_roots := ac_artifact_roots acc @ rs\<rparr>)"
  "plain (\<lambda>acc. acc\<lparr>ac_direct_artifacts := ac_direct_artifacts acc @ xs\<rparr>)"
  "plain (\<lambda>acc. acc\<lparr>ac_named_sets := fmupd k s (ac_named_sets acc)\<rparr>)"
  "plain (\<lambda>acc. acc\<lparr>ac_test_attempts := fmupd k t (ac_test_attempts acc)\<rparr>)"
  "plain (\<lambda>acc. acc\<lparr>ac_canonical_arguments := c\<rparr>)"
  by (simp_all add: plain_def charge_def)

lemma reserved_paid:
  assumes "\<not> ac_truncated (reserved items bytes f acc)" and "plain f"
  shows "paid (f acc) (reserved items bytes f acc)" and "\<not> ac_truncated acc"
proof -
  have "reserved items bytes f acc =
      f (charge (sat_add (ac_retained_items acc) items) (sat_add (ac_retained_bytes acc) bytes) acc)"
    using assms(1) by (auto simp: reserved_def reserve_def charge_def Let_def split: if_splits)
  then show "paid (f acc) (reserved items bytes f acc)" "\<not> ac_truncated acc"
    using assms by (auto simp: plain_def paid_def)
qed

lemma plain_paid:
  assumes "plain f" and "paid a b"
  shows "paid (f a) (f b)"
  using assms unfolding plain_def paid_def by metis

lemma paid_truncated: "paid a b \<Longrightarrow> ac_truncated b = ac_truncated a"
  by (auto simp: paid_def)

lemma push_root_paid:
  assumes "\<not> ac_truncated (push_root ident acc)" and "length ident \<le> 4096"
  shows "paid (acc\<lparr>ac_artifact_roots := ac_artifact_roots acc @ [ident]\<rparr>) (push_root ident acc)"
    and "\<not> ac_truncated acc"
  using reserved_paid [of 1 "length ident" "\<lambda>acc. acc\<lparr>ac_artifact_roots := ac_artifact_roots acc @ [ident]\<rparr>" acc]
    assms by (simp_all add: push_root_def bounded_text_def)

definition artifacts_of :: "file_view list \<Rightarrow> artifact list" where
  "artifacts_of files = List.map_filter file_artifact files"

lemma artifacts_of_simps [simp]:
  "artifacts_of [] = []"
  "artifacts_of (f # fs) = (case file_artifact f of None \<Rightarrow> artifacts_of fs | Some a \<Rightarrow> a # artifacts_of fs)"
  "artifacts_of (fs @ gs) = artifacts_of fs @ artifacts_of gs"
  by (simp_all add: artifacts_of_def List.map_filter_def split: option.split)

lemma push_file_paid:
  assumes "\<not> ac_truncated (push_file f acc)"
  shows "paid (acc\<lparr>ac_direct_artifacts := ac_direct_artifacts acc @ artifacts_of [f]\<rparr>) (push_file f acc)"
    and "\<not> ac_truncated acc"
proof -
  have "paid (acc\<lparr>ac_direct_artifacts := ac_direct_artifacts acc @ artifacts_of [f]\<rparr>) (push_file f acc) \<and>
      \<not> ac_truncated acc"
  proof (cases "file_artifact f")
    case None
    then show ?thesis using assms by (simp add: push_file_def paid_refl)
  next
    case (Some a)
    then show ?thesis
      using assms reserved_paid [of 1 "artifact_bytes a"
          "\<lambda>acc. acc\<lparr>ac_direct_artifacts := ac_direct_artifacts acc @ [a]\<rparr>" acc]
      by (simp add: push_file_def push_direct_artifact_def)
  qed
  then show "paid (acc\<lparr>ac_direct_artifacts := ac_direct_artifacts acc @ artifacts_of [f]\<rparr>) (push_file f acc)"
    "\<not> ac_truncated acc" by blast+
qed

lemma push_files_paid:
  assumes "\<not> ac_truncated (fold push_file fs acc)"
  shows "paid (acc\<lparr>ac_direct_artifacts := ac_direct_artifacts acc @ artifacts_of fs\<rparr>) (fold push_file fs acc) \<and>
    \<not> ac_truncated acc"
  using assms
proof (induction fs arbitrary: acc)
  case (Cons f fs)
  let ?u = "\<lambda>acc. acc\<lparr>ac_direct_artifacts := ac_direct_artifacts acc @ artifacts_of fs\<rparr>"
  have IH: "paid (?u (push_file f acc)) (fold push_file fs (push_file f acc))" "\<not> ac_truncated (push_file f acc)"
    using Cons.IH [of "push_file f acc"] Cons.prems by auto
  have "paid (?u (acc\<lparr>ac_direct_artifacts := ac_direct_artifacts acc @ artifacts_of [f]\<rparr>)) (?u (push_file f acc))"
    by (rule plain_paid [OF _ push_file_paid(1) [OF IH(2)]]) simp
  moreover have "artifacts_of (f # fs) = artifacts_of [f] @ artifacts_of fs" by (simp split: option.split)
  ultimately show ?case
    using paid_trans [OF _ IH(1)] push_file_paid(2) [OF IH(2)] by (simp del: artifacts_of_simps(2))
qed (simp add: paid_refl)

lemma push_roots_paid:
  assumes "\<not> ac_truncated (fold push_root ids acc)" and "\<forall>ident \<in> set ids. length ident \<le> 4096"
  shows "paid (acc\<lparr>ac_artifact_roots := ac_artifact_roots acc @ ids\<rparr>) (fold push_root ids acc) \<and>
    \<not> ac_truncated acc"
  using assms
proof (induction ids arbitrary: acc)
  case (Cons ident ids)
  let ?u = "\<lambda>acc. acc\<lparr>ac_artifact_roots := ac_artifact_roots acc @ ids\<rparr>"
  have IH: "paid (?u (push_root ident acc)) (fold push_root ids (push_root ident acc))"
    "\<not> ac_truncated (push_root ident acc)"
    using Cons.IH [of "push_root ident acc"] Cons.prems by auto
  have short: "length ident \<le> 4096" using Cons.prems(2) by simp
  have "paid (?u (acc\<lparr>ac_artifact_roots := ac_artifact_roots acc @ [ident]\<rparr>)) (?u (push_root ident acc))"
    by (rule plain_paid [OF _ push_root_paid(1) [OF IH(2) short]]) simp
  then show ?case using paid_trans [OF _ IH(1)] push_root_paid(2) [OF IH(2) short] by simp
qed (simp add: paid_refl)

lemma push_group_paid:
  assumes t: "\<not> ac_truncated (push_group g acc)" and short: "\<forall>ident \<in> set (og_file_sets g). length ident \<le> 4096"
  shows "paid (acc\<lparr>ac_artifact_roots := ac_artifact_roots acc @ og_file_sets g,
      ac_direct_artifacts := ac_direct_artifacts acc @ artifacts_of (og_inline_files g)\<rparr>) (push_group g acc)"
    and "\<not> ac_truncated acc"
proof -
  let ?acc1 = "fold push_root (og_file_sets g) acc"
  let ?u = "\<lambda>acc. acc\<lparr>ac_direct_artifacts := ac_direct_artifacts acc @ artifacts_of (og_inline_files g)\<rparr>"
  have one: "paid (?u ?acc1) (push_group g acc)" "\<not> ac_truncated ?acc1"
    using push_files_paid [OF t [unfolded push_group_def]] by (simp_all add: push_group_def)
  have two: "paid (acc\<lparr>ac_artifact_roots := ac_artifact_roots acc @ og_file_sets g\<rparr>) ?acc1" "\<not> ac_truncated acc"
    using push_roots_paid [OF one(2) short] by auto
  have "paid (?u (acc\<lparr>ac_artifact_roots := ac_artifact_roots acc @ og_file_sets g\<rparr>)) (?u ?acc1)"
    by (rule plain_paid [OF _ two(1)]) simp
  then show "paid (acc\<lparr>ac_artifact_roots := ac_artifact_roots acc @ og_file_sets g,
      ac_direct_artifacts := ac_direct_artifacts acc @ artifacts_of (og_inline_files g)\<rparr>) (push_group g acc)"
    using paid_trans [OF _ one(1)] by simp
  show "\<not> ac_truncated acc" by (rule two(2))
qed

lemma push_groups_paid:
  assumes "\<not> ac_truncated (fold push_group gs acc)"
    and "\<forall>g \<in> set gs. \<forall>ident \<in> set (og_file_sets g). length ident \<le> 4096"
  shows "paid (acc\<lparr>ac_artifact_roots := ac_artifact_roots acc @ concat (map og_file_sets gs),
      ac_direct_artifacts := ac_direct_artifacts acc @ artifacts_of (concat (map og_inline_files gs))\<rparr>)
    (fold push_group gs acc) \<and> \<not> ac_truncated acc"
  using assms
proof (induction gs arbitrary: acc)
  case (Cons g gs)
  let ?u = "\<lambda>acc. acc\<lparr>ac_artifact_roots := ac_artifact_roots acc @ concat (map og_file_sets gs),
      ac_direct_artifacts := ac_direct_artifacts acc @ artifacts_of (concat (map og_inline_files gs))\<rparr>"
  have IH: "paid (?u (push_group g acc)) (fold push_group gs (push_group g acc))" "\<not> ac_truncated (push_group g acc)"
    using Cons.IH [of "push_group g acc"] Cons.prems by auto
  have short: "\<forall>ident \<in> set (og_file_sets g). length ident \<le> 4096" using Cons.prems(2) by simp
  have "plain ?u" by (simp add: plain_def charge_def)
  then have "paid (?u (acc\<lparr>ac_artifact_roots := ac_artifact_roots acc @ og_file_sets g,
      ac_direct_artifacts := ac_direct_artifacts acc @ artifacts_of (og_inline_files g)\<rparr>)) (?u (push_group g acc))"
    by (rule plain_paid [OF _ push_group_paid(1) [OF IH(2) short]])
  then show ?case using paid_trans [OF _ IH(1)] push_group_paid(2) [OF IH(2) short] by simp
qed (simp add: paid_refl)

text \<open>Texts that the accumulator would shorten are longer than these bounds.\<close>

definition short_event :: "build_event \<Rightarrow> bool" where
  "short_event e \<longleftrightarrow>
     (case be_payload e of
        Some (AbortedPayload reason description) \<Rightarrow> length description \<le> 65536
      | Some (CompletedPayload c) \<Rightarrow>
          (\<forall>g \<in> set (cv_output_group c). \<forall>ident \<in> set (og_file_sets g). length ident \<le> 4096)
      | Some (NamedSetPayload files sets) \<Rightarrow>
          (case be_id e of Some (NamedSetId named) \<Rightarrow> length named \<le> 4096 | _ \<Rightarrow> True) \<and>
          (\<forall>ident \<in> set sets. length ident \<le> 4096)
      | Some (OptionsParsedPayload startup cmd_line) \<Rightarrow> (\<forall>v \<in> set (startup @ cmd_line). length v \<le> 65536)
      | _ \<Rightarrow> True)"

definition own_set :: "file_view named_set \<Rightarrow> owned_named_set" where
  "own_set s = \<lparr>ns_files = artifacts_of (ns_files s), ns_children = ns_children s\<rparr>"

text \<open>What the accumulator holds, against what the reference reducers have collected.\<close>

definition follows ::
  "bep_accumulator \<Rightarrow> collected \<Rightarrow> gathered \<Rightarrow> string list option \<Rightarrow> bool"
where
  "follows acc cl g args \<longleftrightarrow>
     ac_diagnostics acc = cl_diagnostics cl \<and> ac_targets acc = cl_targets cl \<and>
     ac_tests acc = cl_tests cl \<and> ac_artifact_roots acc = ga_roots g \<and>
     ac_direct_artifacts acc = artifacts_of (ga_direct g) \<and>
     ac_named_sets acc = fmmap own_set (ga_sets g) \<and> ac_canonical_arguments acc = args"

lemma follows_paid: "paid acc acc' \<Longrightarrow> follows acc' cl g args = follows acc cl g args"
  by (auto simp: follows_def paid_def)

lemma follows_unpaid [simp]:
  "follows (acc\<lparr>ac_run := r\<rparr>) cl g args = follows acc cl g args"
  "follows (acc\<lparr>ac_next_ordinal := n\<rparr>) cl g args = follows acc cl g args"
  "follows (acc\<lparr>ac_extension := x\<rparr>) cl g args = follows acc cl g args"
  "follows (acc\<lparr>ac_test_attempts := y\<rparr>) cl g args = follows acc cl g args"
  by (simp_all add: follows_def)

definition canonical_step :: "build_event \<Rightarrow> string list option \<Rightarrow> string list option" where
  "canonical_step e args = option_or args (canonical_of e)"

lemma option_or_None [simp]: "option_or a None = a" "option_or None b = b"
  by (simp_all add: option_or_def split: option.split)

text \<open>One case for each kind of event.\<close>

lemma follows_aborted:
  assumes "follows acc cl g args" and "be_payload e = Some (AbortedPayload reason description)"
    and "short_event e" and t: "\<not> ac_truncated (observe_payload e acc)"
  shows "follows (observe_payload e acc) (collect_event e cl) (gather_event e g) (canonical_step e args) \<and>
    \<not> ac_truncated acc"
proof -
  let ?d = "aborted_diagnostic (be_id e) reason description"
  have run: "observe_payload e acc = reserved 1 (length (diag_message ?d) + opt_len (diag_target ?d))
      (\<lambda>acc. acc\<lparr>ac_diagnostics := ac_diagnostics acc @ [?d]\<rparr>) acc"
    using assms(2,3) by (simp add: observe_payload_def short_event_def bounded_text_def Let_def)
  show ?thesis
    using reserved_paid [OF t [unfolded run]] assms(1,2) follows_paid
    unfolding run
    by (fastforce simp: follows_def collect_event_def gather_event_def canonical_step_def canonical_of_def
        paid_def)
qed

lemma follows_action:
  assumes f: "follows acc cl g args" and e: "be_payload e = Some (ActionPayload a)"
    and t: "\<not> ac_truncated (observe_payload e acc)"
  shows "follows (observe_payload e acc) (collect_event e cl) (gather_event e g) (canonical_step e args) \<and>
    \<not> ac_truncated acc"
proof (cases "av_success a")
  case True
  then show ?thesis
    using f e t by (simp add: observe_payload_def observe_action_def collect_event_def gather_event_def
        canonical_step_def canonical_of_def)
next
  case False
  let ?d = "action_diagnostic (be_id e) a"
  let ?acc1 = "push_diagnostic ?d acc"
  let ?out = "case av_primary_output a of None \<Rightarrow> [] | Some f \<Rightarrow> [f]"
  have run: "observe_payload e acc = fold push_file ?out ?acc1"
    using e False by (simp add: observe_payload_def observe_action_def split: option.split)
  have one: "paid (?acc1\<lparr>ac_direct_artifacts := ac_direct_artifacts ?acc1 @ artifacts_of ?out\<rparr>)
      (observe_payload e acc)" "\<not> ac_truncated ?acc1"
    using push_files_paid [OF t [unfolded run]] unfolding run by auto
  have two: "paid (acc\<lparr>ac_diagnostics := ac_diagnostics acc @ [?d]\<rparr>) ?acc1" "\<not> ac_truncated acc"
    using reserved_paid [OF one(2) [unfolded push_diagnostic_def]] by (simp_all add: push_diagnostic_def)
  have "follows (?acc1\<lparr>ac_direct_artifacts := ac_direct_artifacts ?acc1 @ artifacts_of ?out\<rparr>)
      (collect_event e cl) (gather_event e g) (canonical_step e args)"
    using f e False two(1)
    by (auto simp: follows_def collect_event_def gather_event_def canonical_step_def canonical_of_def
        paid_def)
  then show ?thesis using follows_paid [OF one(1)] two(2) by simp
qed

lemma follows_completed:
  assumes f: "follows acc cl g args" and e: "be_payload e = Some (CompletedPayload c)" and s: "short_event e"
    and t: "\<not> ac_truncated (observe_payload e acc)"
  shows "follows (observe_payload e acc) (collect_event e cl) (gather_event e g) (canonical_step e args) \<and>
    \<not> ac_truncated acc"
proof -
  let ?t = "completed_target (be_id e) c"
  let ?acc1 = "reserved (Suc 0) (length (tr_label ?t)) (\<lambda>acc. acc\<lparr>ac_targets := ac_targets acc @ [?t]\<rparr>) acc"
  let ?acc2 = "fold push_group (cv_output_group c) ?acc1"
  let ?files = "cv_important_output c @ cv_directory_output c"
  have run: "observe_payload e acc = fold push_file ?files ?acc2"
    using e by (simp add: observe_payload_def observe_completed_def Let_def)
  have one: "paid (?acc2\<lparr>ac_direct_artifacts := ac_direct_artifacts ?acc2 @ artifacts_of ?files\<rparr>)
      (observe_payload e acc)" "\<not> ac_truncated ?acc2"
    using push_files_paid [OF t [unfolded run]] unfolding run by auto
  have "\<forall>g \<in> set (cv_output_group c). \<forall>ident \<in> set (og_file_sets g). length ident \<le> 4096"
    using s e by (simp add: short_event_def)
  then have two: "paid (?acc1\<lparr>ac_artifact_roots := ac_artifact_roots ?acc1 @ concat (map og_file_sets (cv_output_group c)),
      ac_direct_artifacts := ac_direct_artifacts ?acc1 @ artifacts_of (concat (map og_inline_files (cv_output_group c)))\<rparr>)
      ?acc2" "\<not> ac_truncated ?acc1"
    using push_groups_paid [OF one(2)] by auto
  have three: "paid (acc\<lparr>ac_targets := ac_targets acc @ [?t]\<rparr>) ?acc1" "\<not> ac_truncated acc"
    using reserved_paid [OF two(2)] by simp_all
  have fields: "ac_diagnostics ?acc2 = ac_diagnostics acc" "ac_targets ?acc2 = ac_targets acc @ [?t]"
    "ac_tests ?acc2 = ac_tests acc"
    "ac_artifact_roots ?acc2 = ac_artifact_roots acc @ concat (map og_file_sets (cv_output_group c))"
    "ac_direct_artifacts ?acc2 =
       ac_direct_artifacts acc @ artifacts_of (concat (map og_inline_files (cv_output_group c)))"
    "ac_named_sets ?acc2 = ac_named_sets acc" "ac_canonical_arguments ?acc2 = ac_canonical_arguments acc"
    using two(1) three(1) by (auto simp: paid_def)
  have "follows (?acc2\<lparr>ac_direct_artifacts := ac_direct_artifacts ?acc2 @ artifacts_of ?files\<rparr>)
      (collect_event e cl) (gather_event e g) (canonical_step e args)"
    using f e by (simp add: follows_def collect_event_def gather_event_def canonical_step_def canonical_of_def
        fields)
  then show ?thesis using follows_paid [OF one(1)] three(2) by simp
qed

lemma follows_test_summary:
  assumes f: "follows acc cl g args" and e: "be_payload e = Some (TestSummaryPayload v)"
    and t: "\<not> ac_truncated (observe_payload e acc)"
  shows "follows (observe_payload e acc) (collect_event e cl) (gather_event e g) (canonical_step e args) \<and>
    \<not> ac_truncated acc"
proof -
  let ?label = "test_label_of (be_id e)"
  let ?test = "summarized_test ?label v"
  let ?d = "test_outcome_diagnostic ?label (test_status_from (tv_overall_status v))"
  let ?ds = "case ?d of None \<Rightarrow> [] | Some d \<Rightarrow> [d]"
  let ?acc1 = "case ?d of None \<Rightarrow> acc | Some d \<Rightarrow> reserved 1 (length (diag_message d) + opt_len (diag_target d))
      (\<lambda>acc. acc\<lparr>ac_diagnostics := ac_diagnostics acc @ [d]\<rparr>) acc"
  let ?u = "\<lambda>acc. acc\<lparr>ac_tests := ac_tests acc @ [?test]\<rparr>"
  let ?n = "length (test_label ?test) + opt_len (test_log_unavailable_reason ?test)"
  have run: "observe_payload e acc = reserved 1 ?n ?u ?acc1"
    using e by (simp add: observe_payload_def observe_test_summary_def Let_def)
  have one: "paid (?u ?acc1) (observe_payload e acc)" "\<not> ac_truncated ?acc1"
    using reserved_paid [OF t [unfolded run]] unfolding run by simp_all
  have two: "paid (acc\<lparr>ac_diagnostics := ac_diagnostics acc @ ?ds\<rparr>) ?acc1 \<and> \<not> ac_truncated acc"
  proof (cases ?d)
    case None
    then show ?thesis using one(2) by (simp add: paid_refl)
  next
    case (Some d)
    then show ?thesis
      using one(2) reserved_paid [of 1 "length (diag_message d) + opt_len (diag_target d)"
          "\<lambda>acc. acc\<lparr>ac_diagnostics := ac_diagnostics acc @ [d]\<rparr>" acc] by simp
  qed
  have "follows (?u ?acc1) (collect_event e cl) (gather_event e g) (canonical_step e args)"
    using f e two
    by (auto simp: follows_def collect_event_def gather_event_def canonical_step_def canonical_of_def
        paid_def Let_def)
  then show ?thesis using follows_paid [OF one(1)] two by simp
qed

lemma follows_test_result:
  assumes f: "follows acc cl g args" and e: "be_payload e = Some (TestResultPayload status files)"
    and t: "\<not> ac_truncated (observe_payload e acc)"
  shows "follows (observe_payload e acc) (collect_event e cl) (gather_event e g) (canonical_step e args) \<and>
    \<not> ac_truncated acc"
proof -
  let ?acc1 = "acc\<lparr>ac_run := (ac_run acc)\<lparr>test_result_seen := True\<rparr>\<rparr>"
  let ?ins = "\<lambda>label t acc. acc\<lparr>ac_test_attempts :=
      fmupd label (observe_attempt (test_status_from status) t) (ac_test_attempts acc)\<rparr>"
  let ?acc2 = "case label_from_id (be_id e) of None \<Rightarrow> ?acc1
      | Some label \<Rightarrow> (case fmlookup (ac_test_attempts ?acc1) label of
           Some t \<Rightarrow> ?ins label t ?acc1
         | None \<Rightarrow> reserved 1 (length label) (?ins label attempt_default) ?acc1)"
  have run: "observe_payload e acc = fold push_file files ?acc2"
    using e by (simp add: observe_payload_def observe_test_result_def Let_def)
  have one: "paid (?acc2\<lparr>ac_direct_artifacts := ac_direct_artifacts ?acc2 @ artifacts_of files\<rparr>)
      (observe_payload e acc)" "\<not> ac_truncated ?acc2"
    using push_files_paid [OF t [unfolded run]] unfolding run by auto
  have two: "follows ?acc2 cl g args \<and> \<not> ac_truncated acc"
  proof (cases "label_from_id (be_id e)")
    case None
    then show ?thesis using f one(2) by simp
  next
    case label: (Some label)
    show ?thesis
    proof (cases "fmlookup (ac_test_attempts acc) label")
      case (Some x)
      then show ?thesis using f one(2) label by simp
    next
      case None
      then have acc2: "?acc2 = reserved 1 (length label) (?ins label attempt_default) ?acc1" using label by simp
      have "paid (?ins label attempt_default ?acc1) ?acc2" "\<not> ac_truncated ?acc1"
        using reserved_paid [OF one(2) [unfolded acc2]] unfolding acc2 by simp_all
      then show ?thesis using follows_paid f by simp
    qed
  qed
  then have "follows (?acc2\<lparr>ac_direct_artifacts := ac_direct_artifacts ?acc2 @ artifacts_of files\<rparr>)
      (collect_event e cl) (gather_event e g) (canonical_step e args)"
    using e by (simp add: follows_def collect_event_def gather_event_def canonical_step_def canonical_of_def)
  then show ?thesis using follows_paid [OF one(1)] two by simp
qed

lemma bounded_text_short: "length v \<le> n \<Longrightarrow> bounded_text v n = v"
  by (simp add: bounded_text_def)

lemma follows_named_set:
  assumes f: "follows acc cl g args" and e: "be_payload e = Some (NamedSetPayload files sets)" and s: "short_event e"
    and t: "\<not> ac_truncated (observe_payload e acc)"
  shows "follows (observe_payload e acc) (collect_event e cl) (gather_event e g) (canonical_step e args) \<and>
    \<not> ac_truncated acc"
proof (cases "\<exists>named. be_id e = Some (NamedSetId named)")
  case False
  then have "observe_payload e acc = acc" "gather_event e g = g"
    using e by (auto simp: observe_payload_def observe_named_set_def gather_event_def split: option.splits event_id.splits)
  then show ?thesis using f e t by (simp add: collect_event_def canonical_step_def canonical_of_def)
next
  case True
  then obtain named where named: "be_id e = Some (NamedSetId named)" by blast
  let ?s = "\<lparr>ns_files = artifacts_of files, ns_children = sets\<rparr>"
  let ?u = "\<lambda>acc. acc\<lparr>ac_named_sets := fmupd named ?s (ac_named_sets acc)\<rparr>"
  have "map (\<lambda>i. bounded_text i (4 * 1024)) sets = sets" "bounded_text named (4 * 1024) = named"
    using s e named by (simp_all add: short_event_def bounded_text_def map_idI)
  then have run: "observe_payload e acc = reserved (named_set_items ?s) (named_set_bytes named ?s) ?u acc"
    using e named by (simp add: observe_payload_def observe_named_set_def Let_def artifacts_of_def)
  have one: "paid (?u acc) (observe_payload e acc)" "\<not> ac_truncated acc"
    using reserved_paid [OF t [unfolded run]] unfolding run by simp_all
  have "fmmap own_set (fmupd named \<lparr>ns_files = files, ns_children = sets\<rparr> (ga_sets g)) =
      fmupd named ?s (fmmap own_set (ga_sets g))"
    by (simp add: own_set_def fmmap_fmupd)
  then have "follows (?u acc) (collect_event e cl) (gather_event e g) (canonical_step e args)"
    using f e named
    by (simp add: follows_def collect_event_def gather_event_def canonical_step_def canonical_of_def)
  then show ?thesis using follows_paid [OF one(1)] one(2) by simp
qed

lemma follows_options:
  assumes f: "follows acc cl g args" and e: "be_payload e = Some (OptionsParsedPayload startup cmd_line)"
    and s: "short_event e" and t: "\<not> ac_truncated (observe_payload e acc)"
  shows "follows (observe_payload e acc) (collect_event e cl) (gather_event e g) (canonical_step e args) \<and>
    \<not> ac_truncated acc"
proof (cases args)
  case (Some a)
  then have "observe_payload e acc = acc"
    using f e by (simp add: observe_payload_def observe_options_def follows_def)
  then show ?thesis
    using f e t Some by (simp add: collect_event_def gather_event_def canonical_step_def option_or_def)
next
  case None
  let ?a = "startup @ cmd_line"
  let ?u = "\<lambda>acc. acc\<lparr>ac_canonical_arguments := Some ?a\<rparr>"
  have same: "map (\<lambda>v. bounded_text v (64 * 1024)) startup = startup"
    "map (\<lambda>v. bounded_text v (64 * 1024)) cmd_line = cmd_line"
    using s e by (auto simp: short_event_def bounded_text_def intro!: map_idI)
  have run: "observe_payload e acc = reserved (length ?a) (sum_list (map length ?a)) ?u acc"
  proof -
    have "observe_options startup cmd_line acc = reserved (length ?a) (sum_list (map length ?a)) ?u acc"
      using f None unfolding observe_options_def Let_def map_append same by (simp add: follows_def)
    then show ?thesis using e by (simp add: observe_payload_def)
  qed
  have one: "paid (?u acc) (observe_payload e acc)" "\<not> ac_truncated acc"
    using reserved_paid [OF t [unfolded run]] unfolding run by simp_all
  have "follows (?u acc) (collect_event e cl) (gather_event e g) (canonical_step e args)"
    using f e None
    by (simp add: follows_def collect_event_def gather_event_def canonical_step_def canonical_of_def)
  then show ?thesis using follows_paid [OF one(1)] one(2) by simp
qed

lemmas follows_events =
  follows_aborted follows_action follows_completed follows_test_summary follows_test_result
  follows_named_set follows_options

lemma follows_payload:
  assumes f: "follows acc cl g args" and s: "short_event e" and t: "\<not> ac_truncated (observe_payload e acc)"
  shows "follows (observe_payload e acc) (collect_event e cl) (gather_event e g) (canonical_step e args) \<and>
    \<not> ac_truncated acc"
proof (cases "be_payload e")
  case None
  then show ?thesis
    using f t by (simp add: observe_payload_def collect_event_def gather_event_def canonical_step_def canonical_of_def)
next
  case (Some p)
  have rest: ?thesis if "p = FinishedPayload x \<or> p = ExecRequestPayload x \<or> p = OtherPayload" for x
    using f t Some that
    by (auto simp: observe_payload_def collect_event_def gather_event_def canonical_step_def canonical_of_def)
  show ?thesis
    using follows_events [OF f] s t Some rest by (cases p) auto
qed

lemma observe_extension_follows:
  "follows (observe_extension_event n e acc) cl g args = follows acc cl g args"
  "ac_truncated (observe_extension_event n e acc) = ac_truncated acc"
  by (auto simp: observe_extension_event_def split: option.split)

lemma follows_view:
  assumes "follows acc cl g args" and "short_event e" and "\<not> ac_truncated (observe_view e acc)"
  shows "follows (observe_view e acc) (collect_event e cl) (gather_event e g) (canonical_step e args) \<and>
    \<not> ac_truncated acc"
  using follows_payload [of "observe_extension_event (ac_next_ordinal acc) e
      (acc\<lparr>ac_next_ordinal := sat_add (ac_next_ordinal acc) 1\<rparr>)" cl g args e] assms
  by (simp add: observe_view_def observe_extension_follows Let_def)

section \<open>The bounds of the accumulator\<close>

text \<open>What an accumulator holds, counted and weighed as \<^verbatim>\<open>reserve\<close> is charged for it.\<close>

definition set_items :: "owned_named_set \<Rightarrow> nat" where
  "set_items s = 1 + length (ns_files s) + length (ns_children s)"

definition held_items :: "bep_accumulator \<Rightarrow> nat" where
  "held_items acc =
     length (ac_diagnostics acc) + length (ac_targets acc) + length (ac_tests acc) +
     fcard (fmdom (ac_test_attempts acc)) +
     (\<Sum>k \<in> fset (fmdom (ac_named_sets acc)). set_items (the (fmlookup (ac_named_sets acc) k))) +
     length (ac_artifact_roots acc) + length (ac_direct_artifacts acc) +
     (case ac_canonical_arguments acc of None \<Rightarrow> 0 | Some a \<Rightarrow> length a)"

definition held_bytes :: "bep_accumulator \<Rightarrow> nat" where
  "held_bytes acc =
     sum_list (map diagnostic_bytes (ac_diagnostics acc)) +
     sum_list (map (length \<circ> tr_label) (ac_targets acc)) +
     sum_list (map (\<lambda>t. length (test_label t) + opt_len (test_log_unavailable_reason t)) (ac_tests acc)) +
     (\<Sum>k \<in> fset (fmdom (ac_test_attempts acc)). length k) +
     (\<Sum>k \<in> fset (fmdom (ac_named_sets acc)). named_set_bytes k (the (fmlookup (ac_named_sets acc) k))) +
     sum_list (map length (ac_artifact_roots acc)) + sum_list (map artifact_bytes (ac_direct_artifacts acc)) +
     (case ac_canonical_arguments acc of None \<Rightarrow> 0 | Some a \<Rightarrow> sum_list (map length a))"

definition within_account :: "bep_accumulator \<Rightarrow> bool" where
  "within_account acc \<longleftrightarrow>
     held_items acc \<le> ac_retained_items acc \<and> ac_retained_items acc \<le> STREAM_MAX_ITEMS \<and>
     held_bytes acc \<le> ac_retained_bytes acc \<and> ac_retained_bytes acc \<le> STREAM_MAX_RETAINED_BYTES"

text \<open>An update that adds at most so many items and bytes, and one that stays within the account.\<close>

definition costs :: "nat \<Rightarrow> nat \<Rightarrow> (bep_accumulator \<Rightarrow> bep_accumulator) \<Rightarrow> bep_accumulator \<Rightarrow> bool" where
  "costs items bytes f acc \<longleftrightarrow>
     (\<forall>i b. held_items (f (charge i b acc)) \<le> held_items acc + items \<and>
       held_bytes (f (charge i b acc)) \<le> held_bytes acc + bytes \<and>
       ac_retained_items (f (charge i b acc)) = i \<and> ac_retained_bytes (f (charge i b acc)) = b \<and>
       ac_truncated (f (charge i b acc)) = ac_truncated acc)"

definition bounded_step :: "bep_accumulator \<Rightarrow> bep_accumulator \<Rightarrow> bool" where
  "bounded_step acc acc' \<longleftrightarrow>
     (within_account acc \<longrightarrow> within_account acc') \<and> (ac_truncated acc \<longrightarrow> ac_truncated acc')"

lemma bounded_step_refl [simp]: "bounded_step acc acc"
  by (simp add: bounded_step_def)

lemma bounded_step_trans: "bounded_step a b \<Longrightarrow> bounded_step b c \<Longrightarrow> bounded_step a c"
  by (simp add: bounded_step_def)

lemma bounded_step_fold:
  "(\<And>x a. x \<in> set xs \<Longrightarrow> bounded_step a (f x a)) \<Longrightarrow> bounded_step acc (fold f xs acc)"
proof (induction xs arbitrary: acc)
  case (Cons x xs)
  then show ?case using bounded_step_trans [of acc "f x acc" "fold f xs (f x acc)"] by simp
qed simp

lemma STREAM_MAX_less: "STREAM_MAX_ITEMS < u64_max" "STREAM_MAX_RETAINED_BYTES < u64_max"
  by (simp_all add: u64_max_def STREAM_MAX_ITEMS_def STREAM_MAX_RETAINED_BYTES_def)

lemma sat_add_within: "sat_add a b \<le> m \<Longrightarrow> m < u64_max \<Longrightarrow> sat_add a b = a + b"
  by (auto simp: sat_add_def min_def split: if_splits)

lemma reserved_bounded:
  assumes "\<lbrakk>items \<le> STREAM_MAX_ITEMS; bytes \<le> STREAM_MAX_RETAINED_BYTES\<rbrakk> \<Longrightarrow> costs items bytes f acc"
  shows "bounded_step acc (reserved items bytes f acc)"
proof (cases "STREAM_MAX_ITEMS < sat_add (ac_retained_items acc) items \<or>
    STREAM_MAX_RETAINED_BYTES < sat_add (ac_retained_bytes acc) bytes")
  case True
  then show ?thesis
    by (simp add: bounded_step_def reserved_def reserve_def within_account_def held_items_def held_bytes_def)
next
  case False
  then have fit: "sat_add (ac_retained_items acc) items \<le> STREAM_MAX_ITEMS"
    "sat_add (ac_retained_bytes acc) bytes \<le> STREAM_MAX_RETAINED_BYTES" by simp_all
  note sums = sat_add_within [OF fit(1) STREAM_MAX_less(1)] sat_add_within [OF fit(2) STREAM_MAX_less(2)]
  with False have "costs items bytes f acc" using assms by (simp add: not_less)
  moreover have "reserved items bytes f acc = f (charge (ac_retained_items acc + items) (ac_retained_bytes acc + bytes) acc)"
    using False sums by (simp add: reserved_def reserve_def charge_def)
  ultimately have "held_items (reserved items bytes f acc) \<le> held_items acc + items"
    "held_bytes (reserved items bytes f acc) \<le> held_bytes acc + bytes"
    "ac_retained_items (reserved items bytes f acc) = ac_retained_items acc + items"
    "ac_retained_bytes (reserved items bytes f acc) = ac_retained_bytes acc + bytes"
    "ac_truncated (reserved items bytes f acc) = ac_truncated acc"
    by (simp_all add: costs_def)
  then show ?thesis using False sums by (auto simp: bounded_step_def within_account_def)
qed

text \<open>What the updates cost.\<close>

lemma sum_fmupd_le:
  fixes w :: "'a \<Rightarrow> 'b \<Rightarrow> nat"
  shows "(\<Sum>k \<in> fset (fmdom (fmupd key v m)). w k (the (fmlookup (fmupd key v m) k))) \<le>
    (\<Sum>k \<in> fset (fmdom m). w k (the (fmlookup m k))) + w key v"
proof -
  have split: "fset (fmdom (fmupd key v m)) = insert key (fset (fmdom m) - {key})" by auto
  have "(\<Sum>k \<in> fset (fmdom (fmupd key v m)). w k (the (fmlookup (fmupd key v m) k))) =
      w key v + (\<Sum>k \<in> fset (fmdom m) - {key}. w k (the (fmlookup (fmupd key v m) k)))"
    unfolding split by (subst sum.insert) auto
  also have "(\<Sum>k \<in> fset (fmdom m) - {key}. w k (the (fmlookup (fmupd key v m) k))) =
      (\<Sum>k \<in> fset (fmdom m) - {key}. w k (the (fmlookup m k)))"
    by (rule sum.cong) auto
  also have "\<dots> \<le> (\<Sum>k \<in> fset (fmdom m). w k (the (fmlookup m k)))"
    by (rule sum_mono2) auto
  finally show ?thesis by simp
qed

lemma costs_append:
  "diagnostic_bytes d \<le> n \<Longrightarrow> costs 1 n (\<lambda>acc. acc\<lparr>ac_diagnostics := ac_diagnostics acc @ [d]\<rparr>) acc"
  "length (tr_label t) \<le> n \<Longrightarrow> costs 1 n (\<lambda>acc. acc\<lparr>ac_targets := ac_targets acc @ [t]\<rparr>) acc"
  "costs 1 (length (test_label u) + opt_len (test_log_unavailable_reason u))
     (\<lambda>acc. acc\<lparr>ac_tests := ac_tests acc @ [u]\<rparr>) acc"
  "costs 1 (length r) (\<lambda>acc. acc\<lparr>ac_artifact_roots := ac_artifact_roots acc @ [r]\<rparr>) acc"
  "costs 1 (artifact_bytes a) (\<lambda>acc. acc\<lparr>ac_direct_artifacts := ac_direct_artifacts acc @ [a]\<rparr>) acc"
  by (simp_all add: costs_def held_items_def held_bytes_def charge_def)

lemmas costs_append_Suc = costs_append [unfolded One_nat_def]

lemma costs_attempt:
  assumes "fmlookup (ac_test_attempts acc) label = None"
  shows "costs 1 (length label) (\<lambda>acc. acc\<lparr>ac_test_attempts := fmupd label (g (ac_test_attempts acc)) (ac_test_attempts acc)\<rparr>) acc"
proof -
  have "label |\<notin>| fmdom (ac_test_attempts acc)" using assms by (simp add: fmdom_notI)
  then show ?thesis
    by (simp add: costs_def held_items_def held_bytes_def charge_def fcard_finsert_disjoint)
qed

lemma costs_named_set:
  assumes "named_set_items s \<le> STREAM_MAX_ITEMS"
  shows "costs (named_set_items s) (named_set_bytes key s)
    (\<lambda>acc. acc\<lparr>ac_named_sets := fmupd key s (ac_named_sets acc)\<rparr>) acc"
proof -
  have "named_set_items s = set_items s"
    using assms STREAM_MAX_less(1) by (auto simp: named_set_items_def set_items_def sat_add_def min_def split: if_splits)
  then show ?thesis
    using sum_fmupd_le [of "\<lambda>_. set_items" key s "ac_named_sets acc"]
      sum_fmupd_le [of named_set_bytes key s "ac_named_sets acc"]
    by (simp add: costs_def held_items_def held_bytes_def charge_def)
qed

lemma costs_arguments:
  "ac_canonical_arguments acc = None \<Longrightarrow>
   costs (length a) (sum_list (map length a)) (\<lambda>acc. acc\<lparr>ac_canonical_arguments := Some a\<rparr>) acc"
  by (simp add: costs_def held_items_def held_bytes_def charge_def)

text \<open>Every operation stays within the account.\<close>

lemma bounded_step_free [simp]:
  "bounded_step acc (acc\<lparr>ac_run := r\<rparr>)" "bounded_step acc (acc\<lparr>ac_next_ordinal := n\<rparr>)"
  "bounded_step acc (acc\<lparr>ac_extension := x\<rparr>)"
  by (simp_all add: bounded_step_def within_account_def held_items_def held_bytes_def)

lemma push_bounded:
  "bounded_step acc (push_diagnostic d acc)" "bounded_step acc (push_root r acc)"
  "bounded_step acc (push_direct_artifact a acc)"
  unfolding push_diagnostic_def push_root_def push_direct_artifact_def Let_def
  by (auto intro!: reserved_bounded costs_append_Suc)

lemma push_file_bounded: "bounded_step acc (push_file f acc)"
  by (auto simp: push_file_def push_bounded split: option.split)

lemma push_group_bounded: "bounded_step acc (push_group g acc)"
  unfolding push_group_def
  by (rule bounded_step_trans [OF bounded_step_fold bounded_step_fold]) (rule push_bounded push_file_bounded)+

lemma observe_completed_bounded: "bounded_step acc (observe_completed ident c acc)"
proof -
  let ?t = "completed_target ident c"
  let ?acc1 = "reserved 1 (length (tr_label ?t)) (\<lambda>acc. acc\<lparr>ac_targets := ac_targets acc @ [?t]\<rparr>) acc"
  have 1: "bounded_step acc ?acc1" by (rule reserved_bounded, rule costs_append) simp
  have 2: "bounded_step ?acc1 (fold push_group (cv_output_group c) ?acc1)"
    by (rule bounded_step_fold, rule push_group_bounded)
  show ?thesis
    unfolding observe_completed_def Let_def
    by (rule bounded_step_trans [OF 1], rule bounded_step_trans [OF 2], rule bounded_step_fold, rule push_file_bounded)
qed

lemma observe_test_summary_bounded: "bounded_step acc (observe_test_summary ident v acc)"
proof -
  let ?d = "test_outcome_diagnostic (test_label_of ident) (test_status_from (tv_overall_status v))"
  let ?acc1 = "case ?d of None \<Rightarrow> acc
     | Some d \<Rightarrow> reserved 1 (length (diag_message d) + opt_len (diag_target d))
         (\<lambda>acc. acc\<lparr>ac_diagnostics := ac_diagnostics acc @ [d]\<rparr>) acc"
  have "diagnostic_bytes d = length (diag_message d) + opt_len (diag_target d)" if "?d = Some d" for d
    using that by (auto simp: test_outcome_diagnostic_def diagnostic_bytes_def opt_len_def Let_def split: test_status.splits)
  then have 1: "bounded_step acc ?acc1"
    by (auto split: option.split intro!: reserved_bounded costs_append_Suc)
  show ?thesis
    unfolding observe_test_summary_def Let_def
    by (rule bounded_step_trans [OF 1], rule reserved_bounded, rule costs_append)
qed

lemma within_account_attempt:
  assumes "fmlookup (ac_test_attempts acc) label = Some t"
  shows "bounded_step acc (acc\<lparr>ac_test_attempts := fmupd label v (ac_test_attempts acc)\<rparr>)"
proof -
  have "fmdom (fmupd label v (ac_test_attempts acc)) = fmdom (ac_test_attempts acc)"
    using assms by (auto simp: fmdomI)
  then show ?thesis
    by (simp add: bounded_step_def within_account_def held_items_def held_bytes_def del: fmdom_fmupd)
qed

lemma observe_test_result_bounded: "bounded_step acc (observe_test_result ident status files acc)"
proof -
  let ?acc1 = "acc\<lparr>ac_run := (ac_run acc)\<lparr>test_result_seen := True\<rparr>\<rparr>"
  let ?ins = "\<lambda>label t acc. acc\<lparr>ac_test_attempts :=
      fmupd label (observe_attempt (test_status_from status) t) (ac_test_attempts acc)\<rparr>"
  let ?acc2 = "case label_from_id ident of None \<Rightarrow> ?acc1
      | Some label \<Rightarrow> (case fmlookup (ac_test_attempts ?acc1) label of
           Some t \<Rightarrow> ?ins label t ?acc1
         | None \<Rightarrow> reserved 1 (length label) (?ins label attempt_default) ?acc1)"
  have 1: "bounded_step ?acc1 ?acc2"
  proof (cases "label_from_id ident")
    case label: (Some label)
    show ?thesis
    proof (cases "fmlookup (ac_test_attempts ?acc1) label")
      case None
      then show ?thesis
        using label reserved_bounded [OF costs_attempt [of ?acc1 label]] by simp
    next
      case (Some t)
      then show ?thesis using label within_account_attempt [of ?acc1 label t] by simp
    qed
  qed simp
  show ?thesis
    unfolding observe_test_result_def Let_def
    by (rule bounded_step_trans [OF bounded_step_trans [OF bounded_step_free(1) 1]], rule bounded_step_fold,
        rule push_file_bounded)
qed

lemma observe_named_set_bounded: "bounded_step acc (observe_named_set ident files sets acc)"
  unfolding observe_named_set_def Let_def
  by (auto split: option.split event_id.split intro!: reserved_bounded costs_named_set)

lemma observe_options_bounded: "bounded_step acc (observe_options startup cmd_line acc)"
proof (cases "ac_canonical_arguments acc")
  case None
  then show ?thesis
    using reserved_bounded [OF costs_arguments [of acc "map (\<lambda>v. bounded_text v (64 * 1024)) (startup @ cmd_line)"]]
    by (simp add: observe_options_def Let_def)
qed (simp add: observe_options_def)

lemma observe_action_bounded: "bounded_step acc (observe_action ident a acc)"
  using bounded_step_trans [OF push_bounded(1) push_file_bounded]
  by (auto simp: observe_action_def Let_def push_bounded split: option.split)

lemma observe_aborted_bounded:
  "bounded_step acc (reserved 1 (length (diag_message (aborted_diagnostic ident reason m)) +
      opt_len (diag_target (aborted_diagnostic ident reason m)))
     (\<lambda>acc. acc\<lparr>ac_diagnostics := ac_diagnostics acc @ [aborted_diagnostic ident reason m]\<rparr>) acc)"
  by (rule reserved_bounded, rule costs_append)
    (simp add: diagnostic_bytes_def aborted_diagnostic_def opt_len_def Let_def)

lemmas observe_bounded =
  observe_completed_bounded observe_test_summary_bounded observe_test_result_bounded
  observe_named_set_bounded observe_options_bounded observe_action_bounded observe_aborted_bounded

lemma observe_payload_bounded: "bounded_step acc (observe_payload e acc)"
proof (cases "be_payload e")
  case (Some p)
  then show ?thesis
    unfolding observe_payload_def Let_def
    by (cases p) (simp_all only: option.case payload.case observe_bounded bounded_step_free bounded_step_refl)
qed (simp add: observe_payload_def)

lemma observe_extension_event_bounded: "bounded_step acc (observe_extension_event n e acc)"
  by (auto simp: observe_extension_event_def split: option.split)

lemma observe_view_bounded: "bounded_step acc (observe_view e acc)"
  unfolding observe_view_def Let_def
  by (rule bounded_step_trans [OF bounded_step_trans [OF bounded_step_free(2) observe_extension_event_bounded]
        observe_payload_bounded])

lemma observe_all_bounded: "bounded_step acc (observe_all es acc)"
  unfolding observe_all_def by (rule bounded_step_fold, rule observe_view_bounded)

section \<open>The whole stream\<close>

definition nothing_collected :: collected where
  "nothing_collected = \<lparr>cl_diagnostics = [], cl_targets = [], cl_tests = []\<rparr>"

definition nothing_gathered :: gathered where
  "nothing_gathered = \<lparr>ga_sets = fmempty, ga_roots = [], ga_direct = []\<rparr>"

lemma extract_canonical_Cons:
  "option_or args (extract_canonical_arguments (e # es)) =
     option_or (canonical_step e args) (extract_canonical_arguments es)"
  by (simp add: canonical_step_def option_or_def split: option.split)

lemma follows_all:
  assumes "follows acc cl g args" and "\<forall>e \<in> set es. short_event e"
    and "\<not> ac_truncated (observe_all es acc)"
  shows "follows (observe_all es acc) (fold collect_event es cl) (fold gather_event es g)
    (option_or args (extract_canonical_arguments es))"
  using assms
proof (induction es arbitrary: acc cl g args)
  case Nil
  then show ?case by (simp add: observe_all_def)
next
  case (Cons e es)
  have all: "observe_all (e # es) acc = observe_all es (observe_view e acc)" by (simp add: observe_all_def)
  have "\<not> ac_truncated (observe_view e acc)"
    using Cons.prems(3) observe_all_bounded [of "observe_view e acc" es]
    unfolding all bounded_step_def by blast
  then have "follows (observe_view e acc) (collect_event e cl) (gather_event e g) (canonical_step e args)"
    using follows_view Cons.prems by simp
  from Cons.IH [OF this] show ?case
    using Cons.prems unfolding extract_canonical_Cons all by simp
qed

lemma own_set_simps [simp]:
  "ns_files (own_set s) = artifacts_of (ns_files s)" "ns_children (own_set s) = ns_children s"
  by (simp_all add: own_set_def)

lemma resolve_loop_Nil [simp]: "resolve_loop sets [] visited artifacts = artifacts"
  by (simp add: resolve_loop.simps)

lemma resolve_loop_snoc:
  "resolve_loop sets (rest @ [ident]) visited artifacts =
     (if ident |\<in>| visited then resolve_loop sets rest visited artifacts
      else case fmlookup sets ident of
             None \<Rightarrow> resolve_loop sets rest (finsert ident visited) artifacts
           | Some s \<Rightarrow>
               resolve_loop sets (rest @ ns_children s) (finsert ident visited) (artifacts @ ns_files s))"
  by (subst resolve_loop.simps) (simp add: Let_def)

text \<open>Induction over the turns of the loop.\<close>

lemma resolve_loop_turns [case_names stop again missing expand]:
  fixes sets :: "(string, 'f named_set) fmap"
  assumes "\<And>visited artifacts. P [] visited artifacts"
    and "\<And>rest ident visited artifacts. ident |\<in>| visited \<Longrightarrow> P rest visited artifacts \<Longrightarrow>
      P (rest @ [ident]) visited artifacts"
    and "\<And>rest ident visited artifacts. ident |\<notin>| visited \<Longrightarrow> fmlookup sets ident = None \<Longrightarrow>
      P rest (finsert ident visited) artifacts \<Longrightarrow> P (rest @ [ident]) visited artifacts"
    and "\<And>rest ident visited artifacts s. ident |\<notin>| visited \<Longrightarrow> fmlookup sets ident = Some s \<Longrightarrow>
      P (rest @ ns_children s) (finsert ident visited) (artifacts @ ns_files s) \<Longrightarrow>
      P (rest @ [ident]) visited artifacts"
  shows "P pending visited artifacts"
  using assms
proof (induction sets pending visited artifacts rule: resolve_loop.induct)
  case (1 sets pending visited artifacts)
  show ?case
  proof (cases pending rule: rev_cases)
    case Nil
    then show ?thesis using "1.prems"(1) by simp
  next
    case (snoc rest ident)
    then have p: "pending \<noteq> []" "ident = last pending" "rest = butlast pending" by simp_all
    show ?thesis
    proof (cases "ident |\<in>| visited")
      case True
      show ?thesis
        unfolding snoc by (rule "1.prems"(2) [OF True "1.IH"(1) [OF p True "1.prems"]])
    next
      case new: False
      show ?thesis
      proof (cases "fmlookup sets ident")
        case None
        show ?thesis
          unfolding snoc by (rule "1.prems"(3) [OF new None "1.IH"(2) [OF p new None "1.prems"]])
      next
        case (Some s)
        show ?thesis
          unfolding snoc by (rule "1.prems"(4) [OF new Some "1.IH"(3) [OF p new Some "1.prems"]])
      qed
    qed
  qed
qed

lemma resolve_loop_map:
  "resolve_loop (fmmap own_set sets) pending visited (artifacts_of direct) =
     artifacts_of (resolve_loop sets pending visited direct)"
  by (induction pending visited direct rule: resolve_loop_turns [of _ sets]) (simp_all add: resolve_loop_snoc)

lemma follows_default: "follows accumulator_default nothing_collected nothing_gathered None"
  by (simp add: follows_def accumulator_default_def nothing_collected_def nothing_gathered_def)

lemma follows_artifacts:
  assumes "follows acc cl g args"
  shows "resolve_artifacts acc =
    keep_first artifact_key [] (artifacts_of (resolve_loop (ga_sets g) (ga_roots g) {||} (ga_direct g)))"
  using assms by (simp add: resolve_artifacts_def follows_def resolve_loop_map)

section \<open>The artifacts that are resolved\<close>

inductive reached :: "(string, 'f named_set) fmap \<Rightarrow> string set \<Rightarrow> string \<Rightarrow> bool" for sets roots where
  reached_root: "ident \<in> roots \<Longrightarrow> reached sets roots ident"
| reached_child: "\<lbrakk>reached sets roots ident; fmlookup sets ident = Some s; child \<in> set (ns_children s)\<rbrakk> \<Longrightarrow>
    reached sets roots child"

definition reached_files :: "(string, 'f named_set) fmap \<Rightarrow> string set \<Rightarrow> 'f set" where
  "reached_files sets roots = (\<Union>{set (ns_files s) |ident s. reached sets roots ident \<and> fmlookup sets ident = Some s})"

lemma reached_mono: "reached sets roots ident \<Longrightarrow> roots \<subseteq> roots' \<Longrightarrow> reached sets roots' ident"
  by (induction rule: reached.induct) (auto intro: reached.intros)

lemma reached_files_mono: "roots \<subseteq> roots' \<Longrightarrow> reached_files sets roots \<subseteq> reached_files sets roots'"
  by (auto simp: reached_files_def intro: reached_mono)

lemma reached_expand:
  assumes "fmlookup sets ident = Some s" and "reached sets (roots \<union> set (ns_children s)) i"
  shows "reached sets (insert ident roots) i"
  using assms(2)
proof induction
  case (reached_root i)
  then show ?case using assms(1) by (auto intro: reached.intros)
qed (auto intro: reached.intros)

text \<open>Every file the loop adds belongs to a set that is reached.\<close>

lemma resolve_loop_sound:
  "set (resolve_loop sets pending visited artifacts) \<subseteq> set artifacts \<union> reached_files sets (set pending)"
proof (induction pending visited artifacts rule: resolve_loop_turns [of _ sets])
  case (expand rest ident visited artifacts s)
  have "reached_files sets (set (rest @ ns_children s)) \<subseteq> reached_files sets (set (rest @ [ident]))"
    using expand(2) reached_expand [of sets ident s "set rest"] by (auto simp: reached_files_def)
  moreover have "set (ns_files s) \<subseteq> reached_files sets (set (rest @ [ident]))"
    using expand(2) reached_root [of ident "set (rest @ [ident])" sets] by (auto simp: reached_files_def)
  ultimately show ?case using expand by (auto simp: resolve_loop_snoc)
qed (use reached_files_mono [of "set rest" "set (rest @ [ident])" sets for rest ident] in \<open>auto simp: resolve_loop_snoc\<close>)

text \<open>Every set that was expanded has its files in the result, and its children there or pending.\<close>

definition expanded :: "(string, 'f named_set) fmap \<Rightarrow> string list \<Rightarrow> string fset \<Rightarrow> 'f list \<Rightarrow> bool" where
  "expanded sets pending visited artifacts \<longleftrightarrow>
     (\<forall>ident s. ident |\<in>| visited \<longrightarrow> fmlookup sets ident = Some s \<longrightarrow>
        set (ns_files s) \<subseteq> set artifacts \<and> set (ns_children s) \<subseteq> fset visited \<union> set pending)"

lemma reached_expanded:
  "reached sets (fset visited) ident \<Longrightarrow> expanded sets [] visited artifacts \<Longrightarrow> ident |\<in>| visited"
  by (induction rule: reached.induct) (auto simp: expanded_def)

lemma resolve_loop_complete:
  "expanded sets pending visited artifacts \<Longrightarrow>
   set artifacts \<union> reached_files sets (set pending \<union> fset visited) \<subseteq>
     set (resolve_loop sets pending visited artifacts)"
proof (induction pending visited artifacts rule: resolve_loop_turns [of _ sets])
  case (stop visited artifacts)
  then show ?case
    using reached_expanded [of sets visited _ artifacts] by (auto simp: reached_files_def expanded_def)
next
  case (again rest ident visited artifacts)
  have "expanded sets rest visited artifacts"
    using again(1,3) by (auto simp: expanded_def)
  moreover have "set (rest @ [ident]) \<union> fset visited = set rest \<union> fset visited" using again(1) by auto
  ultimately show ?case using again(1,2) by (simp add: resolve_loop_snoc)
next
  case (missing rest ident visited artifacts)
  have "expanded sets rest (finsert ident visited) artifacts"
    using missing(2,4) by (auto simp: expanded_def)
  then show ?case using missing(1-3) by (simp add: resolve_loop_snoc)
next
  case (expand rest ident visited artifacts s)
  have "expanded sets (rest @ ns_children s) (finsert ident visited) (artifacts @ ns_files s)"
    using expand(2,4) by (auto simp: expanded_def)
  note expand(3) [OF this]
  moreover have "reached_files sets (set (rest @ [ident]) \<union> fset visited) \<subseteq>
      reached_files sets (set (rest @ ns_children s) \<union> fset (finsert ident visited))"
    by (rule reached_files_mono) auto
  ultimately show ?case using expand(1,2) by (auto simp: resolve_loop_snoc)
qed

lemma resolve_loop_reached:
  "set (resolve_loop sets roots {||} direct) = set direct \<union> reached_files sets (set roots)"
  using resolve_loop_sound [of sets roots "{||}" direct] resolve_loop_complete [of sets roots "{||}" direct]
  by (auto simp: expanded_def)

lemma keep_first_spec:
  "set (keep_first f seen xs) \<subseteq> set xs \<and> distinct (map f (keep_first f seen xs)) \<and>
   f ` set (keep_first f seen xs) = f ` set xs - set seen"
  by (induction f seen xs rule: keep_first.induct) auto

section \<open>The summary\<close>

lemma dedup_by_key_hd: "xs \<noteq> [] \<Longrightarrow> dedup_by_key f xs \<noteq> [] \<and> hd (dedup_by_key f xs) = hd xs"
  by (induction f xs rule: dedup_by_key.induct) auto

lemma dedup_by_key_set: "f ` set (dedup_by_key f xs) = f ` set xs"
  by (induction f xs rule: dedup_by_key.induct) auto

lemma dedup_by_key_sorted:
  fixes f :: "'a \<Rightarrow> 'k::linorder"
  assumes "sorted (map f xs)"
  shows "sorted (map f (dedup_by_key f xs)) \<and> distinct (map f (dedup_by_key f xs))"
  using assms
proof (induction f xs rule: dedup_by_key.induct)
  case (1 f x y zs)
  show ?case
  proof (cases "f x = f y")
    case True
    then show ?thesis using 1 by simp
  next
    case False
    then have less: "\<forall>z \<in> set (y # zs). f x < f z" using 1(3) by force
    have "f ` set (dedup_by_key f (y # zs)) = f ` set (y # zs)" by (rule dedup_by_key_set)
    then have "\<forall>k \<in> f ` set (dedup_by_key f (y # zs)). f x < k" using less by auto
    then show ?thesis using 1 False by (auto simp: less_imp_le)
  qed
qed auto

lemma sorted_results:
  "sorted (map tr_label (sorted_targets ts))" "distinct (map tr_label (sorted_targets ts))"
  "sorted (map test_label (sorted_tests us))" "distinct (map test_label (sorted_tests us))"
  "tr_label ` set (sorted_targets ts) = tr_label ` set ts"
  "test_label ` set (sorted_tests us) = test_label ` set us"
  using dedup_by_key_sorted [of tr_label "sort_key tr_label ts"]
    dedup_by_key_sorted [of test_label "sort_key test_label us"]
  by (simp_all add: sorted_targets_def sorted_tests_def dedup_by_key_set)

lemma count_tests_total:
  "let c = count_tests ts in tc_passed c + tc_failed c + tc_flaky c + tc_skipped c + tc_incomplete c = length ts"
proof -
  let ?total = "\<lambda>c. tc_passed c + tc_failed c + tc_flaky c + tc_skipped c + tc_incomplete c"
  have "?total (fold count_test ts c) = ?total c + length ts" for c
  proof (induction ts arbitrary: c)
    case (Cons t ts)
    have "?total (count_test t c) = Suc (?total c)"
      by (simp add: count_test_def split: test_status.split)
    then show ?case using Cons by simp
  qed simp
  then show ?thesis by (simp add: count_tests_def Let_def)
qed

lemma finalize_diagnostics_frame [simp]:
  "sum_success (finalize_diagnostics b s) = sum_success s" "sum_targets (finalize_diagnostics b s) = sum_targets s"
  "sum_tests (finalize_diagnostics b s) = sum_tests s"
  "sum_target_counts (finalize_diagnostics b s) = sum_target_counts s"
  "sum_test_counts (finalize_diagnostics b s) = sum_test_counts s"
  by (simp_all add: finalize_diagnostics_def Let_def case_prod_beta)

lemma recovered_labels:
  "map test_label (recovered_tests attempts tests) =
     filter (\<lambda>label. label \<notin> test_label ` set tests \<and>
         Option.bind (fmlookup attempts label) successful_status \<noteq> None)
       (sorted_list_of_fset (fmdom attempts))"
proof -
  have "map test_label (List.map_filter
       (\<lambda>label. if label \<in> test_label ` set tests then None
                else Option.bind (fmlookup attempts label) (recovered_test label)) labels) =
     filter (\<lambda>label. label \<notin> test_label ` set tests \<and>
         Option.bind (fmlookup attempts label) successful_status \<noteq> None) labels" for labels
    by (induction labels) (auto simp: List.map_filter_simps recovered_test_def bind_eq_Some_conv split: option.splits)
  then show ?thesis by (simp add: recovered_tests_def)
qed

lemma distinct_sort_key: "distinct (map f (sort_key f xs)) = distinct (map f xs)"
  by (metis distinct_map mset_eq_imp_distinct_iff mset_map mset_sort)

definition all_tests ::
  "bool \<Rightarrow> (string, test_attempt_outcome) fmap \<Rightarrow> test_result list \<Rightarrow> test_result list"
where
  "all_tests recover attempts tests =
     (if recover then sort_key test_label (sorted_tests tests @ recovered_tests attempts (sorted_tests tests))
      else sorted_tests tests)"

lemma all_tests_ordered:
  "sorted (map test_label (all_tests recover attempts tests)) \<and> distinct (map test_label (all_tests recover attempts tests))"
proof (cases recover)
  case True
  have "distinct (map test_label (sorted_tests tests @ recovered_tests attempts (sorted_tests tests)))"
    using sorted_results(4) [of tests] by (auto simp: recovered_labels sorted_list_of_fset.rep_eq simp flip: set_map simp del: image_set)
  then show ?thesis using True by (simp add: all_tests_def distinct_sort_key)
qed (simp add: all_tests_def sorted_results)

lemma finish_summary:
  "ro_summary (accumulator_finish td stdout stderr exit_code elapsed_ms b acc) =
     finalize_diagnostics b
       (summary_of (exit_code = Some 0) exit_code elapsed_ms (sorted_targets (ac_targets acc))
          (if exit_code = Some 0 then ac_diagnostics acc
           else ac_diagnostics acc @ td stderr @ td stdout)
          (all_tests (exit_code = Some 0 \<and> build_success (ac_run acc) = Some True) (ac_test_attempts acc) (ac_tests acc))
          (ac_truncated acc))"
  by (simp add: accumulator_finish_def Let_def all_tests_def)

text \<open>
  C35: The summary that the accumulator gives is consistent, for every stream: targets and tests are
  in the order of their labels with one result for each, the targets are those of the events that
  were kept, the counts of targets and of tests add up to the lists, and success is the exit code 0.
\<close>

theorem summary_consistent:
  "let out = accumulator_finish td stdout stderr exit_code elapsed_ms b acc; s = ro_summary out;
       c = sum_test_counts s; t = sum_target_counts s
   in sorted (map tr_label (sum_targets s)) \<and> distinct (map tr_label (sum_targets s)) \<and>
      tr_label ` set (sum_targets s) = tr_label ` set (ac_targets acc) \<and>
      sorted (map test_label (sum_tests s)) \<and> distinct (map test_label (sum_tests s)) \<and>
      tgt_requested t = length (sum_targets s) \<and> tgt_succeeded t + tgt_failed t = tgt_requested t \<and>
      tc_passed c + tc_failed c + tc_flaky c + tc_skipped c + tc_incomplete c = length (sum_tests s) \<and>
      sum_success s = (exit_code = Some 0)"
  using all_tests_ordered sorted_results count_tests_total
  by (simp add: finish_summary summary_of_def count_targets_def sum_length_filter_compl Let_def)

section \<open>Bounds, equivalence and artifacts\<close>

lemma start_within:
  "within_account accumulator_default" "within_account (with_extension_events m n)"
  by (simp_all add: within_account_def held_items_def held_bytes_def accumulator_default_def with_extension_events_def)

definition collector_within :: "nat \<Rightarrow> nat \<Rightarrow> event_collector \<Rightarrow> bool" where
  "collector_within m n c \<longleftrightarrow>
     ec_max_events c = m \<and> ec_max_bytes c = n \<and> length (ec_events c) \<le> m \<and>
     ec_retained_bytes c \<le> n \<and>
     ec_retained_bytes c = min (sum_list (map event_bytes (ec_events c))) u64_max"

lemma collector_push_within: "collector_within m n c \<Longrightarrow> collector_within m n (collector_push e c)"
  by (auto simp: collector_within_def collector_push_def sat_add_def)

lemma reserved_extension:
  "(\<And>a. ac_extension (f a) = ac_extension a) \<Longrightarrow> ac_extension (reserved i n f acc) = ac_extension acc"
  by (simp add: reserved_def reserve_def Let_def)

lemma fold_extension:
  "(\<And>x a. ac_extension (f x a) = ac_extension a) \<Longrightarrow> ac_extension (fold f xs acc) = ac_extension acc"
  by (induction xs arbitrary: acc) simp_all

lemma push_extension [simp]:
  "ac_extension (push_diagnostic d acc) = ac_extension acc" "ac_extension (push_root r acc) = ac_extension acc"
  "ac_extension (push_file f acc) = ac_extension acc" "ac_extension (push_group g acc) = ac_extension acc"
  by (simp_all add: push_diagnostic_def push_root_def push_file_def push_direct_artifact_def push_group_def Let_def
      reserved_extension fold_extension split: option.split)

lemma observe_payload_extension: "ac_extension (observe_payload e acc) = ac_extension acc"
  by (simp add: observe_payload_def observe_action_def observe_completed_def observe_test_summary_def
      observe_test_result_def observe_named_set_def observe_options_def Let_def reserved_extension fold_extension
      split: option.split payload.split event_id.split)

lemma observe_all_extension:
  "pred_option (collector_within m n) (ac_extension acc) \<Longrightarrow>
   pred_option (collector_within m n) (ac_extension (observe_all es acc))"
proof (induction es arbitrary: acc)
  case (Cons e es)
  have "pred_option (collector_within m n) (ac_extension (observe_view e acc))"
    using Cons.prems
    by (auto simp: observe_view_def Let_def observe_payload_extension observe_extension_event_def
        collector_push_within split: option.split)
  then show ?case using Cons.IH by (simp add: observe_all_def)
qed (simp add: observe_all_def)

text \<open>
  C33: However many events a stream has and however large they are, the accumulator holds at most
  \<^verbatim>\<open>STREAM_MAX_ITEMS\<close> items and \<^verbatim>\<open>STREAM_MAX_RETAINED_BYTES\<close> bytes of text, named sets with their
  files and children included, its account is never below what it holds, and the events
  kept for reducers keep to the limits that were configured for them.
\<close>

theorem accumulator_bounded:
  "let acc = observe_all es (with_extension_events m n);
       out = accumulator_finish td stdout stderr exit_code elapsed_ms b acc
   in held_items acc \<le> ac_retained_items acc \<and> ac_retained_items acc \<le> STREAM_MAX_ITEMS \<and>
      held_bytes acc \<le> ac_retained_bytes acc \<and> ac_retained_bytes acc \<le> STREAM_MAX_RETAINED_BYTES \<and>
      length (ro_reducer_events out) \<le> m \<and>
      min (sum_list (map event_bytes (ro_reducer_events out))) u64_max \<le> n"
proof -
  let ?acc = "observe_all es (with_extension_events m n)"
  have "within_account ?acc"
    using observe_all_bounded [of "with_extension_events m n" es] start_within(2) [of m n]
    unfolding bounded_step_def by blast
  moreover have "pred_option (collector_within m n) (ac_extension (with_extension_events m n))"
    by (simp add: with_extension_events_def collector_within_def)
  then have "pred_option (collector_within m n) (ac_extension ?acc)" by (rule observe_all_extension)
  ultimately show ?thesis
    by (cases "ac_extension ?acc") (auto simp: within_account_def collector_within_def accumulator_finish_def Let_def)
qed

lemma follows_start: "follows (with_extension_events m n) nothing_collected nothing_gathered None"
  using follows_default by (simp add: with_extension_events_def)

text \<open>
  C32: The streaming reduction gives what the reference reducers give. If no text of an event is
  longer than the bounds and the accumulator was not truncated, its artifacts are those of
  \<^verbatim>\<open>reduce_artifacts\<close> and its canonical arguments those of \<^verbatim>\<open>extract_canonical_arguments\<close> on the list of
  all events; and its summary is that of \<^verbatim>\<open>reduce_invocation\<close>, unless tests that have no summary event
  were recovered from their attempts, which the reference does not do.
\<close>

theorem stream_reduction_equals_reference:
  assumes "\<forall>e \<in> set es. short_event e"
    and "\<not> ac_truncated (observe_all es (with_extension_events m n))"
  shows "let out = accumulator_finish td stdout stderr exit_code elapsed_ms b
        (observe_all es (with_extension_events m n))
     in ro_artifacts out = reduce_artifacts es \<and>
        ro_canonical_arguments out = extract_canonical_arguments es \<and>
        (recovered_test_targets (ro_run out) = 0 \<longrightarrow>
           ro_summary out = reduce_invocation td es stdout stderr exit_code elapsed_ms b)"
proof -
  let ?acc = "observe_all es (with_extension_events m n)"
  let ?out = "accumulator_finish td stdout stderr exit_code elapsed_ms b ?acc"
  have f: "follows ?acc (fold collect_event es nothing_collected) (fold gather_event es nothing_gathered)
      (extract_canonical_arguments es)"
    using follows_all [OF follows_start assms] by simp
  have "ro_artifacts ?out = reduce_artifacts es"
    using follows_artifacts [OF f]
    by (simp add: accumulator_finish_def reduce_artifacts_def artifacts_of_def nothing_gathered_def Let_def)
  moreover have "ro_canonical_arguments ?out = extract_canonical_arguments es"
    using f by (simp add: accumulator_finish_def follows_def Let_def)
  moreover have "ro_summary ?out = reduce_invocation td es stdout stderr exit_code elapsed_ms b"
    if none: "recovered_test_targets (ro_run ?out) = 0"
  proof -
    have "all_tests (exit_code = Some 0 \<and> build_success (ac_run ?acc) = Some True) (ac_test_attempts ?acc)
        (ac_tests ?acc) = sorted_tests (ac_tests ?acc)"
      using none sorted_results(3)
      by (auto simp: all_tests_def accumulator_finish_def Let_def sort_key_id_if_sorted)
    then show ?thesis
      using f assms(2)
      by (simp add: finish_summary reduce_invocation_def follows_def nothing_collected_def Let_def)
  qed
  ultimately show ?thesis by (simp add: Let_def)
qed

definition sample_stream :: "build_event list" where
  "sample_stream =
     [\<lparr>be_id = Some (NamedSetId ''0''),
       be_payload = Some (NamedSetPayload [\<lparr>fv_name = ''a'', fv_path_prefix = [], fv_file = Some FileContents, fv_length = 1\<rparr>] [''0''])\<rparr>,
      \<lparr>be_id = Some (TargetCompletedId ''//a''),
       be_payload = Some (CompletedPayload \<lparr>cv_success = True, cv_target_kind = ''r'',
         cv_output_group = [\<lparr>og_file_sets = [''0''], og_inline_files = []\<rparr>], cv_important_output = [],
         cv_directory_output = []\<rparr>)\<rparr>,
      \<lparr>be_id = None, be_payload = Some (OptionsParsedPayload [''-x''] [''-y''])\<rparr>]"

lemma sample_stream_short: "\<forall>e \<in> set sample_stream. short_event e"
  by (simp add: sample_stream_def short_event_def)

lemma sample_stream_fits: "\<not> ac_truncated (observe_all sample_stream (with_extension_events 2 100))"
  by (simp add: sample_stream_def observe_all_def observe_view_def observe_extension_event_def extension_event_def
      observe_payload_def observe_named_set_def observe_completed_def observe_options_def push_group_def push_root_def
      reserved_def reserve_def with_extension_events_def accumulator_default_def collector_push_def event_bytes_def
      opt_len_def label_from_id_def nonempty_def completed_target_def bounded_text_def file_artifact_def
      named_set_items_def named_set_bytes_def artifact_bytes_def sat_add_def u64_max_def STREAM_MAX_ITEMS_def
      STREAM_MAX_RETAINED_BYTES_def List.map_filter_simps Let_def)

theorem stream_reduction_equals_reference_witness:
  "ro_artifacts (accumulator_finish (\<lambda>_. []) [] [] (Some 0) 5 result_default
     (observe_all sample_stream (with_extension_events 2 100))) = reduce_artifacts sample_stream \<and>
   extract_canonical_arguments sample_stream = Some [''-x'', ''-y''] \<and>
   ro_canonical_arguments (accumulator_finish (\<lambda>_. []) [] [] (Some 0) 5 result_default
     (observe_all sample_stream (with_extension_events 2 100))) = Some [''-x'', ''-y'']"
  using stream_reduction_equals_reference [OF sample_stream_short sample_stream_fits,
      of "\<lambda>_. []" "[]" "[]" "Some 0" 5 result_default]
  by (simp add: Let_def sample_stream_def canonical_of_def)

text \<open>
  C34: Resolution of artifacts ends for every graph of named sets, cycles included, and gives one
  artifact for each pair of name and address among the files that events name directly and the
  files of the named sets that can be reached from the roots; it gives no other.
\<close>

theorem resolve_artifacts_reachable:
  "let found = resolve_artifacts acc;
       all = set (ac_direct_artifacts acc) \<union> reached_files (ac_named_sets acc) (set (ac_artifact_roots acc))
   in set found \<subseteq> all \<and> artifact_key ` set found = artifact_key ` all \<and> distinct (map artifact_key found)"
  using keep_first_spec [of artifact_key "[]"]
  by (simp add: resolve_artifacts_def Let_def flip: resolve_loop_reached)

end
