(* ===== verification/Reducer_Extension.thy ===== *)
theory Reducer_Extension
  imports Reducer_Build
begin

text \<open>
  Custom reducers (\<^verbatim>\<open>bazel-mcp-reducer/src/extension.rs\<close>): the selectors with their label patterns, the
  pipeline that orders the reducers and applies their patches to a summary, and the suppression
  of diagnostics. The body of a reducer is a function of the context, or an error.
\<close>

section \<open>Patterns of labels\<close>

text \<open>
  \<^verbatim>\<open>wildcard_match\<close>, with the positions of the source. The loop over the value goes back to the last
  star, and the second loop passes the stars at the end of the pattern.
\<close>

fun skip_stars :: "string \<Rightarrow> bool" where
  "skip_stars [] = True"
| "skip_stars (c # cs) = (c = CHR ''*'' \<and> skip_stars cs)"

text \<open>
  A star that was recorded lies before the position in the pattern, and its value position not
  after that in the value; a run that starts elsewhere reaches such a state when it moves a star.
\<close>

definition star_behind :: "nat \<Rightarrow> nat \<Rightarrow> (nat \<times> nat) option \<Rightarrow> bool" where
  "star_behind pi vi star \<longleftrightarrow> (case star of None \<Rightarrow> True | Some (si, sv) \<Rightarrow> si < pi \<and> sv \<le> vi)"

function wildcard_loop ::
  "string \<Rightarrow> string \<Rightarrow> nat \<Rightarrow> nat \<Rightarrow> (nat \<times> nat) option \<Rightarrow> bool"
where
  "wildcard_loop p v pi vi star =
     (if \<not> vi < length v then skip_stars (drop pi p)
      else if pi < length p \<and> p ! pi = v ! vi then wildcard_loop p v (pi + 1) (vi + 1) star
      else if pi < length p \<and> p ! pi = CHR ''*'' then wildcard_loop p v (pi + 1) vi (Some (pi, vi))
      else case star of
             Some (si, sv) \<Rightarrow> wildcard_loop p v (si + 1) (sv + 1) (Some (si, sv + 1))
           | None \<Rightarrow> False)"
  by pat_completeness auto

termination
proof (relation "measures
    [\<lambda>(p, v, pi, vi, star). if star_behind pi vi star then 0 else 1,
     \<lambda>(p, v, pi, vi, star). case star of None \<Rightarrow> Suc (length p) | Some (si, sv) \<Rightarrow> length p - si,
     \<lambda>(p, v, pi, vi, star). case star of None \<Rightarrow> 0 | Some (si, sv) \<Rightarrow> length v - sv,
     \<lambda>(p, v, pi, vi, star). length v - vi]", goal_cases)
  case (2 p v pi vi star)
  then show ?case by (cases star) (auto simp: star_behind_def)
next
  case (3 p v pi vi star)
  then show ?case by (cases star) (auto simp: star_behind_def)
next
  case (4 p v pi vi star x si sv)
  then show ?case by (auto simp: star_behind_def)
qed simp

declare wildcard_loop.simps [simp del]

definition wildcard_match :: "string \<Rightarrow> string \<Rightarrow> bool" where
  "wildcard_match pattern value = wildcard_loop pattern value 0 0 None"

definition strip_suffix :: "string \<Rightarrow> string \<Rightarrow> string option" where
  "strip_suffix value suffix0 =
     (if ends_with value suffix0 then Some (take (length value - length suffix0) value) else None)"

definition label_matches :: "string \<Rightarrow> string \<Rightarrow> bool" where
  "label_matches pattern label =
     (case strip_suffix pattern ''...'' of
        Some start \<Rightarrow> starts_with label start
      | None \<Rightarrow> wildcard_match pattern label)"

section \<open>Reducers\<close>

datatype reducer_mode = Augment | OverrideMatching

record reducer_context =
  cx_api_version :: nat
  cx_command :: string
  cx_arguments :: "string list"
  cx_exit_code :: "int option"
  cx_elapsed_ms :: nat
  cx_stdout :: string
  cx_stderr :: string
  cx_events :: "reducer_event list"
  cx_input_truncated :: bool
  cx_baseline :: invocation_summary

record reducer_selector =
  sl_commands :: "string fset"
  sl_target_labels :: "string list"
  sl_target_kinds :: "string fset"
  sl_action_types :: "string fset"

definition has_event_constraints :: "reducer_selector \<Rightarrow> bool" where
  "has_event_constraints sl \<longleftrightarrow>
     sl_target_labels sl \<noteq> [] \<or> sl_target_kinds sl \<noteq> {||} \<or> sl_action_types sl \<noteq> {||}"

definition is_some_and :: "'a option \<Rightarrow> ('a \<Rightarrow> bool) \<Rightarrow> bool" where
  "is_some_and x P = (case x of None \<Rightarrow> False | Some v \<Rightarrow> P v)"

definition matches_event :: "reducer_selector \<Rightarrow> reducer_event \<Rightarrow> bool" where
  "matches_event sl e \<longleftrightarrow>
     is_some_and (re_label e) (\<lambda>label. list_ex (\<lambda>pattern. label_matches pattern label) (sl_target_labels sl)) \<or>
     is_some_and (re_target_kind e) (\<lambda>kind. kind |\<in>| sl_target_kinds sl) \<or>
     is_some_and (re_action_type e) (\<lambda>action. action |\<in>| sl_action_types sl)"

definition selector_matches :: "reducer_selector \<Rightarrow> reducer_context \<Rightarrow> bool" where
  "selector_matches sl cx =
     (if sl_commands sl \<noteq> {||} \<and> cx_command cx |\<notin>| sl_commands sl then False
      else if \<not> has_event_constraints sl then True
      else list_ex (matches_event sl) (cx_events cx))"

definition matched_labels :: "reducer_selector \<Rightarrow> reducer_context \<Rightarrow> string fset" where
  "matched_labels sl cx = fset_of_list (List.map_filter re_label (filter (matches_event sl) (cx_events cx)))"

record reducer_patch =
  pa_headline :: "string option"
  pa_diagnostics :: "diagnostic list"
  pa_suppress_builtin_diagnostics :: bool

definition patch_is_empty :: "reducer_patch \<Rightarrow> bool" where
  "patch_is_empty p \<longleftrightarrow>
     pa_headline p = None \<and> pa_diagnostics p = [] \<and> \<not> pa_suppress_builtin_diagnostics p"

record custom_reducer =
  cr_name :: string
  cr_priority :: int
  cr_mode :: reducer_mode
  cr_selector :: reducer_selector
  cr_reduce :: "reducer_context \<Rightarrow> (reducer_patch, string) result"

text \<open>Failures name the reducer and its error; collisions name it and the reducer that owns the evidence.\<close>

record apply_report =
  rp_applied :: "string list"
  rp_failures :: "(string \<times> string) list"
  rp_override_collisions :: "(string \<times> string) list"
  rp_headline_applied :: bool

definition report_default :: apply_report where
  "report_default =
     \<lparr>rp_applied = [], rp_failures = [], rp_override_collisions = [], rp_headline_applied = False\<rparr>"

datatype reducer_error = DuplicateReducerName string

definition pipeline_key :: "custom_reducer \<Rightarrow> int \<times> string" where
  "pipeline_key r = (- cr_priority r, cr_name r)"

fun check_names :: "string list \<Rightarrow> custom_reducer list \<Rightarrow> (unit, reducer_error) result" where
  "check_names names [] = Inr ()"
| "check_names names (r # rs) =
     (if cr_name r \<in> set names then Inl (DuplicateReducerName (cr_name r))
      else check_names (cr_name r # names) rs)"

definition pipeline_new :: "custom_reducer list \<Rightarrow> (custom_reducer list, reducer_error) result" where
  "pipeline_new reducers =
     and_then (check_names [] reducers) (\<lambda>_. Inr (sort_key pipeline_key reducers))"

definition suppressed :: "reducer_selector \<Rightarrow> reducer_context \<Rightarrow> diagnostic \<Rightarrow> bool" where
  "suppressed sl cx d \<longleftrightarrow>
     is_some_and (diag_target d) (\<lambda>target. target |\<in>| matched_labels sl cx \<or>
       list_ex (\<lambda>pattern. label_matches pattern target) (sl_target_labels sl)) \<or>
     is_some_and (diag_action d) (\<lambda>action. action |\<in>| sl_action_types sl)"

definition suppress_matching_diagnostics ::
  "invocation_summary \<Rightarrow> reducer_selector \<Rightarrow> reducer_context \<Rightarrow> invocation_summary"
where
  "suppress_matching_diagnostics s sl cx =
     s\<lparr>sum_diagnostics := filter (\<lambda>d. \<not> suppressed sl cx d) (sum_diagnostics s)\<rparr>"

record apply_state =
  as_report :: apply_report
  as_owner :: "string option"
  as_headline_set :: bool
  as_summary :: invocation_summary

definition accept_patch :: "reducer_context \<Rightarrow> custom_reducer \<Rightarrow> reducer_patch \<Rightarrow> apply_state \<Rightarrow> apply_state" where
  "accept_patch cx r p st =
     (if patch_is_empty p then st
      else
        (let st1 = (if cr_mode r = OverrideMatching
                    then (let st0 = st\<lparr>as_owner := Some (cr_name r)\<rparr>
                          in if pa_suppress_builtin_diagnostics p
                             then st0\<lparr>as_summary := suppress_matching_diagnostics (as_summary st0) (cr_selector r) cx\<rparr>
                             else st0)
                    else st);
             st2 = (case pa_headline p of
                      Some headline \<Rightarrow>
                        if as_headline_set st1 then st1
                        else st1\<lparr>as_summary := (as_summary st1)\<lparr>sum_headline := headline\<rparr>,
                                 as_headline_set := True,
                                 as_report := (as_report st1)\<lparr>rp_headline_applied := True\<rparr>\<rparr>
                    | None \<Rightarrow> st1)
         in st2\<lparr>as_summary := (as_summary st2)\<lparr>sum_diagnostics := sum_diagnostics (as_summary st2) @ pa_diagnostics p\<rparr>,
                as_report := (as_report st2)\<lparr>rp_applied := rp_applied (as_report st2) @ [cr_name r]\<rparr>\<rparr>))"

definition apply_reducer :: "reducer_context \<Rightarrow> custom_reducer \<Rightarrow> apply_state \<Rightarrow> apply_state" where
  "apply_reducer cx r st =
     (case as_owner st of
        Some owner \<Rightarrow>
          if cr_mode r = OverrideMatching
          then st\<lparr>as_report := (as_report st)\<lparr>rp_override_collisions :=
                 rp_override_collisions (as_report st) @ [(cr_name r, owner)]\<rparr>\<rparr>
          else (case cr_reduce r cx of
                  Inr p \<Rightarrow> accept_patch cx r p st
                | Inl e \<Rightarrow> st\<lparr>as_report := (as_report st)\<lparr>rp_failures :=
                     rp_failures (as_report st) @ [(cr_name r, e)]\<rparr>\<rparr>)
      | None \<Rightarrow>
          (case cr_reduce r cx of
             Inr p \<Rightarrow> accept_patch cx r p st
           | Inl e \<Rightarrow> st\<lparr>as_report := (as_report st)\<lparr>rp_failures :=
                rp_failures (as_report st) @ [(cr_name r, e)]\<rparr>\<rparr>))"

definition pipeline_apply ::
  "custom_reducer list \<Rightarrow> reducer_context \<Rightarrow> invocation_summary \<Rightarrow> apply_report \<times> invocation_summary"
where
  "pipeline_apply reducers cx s =
     (let st = fold (apply_reducer cx) (filter (\<lambda>r. selector_matches (cr_selector r) cx) reducers)
                 \<lparr>as_report = report_default, as_owner = None, as_headline_set = False, as_summary = s\<rparr>;
          s1 = as_summary st
      in (as_report st,
          if rp_applied (as_report st) \<noteq> [] \<and> cx_input_truncated cx
          then s1\<lparr>sum_truncated := True, sum_inspect_hint := Some HintLog\<rparr>
          else s1))"

section \<open>What the patterns mean\<close>

text \<open>A pattern in which a star stands for any text, and every other character for itself.\<close>

fun glob :: "string \<Rightarrow> string \<Rightarrow> bool" where
  "glob [] v = (v = [])"
| "glob (c # p) v =
     (if c = CHR ''*'' then (\<exists>k \<le> length v. glob p (drop k v))
      else (case v of [] \<Rightarrow> False | x # xs \<Rightarrow> x = c \<and> glob p xs))"

lemma glob_star: "glob (CHR ''*'' # p) v \<longleftrightarrow> (\<exists>k \<le> length v. glob p (drop k v))"
  by simp

lemma glob_Nil: "glob p [] = skip_stars p"
  by (induction p) auto

text \<open>A part of a pattern without stars is matched only by itself.\<close>

lemma glob_literal:
  "CHR ''*'' \<notin> set l \<Longrightarrow> glob (l @ p) v \<longleftrightarrow> (\<exists>w. v = l @ w \<and> glob p w)"
proof (induction l arbitrary: v)
  case (Cons c l)
  then show ?case by (cases v) auto
qed simp

text \<open>What the star that was recorded still allows: it stands for more than before.\<close>

definition star_allows :: "string \<Rightarrow> string \<Rightarrow> (nat \<times> nat) option \<Rightarrow> bool" where
  "star_allows p v star \<longleftrightarrow>
     (case star of None \<Rightarrow> False
      | Some (si, sv) \<Rightarrow> \<exists>k. sv < k \<and> k \<le> length v \<and> glob (drop (si + 1) p) (drop k v))"

lemma drop_nth: "i < length p \<Longrightarrow> drop i p = p ! i # drop (i + 1) p"
  by (simp add: Cons_nth_drop_Suc)

lemma glob_here:
  assumes "pi < length p" and "p ! pi = CHR ''*''" and "vi \<le> length v"
  shows "glob (drop pi p) (drop vi v) \<longleftrightarrow>
    glob (drop (pi + 1) p) (drop vi v) \<or> star_allows p v (Some (pi, vi))"
proof -
  have "glob (drop pi p) (drop vi v) \<longleftrightarrow> (\<exists>k \<le> length v - vi. glob (drop (pi + 1) p) (drop (k + vi) v))"
    using assms by (simp add: drop_nth)
  also have "\<dots> \<longleftrightarrow> (\<exists>k. vi \<le> k \<and> k \<le> length v \<and> glob (drop (pi + 1) p) (drop k v))"
    using assms(3) by (metis add_le_imp_le_diff le_add2 le_add_diff_inverse2 le_diff_conv2)
  also have "\<dots> \<longleftrightarrow> glob (drop (pi + 1) p) (drop vi v) \<or> star_allows p v (Some (pi, vi))"
    using assms(3) by (auto simp: star_allows_def le_less)
  finally show ?thesis .
qed

lemma star_next:
  "sv < length v \<Longrightarrow> star_allows p v (Some (si, sv)) \<longleftrightarrow>
    glob (drop (si + 1) p) (drop (sv + 1) v) \<or> star_allows p v (Some (si, sv + 1))"
proof -
  have split: "(\<exists>k. sv < k \<and> Q k) \<longleftrightarrow> Q (sv + 1) \<or> (\<exists>k. sv + 1 < k \<and> Q k)" for Q
    by (metis Suc_eq_plus1 Suc_lessI lessI less_trans)
  assume "sv < length v"
  then show ?thesis
    using split [of "\<lambda>k. k \<le> length v \<and> glob (drop (si + 1) p) (drop k v)"] by (simp add: star_allows_def)
qed

lemma wildcard_loop_end: "wildcard_loop p v pi (length v) star = skip_stars (drop pi p)"
  by (subst wildcard_loop.simps) simp

lemma wildcard_loop_sound:
  "wildcard_loop p v pi vi star \<Longrightarrow> vi \<le> length v \<Longrightarrow>
   (case star of None \<Rightarrow> True | Some (si, sv) \<Rightarrow> sv \<le> vi) \<Longrightarrow>
   glob (drop pi p) (drop vi v) \<or> star_allows p v star"
proof (induction p v pi vi star rule: wildcard_loop.induct)
  case (1 p v pi vi star)
  consider (finished) "\<not> vi < length v"
    | (same) "vi < length v" "pi < length p" "p ! pi = v ! vi"
    | (star) "vi < length v" "pi < length p" "p ! pi \<noteq> v ! vi" "p ! pi = CHR ''*''"
    | (retry) "vi < length v" "\<not> (pi < length p \<and> p ! pi = v ! vi)" "\<not> (pi < length p \<and> p ! pi = CHR ''*'')"
    by blast
  then show ?case
  proof cases
    case finished
    then show ?thesis using "1.prems" by (simp add: wildcard_loop_end glob_Nil)
  next
    case same
    then have "glob (drop (pi + 1) p) (drop (vi + 1) v) \<or> star_allows p v star"
      using 1 by (auto simp: wildcard_loop.simps [of p v pi vi] split: option.splits prod.splits)
    moreover have "glob (drop pi p) (drop vi v)" if "glob (drop (pi + 1) p) (drop (vi + 1) v)"
      using that same by (auto simp: drop_nth intro!: exI [of _ 1])
    ultimately show ?thesis by blast
  next
    case star
    then have "glob (drop (pi + 1) p) (drop vi v) \<or> star_allows p v (Some (pi, vi))"
      using 1 by (simp add: wildcard_loop.simps [of p v pi vi])
    then show ?thesis using glob_here star by simp
  next
    case retry
    then obtain si sv where s: "star = Some (si, sv)"
      using "1.prems"(1) by (auto simp: wildcard_loop.simps [of p v pi vi] split: option.splits if_splits)
    then have "glob (drop (si + 1) p) (drop (sv + 1) v) \<or> star_allows p v (Some (si, sv + 1))"
      using 1 retry by (simp add: wildcard_loop.simps [of p v pi vi])
    then show ?thesis using star_next [of sv v p si] s "1.prems" retry by auto
  qed
qed

text \<open>
  Where the value has no star, the characters of the pattern since the recorded star are the
  characters of the value since its position.
\<close>

definition since_star :: "string \<Rightarrow> string \<Rightarrow> nat \<Rightarrow> nat \<Rightarrow> (nat \<times> nat) option \<Rightarrow> bool" where
  "since_star p v pi vi star \<longleftrightarrow>
     (case star of None \<Rightarrow> True
      | Some (si, sv) \<Rightarrow> si < pi \<and> sv \<le> vi \<and> pi \<le> length p \<and>
          drop (si + 1) p = take (vi - sv) (drop sv v) @ drop pi p)"

lemma since_star_allows:
  assumes "CHR ''*'' \<notin> set v" and "since_star p v pi vi (Some (si, sv))" and "vi \<le> length v"
    and "star_allows p v (Some (si, sv))"
  obtains j where "vi < j" and "j \<le> length v" and "glob (drop pi p) (drop j v)"
proof -
  let ?l = "take (vi - sv) (drop sv v)"
  obtain k where k: "sv < k" "k \<le> length v" "glob (drop (si + 1) p) (drop k v)"
    using assms(4) by (auto simp: star_allows_def)
  have l: "CHR ''*'' \<notin> set ?l" using assms(1) by (meson in_set_dropD in_set_takeD)
  have "drop (si + 1) p = ?l @ drop pi p" "sv \<le> vi" using assms(2) by (auto simp: since_star_def)
  then obtain w where w: "drop k v = ?l @ w" "glob (drop pi p) w" using glob_literal [OF l] k(3) by metis
  have len: "length ?l = vi - sv" using assms(3) by simp
  have "length v - k = (vi - sv) + length w" using arg_cong [OF w(1), of length] len by simp
  moreover have "w = drop (vi - sv) (drop k v)" unfolding w(1) using len by simp
  then have "w = drop (k + (vi - sv)) v" by (simp add: add.commute)
  ultimately show thesis using that [of "k + (vi - sv)"] k(1,2) w(2) \<open>sv \<le> vi\<close> by simp
qed

lemma wildcard_loop_complete:
  "CHR ''*'' \<notin> set v \<Longrightarrow> vi \<le> length v \<Longrightarrow> since_star p v pi vi star \<Longrightarrow>
   glob (drop pi p) (drop vi v) \<or> star_allows p v star \<Longrightarrow> wildcard_loop p v pi vi star"
proof (induction p v pi vi star rule: wildcard_loop.induct)
  case (1 p v pi vi star)
  consider (finished) "\<not> vi < length v"
    | (same) "vi < length v" "pi < length p" "p ! pi = v ! vi"
    | (star) "vi < length v" "pi < length p" "p ! pi \<noteq> v ! vi" "p ! pi = CHR ''*''"
    | (retry) "vi < length v" "\<not> (pi < length p \<and> p ! pi = v ! vi)" "\<not> (pi < length p \<and> p ! pi = CHR ''*'')"
    by blast
  then show ?case
  proof cases
    case finished
    have "\<not> star_allows p v star"
    proof
      assume a: "star_allows p v star"
      then obtain si sv where s: "star = Some (si, sv)" by (auto simp: star_allows_def split: option.splits)
      show False
        by (rule since_star_allows [of v p pi vi si sv]) (use 1 a s finished in auto)
    qed
    then show ?thesis using 1 finished by (simp add: wildcard_loop_end glob_Nil)
  next
    case same
    have "v ! vi \<noteq> CHR ''*''" using "1.prems"(1) same(1) by (metis nth_mem)
    then have "glob (drop pi p) (drop vi v) = glob (drop (pi + 1) p) (drop (vi + 1) v)"
      using same drop_nth [of pi p] drop_nth [of vi v] by simp
    moreover have "since_star p v (pi + 1) (vi + 1) star"
      using "1.prems"(3) same drop_nth [of pi p]
      by (auto simp: since_star_def take_Suc_conv_app_nth Suc_diff_le split: option.splits)
    ultimately show ?thesis
      using 1 same by (simp add: wildcard_loop.simps [of p v pi vi])
  next
    case star
    have "glob (drop pi p) (drop vi v)" if a: "star_allows p v star"
    proof -
      obtain si sv where s: "star = Some (si, sv)" using a by (auto simp: star_allows_def split: option.splits)
      show ?thesis
        by (rule since_star_allows [of v p pi vi si sv])
          (use 1 a s star glob_here [of pi p vi v] in \<open>auto simp: star_allows_def drop_nth\<close>)
    qed
    then have "glob (drop (pi + 1) p) (drop vi v) \<or> star_allows p v (Some (pi, vi))"
      using glob_here [of pi p vi v] star "1.prems" by auto
    moreover have "since_star p v (pi + 1) vi (Some (pi, vi))" using star by (simp add: since_star_def)
    ultimately show ?thesis using 1 star by (simp add: wildcard_loop.simps [of p v pi vi])
  next
    case retry
    have "\<not> glob (drop pi p) (drop vi v)"
    proof (cases "pi < length p")
      case True
      then show ?thesis using retry drop_nth [of pi p] drop_nth [of vi v] by auto
    next
      case False
      then show ?thesis using retry(1) by simp
    qed
    then have a: "star_allows p v star" using "1.prems" by blast
    then obtain si sv where s: "star = Some (si, sv)" by (auto simp: star_allows_def split: option.splits)
    have sv: "sv < length v" "si < length p" using "1.prems"(3) s retry(1) by (auto simp: since_star_def)
    have "glob (drop (si + 1) p) (drop (sv + 1) v) \<or> star_allows p v (Some (si, sv + 1))"
      using a s star_next [OF sv(1)] by simp
    moreover have "since_star p v (si + 1) (sv + 1) (Some (si, sv + 1))" using sv by (simp add: since_star_def)
    ultimately show ?thesis using 1 s retry sv by (auto simp: wildcard_loop.simps [of p v pi vi])
  qed
qed

text \<open>
  C38: Matching a label against a pattern ends, and a label that is accepted matches the pattern,
  where a star stands for any text. If no character of the label is a star, it is accepted exactly
  if it matches. A pattern that ends in three dots accepts the labels that start with the rest.
\<close>

theorem label_matches_glob:
  "(wildcard_match p label \<longrightarrow> glob p label) \<and>
   (CHR ''*'' \<notin> set label \<longrightarrow> glob p label \<longrightarrow> wildcard_match p label) \<and>
   label_matches (start @ ''...'') label = starts_with label start \<and>
   (\<not> ends_with p ''...'' \<longrightarrow> label_matches p label = wildcard_match p label)"
  using wildcard_loop_sound [of p label 0 0 None] wildcard_loop_complete [of label 0 p 0 None]
  by (auto simp: wildcard_match_def label_matches_def strip_suffix_def star_allows_def since_star_def ends_with_def)

theorem label_matches_glob_witness:
  "glob ''/a/*:t'' ''/a/b:t'' \<and> wildcard_match ''/a/*:t'' ''/a/b:t'' \<and>
   label_matches ''/a/*:t'' ''/a/b:t'' \<and> label_matches ''/a/...'' ''/a/b:t''"
proof -
  have "glob ''/a/*:t'' ''/a/b:t''" by (simp, rule exI [of _ 1]) simp
  then show ?thesis
    using label_matches_glob [of "''/a/*:t''" "''/a/b:t''" "''/a/''"]
    by (simp add: ends_with_def starts_with_def)
qed


section \<open>What the pipeline does\<close>

lemma check_names_ok:
  "check_names names rs = Inr () \<longleftrightarrow>
     distinct (map cr_name rs) \<and> cr_name ` set rs \<inter> set names = {}"
  by (induction names rs rule: check_names.induct) auto

definition productive :: "reducer_context \<Rightarrow> custom_reducer \<Rightarrow> bool" where
  "productive cx r \<longleftrightarrow> (case cr_reduce r cx of Inr p \<Rightarrow> \<not> patch_is_empty p | Inl _ \<Rightarrow> False)"

text \<open>
  The reducers that run: all of them up to the first overriding one that gives something, and
  after it only those that augment.
\<close>

definition takes_over :: "reducer_context \<Rightarrow> custom_reducer \<Rightarrow> bool" where
  "takes_over cx r \<longleftrightarrow> cr_mode r = OverrideMatching \<and> productive cx r"

definition augmenting :: "custom_reducer list \<Rightarrow> custom_reducer list" where
  "augmenting rs = filter (\<lambda>r. cr_mode r = Augment) rs"

definition patch_of :: "reducer_context \<Rightarrow> custom_reducer \<Rightarrow> reducer_patch" where
  "patch_of cx r = (case cr_reduce r cx of Inr p \<Rightarrow> p
     | Inl _ \<Rightarrow> \<lparr>pa_headline = None, pa_diagnostics = [], pa_suppress_builtin_diagnostics = False\<rparr>)"

definition failures_of :: "reducer_context \<Rightarrow> custom_reducer list \<Rightarrow> (string \<times> string) list" where
  "failures_of cx rs =
     List.map_filter (\<lambda>r. case cr_reduce r cx of Inl e \<Rightarrow> Some (cr_name r, e) | Inr _ \<Rightarrow> None) rs"

definition diagnostics_of :: "reducer_context \<Rightarrow> custom_reducer list \<Rightarrow> diagnostic list" where
  "diagnostics_of cx rs = concat (map (\<lambda>r. pa_diagnostics (patch_of cx r)) rs)"

text \<open>A run of reducers none of which takes over, from any state.\<close>

definition headlines :: "reducer_context \<Rightarrow> custom_reducer list \<Rightarrow> string list" where
  "headlines cx rs = List.map_filter (\<lambda>r. pa_headline (patch_of cx r)) rs"

definition quiet_run :: "reducer_context \<Rightarrow> custom_reducer list \<Rightarrow> apply_state \<Rightarrow> apply_state" where
  "quiet_run cx rs st =
     st\<lparr>as_report := (as_report st)
          \<lparr>rp_applied := rp_applied (as_report st) @ map cr_name (filter (productive cx) rs),
           rp_failures := rp_failures (as_report st) @ failures_of cx rs,
           rp_headline_applied := (rp_headline_applied (as_report st) \<or> \<not> as_headline_set st \<and> headlines cx rs \<noteq> [])\<rparr>,
        as_headline_set := (as_headline_set st \<or> headlines cx rs \<noteq> []),
        as_summary := (as_summary st)
          \<lparr>sum_headline := (if as_headline_set st \<or> headlines cx rs = [] then sum_headline (as_summary st)
                           else hd (headlines cx rs)),
           sum_diagnostics := sum_diagnostics (as_summary st) @ diagnostics_of cx rs\<rparr>\<rparr>"

lemma quiet_run_Nil [simp]: "quiet_run cx [] st = st"
  by (simp add: quiet_run_def failures_of_def headlines_def diagnostics_of_def List.map_filter_simps)

lemma quiet_run_append: "quiet_run cx (xs @ ys) st = quiet_run cx ys (quiet_run cx xs st)"
  by (simp add: quiet_run_def failures_of_def headlines_def diagnostics_of_def List.map_filter_def)

lemma apply_quiet:
  assumes "cr_mode r = Augment \<or> as_owner st = None \<and> \<not> takes_over cx r"
  shows "apply_reducer cx r st = quiet_run cx [r] st"
proof (cases "cr_reduce r cx")
  case (Inl e)
  then show ?thesis
    using assms
    by (auto simp: apply_reducer_def quiet_run_def failures_of_def headlines_def diagnostics_of_def patch_of_def productive_def
        List.map_filter_simps split: option.split)
next
  case (Inr p)
  then show ?thesis
    using assms
    by (auto simp: apply_reducer_def quiet_run_def failures_of_def headlines_def diagnostics_of_def patch_of_def productive_def
        List.map_filter_simps accept_patch_def takes_over_def patch_is_empty_def Let_def split: option.split)
qed

lemma quiet_run_owner [simp]: "as_owner (quiet_run cx rs st) = as_owner st"
  by (simp add: quiet_run_def)

lemma apply_quiet_all:
  "\<forall>r \<in> set rs. \<not> takes_over cx r \<Longrightarrow> as_owner st = None \<Longrightarrow> fold (apply_reducer cx) rs st = quiet_run cx rs st"
proof (induction rs arbitrary: st)
  case (Cons r rs)
  then show ?case using apply_quiet [of r st cx] quiet_run_append [of cx "[r]" rs st] by simp
qed simp

definition collided :: "string \<Rightarrow> custom_reducer list \<Rightarrow> apply_state \<Rightarrow> apply_state" where
  "collided owner rs st =
     st\<lparr>as_report := (as_report st)\<lparr>rp_override_collisions := rp_override_collisions (as_report st) @
          map (\<lambda>r. (cr_name r, owner)) (filter (\<lambda>r. cr_mode r = OverrideMatching) rs)\<rparr>\<rparr>"

lemma quiet_run_collided: "quiet_run cx rs (collided owner us st) = collided owner us (quiet_run cx rs st)"
  by (simp add: quiet_run_def collided_def)

lemma apply_owned_all:
  "as_owner st = Some owner \<Longrightarrow>
   fold (apply_reducer cx) rs st = collided owner rs (quiet_run cx (augmenting rs) st)"
proof (induction rs arbitrary: st)
  case Nil
  then show ?case by (simp add: augmenting_def collided_def)
next
  case (Cons r rs)
  show ?case
  proof (cases "cr_mode r")
    case Augment
    then show ?thesis
      using Cons apply_quiet [of r st cx] quiet_run_append [of cx "[r]" "augmenting rs" st]
      by (simp add: augmenting_def collided_def)
  next
    case OverrideMatching
    then have "apply_reducer cx r st = collided owner [r] st"
      using Cons.prems by (simp add: apply_reducer_def collided_def)
    moreover have "collided owner rs (collided owner [r] st') = collided owner (r # rs) st'" for st'
      using OverrideMatching by (simp add: collided_def)
    moreover have "as_owner (collided owner [r] st) = Some owner" using Cons.prems by (simp add: collided_def)
    ultimately show ?thesis
      using Cons.IH [of "collided owner [r] st"] OverrideMatching by (simp add: quiet_run_collided augmenting_def)
  qed
qed

text \<open>The turn of the reducer that takes over.\<close>

definition suppress_for :: "reducer_context \<Rightarrow> custom_reducer \<Rightarrow> diagnostic list \<Rightarrow> diagnostic list" where
  "suppress_for cx r ds =
     (if pa_suppress_builtin_diagnostics (patch_of cx r)
      then filter (\<lambda>d. \<not> suppressed (cr_selector r) cx d) ds else ds)"

lemma apply_takes_over:
  assumes "takes_over cx r" and "as_owner st = None"
  shows "apply_reducer cx r st =
    quiet_run cx [r] (st\<lparr>as_owner := Some (cr_name r),
      as_summary := (as_summary st)\<lparr>sum_diagnostics := suppress_for cx r (sum_diagnostics (as_summary st))\<rparr>\<rparr>)"
proof -
  obtain p where p: "cr_reduce r cx = Inr p" "\<not> patch_is_empty p" "cr_mode r = OverrideMatching"
    using assms(1) by (auto simp: takes_over_def productive_def split: sum.splits)
  then show ?thesis
    using assms(2)
    by (auto simp: apply_reducer_def quiet_run_def failures_of_def headlines_def diagnostics_of_def patch_of_def productive_def
        List.map_filter_simps accept_patch_def suppress_for_def suppress_matching_diagnostics_def Let_def
        split: option.split)
qed

lemma parts_append:
  "headlines cx (xs @ ys) = headlines cx xs @ headlines cx ys"
  "failures_of cx (xs @ ys) = failures_of cx xs @ failures_of cx ys"
  "diagnostics_of cx (xs @ ys) = diagnostics_of cx xs @ diagnostics_of cx ys"
  by (simp_all add: headlines_def failures_of_def diagnostics_of_def List.map_filter_def)

text \<open>The state after a take-over, from the reducers before it, itself with those after it, and the collisions.\<close>

definition taken_over ::
  "reducer_context \<Rightarrow> custom_reducer list \<Rightarrow> custom_reducer \<Rightarrow> custom_reducer list \<Rightarrow> apply_state \<Rightarrow> apply_state"
where
  "taken_over cx before r after st =
     (let st1 = quiet_run cx before st
      in collided (cr_name r) after (quiet_run cx (r # augmenting after)
           (st1\<lparr>as_owner := Some (cr_name r),
               as_summary := (as_summary st1)\<lparr>sum_diagnostics := suppress_for cx r (sum_diagnostics (as_summary st1))\<rparr>\<rparr>)))"

definition apply_start :: "invocation_summary \<Rightarrow> apply_state" where
  "apply_start s = \<lparr>as_report = report_default, as_owner = None, as_headline_set = False, as_summary = s\<rparr>"

lemma taken_over_fields:
  fixes s cx before r after
  defines "st \<equiv> taken_over cx before r after (apply_start s)"
  shows "rp_applied (as_report st) = map cr_name (filter (productive cx) (before @ r # augmenting after))"
    and "rp_failures (as_report st) = failures_of cx (before @ r # augmenting after)"
    and "rp_override_collisions (as_report st) =
      map (\<lambda>o'. (cr_name o', cr_name r)) (filter (\<lambda>o'. cr_mode o' = OverrideMatching) after)"
    and "rp_headline_applied (as_report st) = (headlines cx (before @ r # augmenting after) \<noteq> [])"
    and "sum_headline (as_summary st) =
      (case headlines cx (before @ r # augmenting after) of [] \<Rightarrow> sum_headline s | h # _ \<Rightarrow> h)"
    and "sum_diagnostics (as_summary st) =
      suppress_for cx r (sum_diagnostics s @ diagnostics_of cx before) @ diagnostics_of cx (r # augmenting after)"
    and "(as_summary st)\<lparr>sum_headline := sum_headline s, sum_diagnostics := sum_diagnostics s\<rparr> = s"
  unfolding st_def taken_over_def quiet_run_def collided_def apply_start_def report_default_def Let_def parts_append
  by (simp_all add: hd_append split: list.split) (auto simp: append_eq_Cons_conv)

lemma quiet_run_fields:
  fixes s cx rs
  defines "st \<equiv> quiet_run cx rs (apply_start s)"
  shows "rp_applied (as_report st) = map cr_name (filter (productive cx) rs)"
    and "rp_failures (as_report st) = failures_of cx rs" and "rp_override_collisions (as_report st) = []"
    and "rp_headline_applied (as_report st) = (headlines cx rs \<noteq> [])"
    and "sum_headline (as_summary st) = (case headlines cx rs of [] \<Rightarrow> sum_headline s | h # _ \<Rightarrow> h)"
    and "sum_diagnostics (as_summary st) = sum_diagnostics s @ diagnostics_of cx rs"
    and "(as_summary st)\<lparr>sum_headline := sum_headline s, sum_diagnostics := sum_diagnostics s\<rparr> = s"
  unfolding st_def quiet_run_def apply_start_def report_default_def
  by (simp_all split: list.split)

text \<open>The whole loop.\<close>

lemma apply_all:
  "fold (apply_reducer cx) rs (apply_start s) =
     (case dropWhile (\<lambda>r. \<not> takes_over cx r) rs of
        [] \<Rightarrow> quiet_run cx rs (apply_start s)
      | r # after \<Rightarrow> taken_over cx (takeWhile (\<lambda>r. \<not> takes_over cx r) rs) r after (apply_start s))"
proof -
  let ?before = "takeWhile (\<lambda>r. \<not> takes_over cx r) rs"
  have quiet: "fold (apply_reducer cx) ?before (apply_start s) = quiet_run cx ?before (apply_start s)"
    by (rule apply_quiet_all) (auto dest: set_takeWhileD simp: apply_start_def)
  show ?thesis
  proof (cases "dropWhile (\<lambda>r. \<not> takes_over cx r) rs")
    case Nil
    then have same: "?before = rs" by (metis append_Nil2 takeWhile_dropWhile_id)
    show ?thesis using quiet unfolding same Nil by simp
  next
    case (Cons r after)
    then have rs: "rs = ?before @ r # after" by (metis takeWhile_dropWhile_id)
    have r: "takes_over cx r" using Cons by (metis hd_dropWhile list.sel(1) list.simps(3))
    let ?st1 = "quiet_run cx ?before (apply_start s)"
    let ?st2 = "?st1\<lparr>as_owner := Some (cr_name r),
      as_summary := (as_summary ?st1)\<lparr>sum_diagnostics := suppress_for cx r (sum_diagnostics (as_summary ?st1))\<rparr>\<rparr>"
    have "fold (apply_reducer cx) (?before @ r # after) (apply_start s) =
        fold (apply_reducer cx) after (apply_reducer cx r ?st1)"
      using quiet by simp
    also have "apply_reducer cx r ?st1 = quiet_run cx [r] ?st2"
      by (rule apply_takes_over [OF r]) (simp add: apply_start_def)
    also have "fold (apply_reducer cx) after (quiet_run cx [r] ?st2) =
        collided (cr_name r) after (quiet_run cx (augmenting after) (quiet_run cx [r] ?st2))"
      by (rule apply_owned_all) simp
    also have "\<dots> = taken_over cx ?before r after (apply_start s)"
      using quiet_run_append [of cx "[r]" "augmenting after" ?st2] by (simp add: taken_over_def Let_def)
    finally show ?thesis using Cons rs by simp
  qed
qed


definition sample_diagnostic_of :: "string \<Rightarrow> diagnostic" where
  "sample_diagnostic_of action =
     \<lparr>diag_severity = Error, diag_category = Compilation, diag_message = ''custom'', diag_location = None,
      diag_target = None, diag_action = Some action, repetition_count = 1\<rparr>"

definition no_selection :: reducer_selector where
  "no_selection = \<lparr>sl_commands = {||}, sl_target_labels = [], sl_target_kinds = {||}, sl_action_types = {||}\<rparr>"

definition sample_augment :: custom_reducer where
  "sample_augment =
     \<lparr>cr_name = ''a'', cr_priority = 1, cr_mode = Augment, cr_selector = no_selection,
      cr_reduce = (\<lambda>_. Inr \<lparr>pa_headline = Some ''A'', pa_diagnostics = [sample_diagnostic_of ''Cc''],
                           pa_suppress_builtin_diagnostics = False\<rparr>)\<rparr>"

definition sample_override :: custom_reducer where
  "sample_override =
     \<lparr>cr_name = ''o'', cr_priority = 0, cr_mode = OverrideMatching,
      cr_selector = no_selection\<lparr>sl_action_types := {|''Cc''|}\<rparr>,
      cr_reduce = (\<lambda>_. Inr \<lparr>pa_headline = None, pa_diagnostics = [],
                           pa_suppress_builtin_diagnostics = True\<rparr>)\<rparr>"

definition sample_context :: reducer_context where
  "sample_context =
     \<lparr>cx_api_version = 1, cx_command = ''build'', cx_arguments = [], cx_exit_code = Some 1, cx_elapsed_ms = 0,
      cx_stdout = [], cx_stderr = [],
      cx_events = [\<lparr>re_ordinal = 0, re_kind = ActionEvent, re_label = None, re_target_kind = None,
        re_action_type = Some ''Cc'', re_success = Some False, re_exit_code = Some 1, re_message = None\<rparr>],
      cx_input_truncated = False, cx_baseline = sample_summary\<rparr>"

lemmas sample_reducer_simps =
  sample_augment_def sample_override_def sample_context_def sample_diagnostic_of_def no_selection_def
  selector_matches_def has_event_constraints_def matches_event_def is_some_and_def takes_over_def productive_def
  patch_of_def patch_is_empty_def suppressed_def matched_labels_def

lemma sample_pipeline: "pipeline_new [sample_override, sample_augment] = Inr [sample_augment, sample_override]"
  by (simp add: pipeline_new_def sample_augment_def sample_override_def pipeline_key_def result_simps)

lemma sample_selected:
  "selector_matches (cr_selector sample_augment) sample_context"
  "selector_matches (cr_selector sample_override) sample_context"
  "\<not> takes_over sample_context sample_augment" "takes_over sample_context sample_override"
  "productive sample_context sample_augment" "productive sample_context sample_override"
  by (simp_all add: sample_reducer_simps)



end
