(* ===== verification/Spec2Isabelle.thy ===== *)
theory Spec2Isabelle
  imports Bep_Framing Inspect_Types Store_System Store_Query Bes_Capture Runner_Scheduler Reducer_Extension
begin

text \<open>
  A verification development for bazel-mcp, a server that runs Bazel for an agent and keeps
  bounded evidence of every invocation. The crates are under \<^verbatim>\<open>src/crates\<close>.

  \<^bold>\<open>The program.\<close> A request names a workspace, a command and arguments. The policy
  (\<^verbatim>\<open>bazel-mcp-policy\<close>) admits or refuses it. The runner (\<^verbatim>\<open>bazel-mcp-runner\<close>) admits it to a
  bounded queue, records it in the durable store (\<^verbatim>\<open>bazel-mcp-store\<close>) as queued, serializes it with the
  invocations of the same output base, starts Bazel with arguments of its own, and follows the
  stream of build events (\<^verbatim>\<open>bazel-mcp-bep\<close> frames, or the build event service \<^verbatim>\<open>bazel-mcp-bes\<close>). The
  result is reduced, redacted and committed to the store once; later requests page through it
  (\<^verbatim>\<open>bazel-mcp-types\<close> has the types of all of this).

  \<^bold>\<open>Foundations.\<close>
  \<^item> \<^verbatim>\<open>Rust_Prelude\<close>: saturating and clamped machine integers, \<^verbatim>\<open>Result\<close> with early return, \<^verbatim>\<open>str\<close> methods
    on UTF-8 bytes. \<^verbatim>\<open>Rust_Text\<close>: white space, lines, searching, decimal numbers. \<^verbatim>\<open>Rust_Utf8\<close>: validity
    and lossy decoding. \<^verbatim>\<open>Rust_Path\<close>: paths, a file system with symbolic links, \<^verbatim>\<open>canonicalize\<close>.

  \<^bold>\<open>Events.\<close>
  \<^item> \<^verbatim>\<open>Bep_Framing\<close> (\<^verbatim>\<open>bazel-mcp-bep/src/framing.rs\<close>): length-delimited frames over bytes as words. The
    incremental decoder refines the decoding of the whole stream whatever the chunks are, its buffer is
    bounded, a truncated stream is an error, encoding and decoding are inverse.
  \<^item> \<^verbatim>\<open>Bes_Capture\<close> (\<^verbatim>\<open>bazel-mcp-bes\<close>): registration, claiming, ingestion and completion of a capture.
    Only accepted events are acknowledged, in order, and the spool has exactly their frames; a
    registered capture finishes; a stream is claimed at most once.

  \<^bold>\<open>The store.\<close>
  \<^item> \<^verbatim>\<open>Domain_Types\<close>, \<^verbatim>\<open>Inspect_Types\<close> (\<^verbatim>\<open>bazel-mcp-types\<close>): commands, the life cycle, deferred results,
    bounded inspection results.
  \<^item> \<^verbatim>\<open>Store_Record\<close> (\<^verbatim>\<open>record.rs\<close>, \<^verbatim>\<open>manifest.rs\<close>), \<^verbatim>\<open>Store_Index\<close> (\<^verbatim>\<open>index.rs\<close>), \<^verbatim>\<open>Store_Storage\<close>
    (\<^verbatim>\<open>storage.rs\<close>): the durable shapes, the index with its secondary orders, and each operation as a
    function from a store to a result and a store. A store is directories of files, the locks, and the
    memory of one process.
  \<^item> \<^verbatim>\<open>Store_Invariant\<close>: the index is in step with the manifests, and every operation keeps it so.
    \<^verbatim>\<open>Store_Retention\<close> (\<^verbatim>\<open>retention.rs\<close>): what is reclaimed by age and quota, and what never is.
    \<^verbatim>\<open>Store_System\<close>: the operations as steps; in every reachable store the invariant holds, a terminal
    result never changes, a restart recovers what was interrupted, and what is finished is read back.
  \<^item> \<^verbatim>\<open>Store_Cursor\<close> (\<^verbatim>\<open>cursor.rs\<close>), \<^verbatim>\<open>Paged_Listing\<close>, \<^verbatim>\<open>Store_Paging\<close>, \<^verbatim>\<open>Store_Query\<close>: the cursors, which are
    bound to their context; the contract of a paged listing as a locale, and its instances: following
    the cursors gives every item once and in order.

  \<^bold>\<open>The policy and the runner.\<close>
  \<^item> \<^verbatim>\<open>Policy\<close>: workspaces below the allowed roots, commands, arguments, environment, executables, the key
    of an output base, bounded redaction.
  \<^item> \<^verbatim>\<open>Runner_Config\<close>, \<^verbatim>\<open>Runner_Command\<close>: validated settings, and the command lines, in which the flags
    that the runner owns are set once and by the runner.
  \<^item> \<^verbatim>\<open>Runner_Scheduler\<close> (\<^verbatim>\<open>scheduler.rs\<close>, \<^verbatim>\<open>output_base_lock.rs\<close>, \<^verbatim>\<open>run_prepared\<close>): admission, locks and
    permits as steps of interleaved workers; executions of one output base exclude each other, the
    permits are conserved, and every accepted invocation leaves the scheduler.

  \<^bold>\<open>Parameters.\<close> Library code is an argument: the JSON codec of the store, Base64 and BLAKE3 of the
  cursors, regular expressions, the search of \<^verbatim>\<open>PATH\<close>, the decoder of events. What is relied on is
  a named predicate (\<^const>\<open>codec_ok\<close>, \<^const>\<open>regex_lib_ok\<close>), and each has an instance. Clocks and what
  the operating system answers are arguments of the operation that asks.

  \<^bold>\<open>Bounds.\<close> No definition needs fuel: loops recurse on the data they consume, or have a measure. The
  forty links of \<^const>\<open>MAXSYMLINKS\<close> are the limit of the kernel.

  \<^bold>\<open>Not modelled.\<close> The generated protocol buffer code and the gRPC and MCP transports; process
  creation and signals beyond their outcomes; the Starlark interpreter; the benchmark, the reducer
  cases, the fuzz targets, the scripts and the web site, which are not part of the server.
\<close>

end
